(* ===== verification/Prelude.thy ===== *)
theory Prelude
  imports Main "HOL-Library.Word" "HOL-Library.Monad_Syntax"
begin

text \<open>
  Shared vocabulary of the development: the names of the machine types, the C library
  routines the sources call on raw bytes (memcmp, memcpy), three-way comparison, and the
  generic lemmas the component theories use.

  A pointer to readable bytes is modelled by the list of bytes that may be read from it;
  an access outside that list is the value None of the option monad, which every partial
  operation of the development uses for a fault (an access outside an object, a null or
  dangling pointer, a failed assertion, division by zero, or a loop that does not end).
\<close>

unbundle bit_operations_syntax

type_synonym byte = "8 word"
type_synonym u16 = "16 word"
type_synonym u32 = "32 word"
type_synonym u64 = "64 word"
type_synonym u128 = "128 word"
type_synonym bytes = "byte list"

named_theorems mem_simps \<open>evaluation rules of the memory accessors\<close>
named_theorems inv_simps \<open>unfoldings of the component invariants\<close>

subsection \<open>Guards in the option monad\<close>

definition guard :: "bool \<Rightarrow> unit option" where
  "guard b = (if b then Some () else None)"

lemma guard_True [simp]: "guard True = Some ()"
  by (simp add: guard_def)

lemma guard_False [simp]: "guard False = None"
  by (simp add: guard_def)

lemma guard_eq_Some [simp]: "guard b = Some u \<longleftrightarrow> b"
  by (simp add: guard_def)

lemma bind_guard_eq_Some [simp]:
  "Option.bind (guard b) f = Some y \<longleftrightarrow> b \<and> f () = Some y"
  by (simp add: guard_def)

subsection \<open>Three-way comparison of byte strings\<close>

text \<open>The lexicographic order of unsigned bytes, a proper prefix first.\<close>

fun bytes_cmp :: "bytes \<Rightarrow> bytes \<Rightarrow> int" where
  "bytes_cmp [] [] = 0"
| "bytes_cmp [] (b # bs) = -1"
| "bytes_cmp (a # as) [] = 1"
| "bytes_cmp (a # as) (b # bs) =
     (if a = b then bytes_cmp as bs else if a < b then -1 else 1)"

lemma bytes_cmp_eq_0 [simp]: "bytes_cmp as bs = 0 \<longleftrightarrow> as = bs"
  by (induction as bs rule: bytes_cmp.induct) auto

lemma bytes_cmp_refl [simp]: "bytes_cmp as as = 0"
  by simp

lemma bytes_cmp_range: "bytes_cmp as bs \<in> {-1, 0, 1}"
  by (induction as bs rule: bytes_cmp.induct) auto

lemma bytes_cmp_swap: "bytes_cmp bs as = - bytes_cmp as bs"
  by (induction as bs rule: bytes_cmp.induct) auto

lemma bytes_cmp_trans:
  "bytes_cmp as bs \<le> 0 \<Longrightarrow> bytes_cmp bs cs \<le> 0 \<Longrightarrow> bytes_cmp as cs \<le> 0"
proof (induction as bs arbitrary: cs rule: bytes_cmp.induct)
  case (4 a as b bs)
  then show ?case by (cases cs) (auto split: if_splits)
qed (case_tac cs; simp)+

lemma bytes_cmp_min:
  "bytes_cmp as bs =
     (let n = min (length as) (length bs); c = bytes_cmp (take n as) (take n bs)
      in if c \<noteq> 0 then c
         else if length as < length bs then -1 else if length bs < length as then 1 else 0)"
  by (induction as bs rule: bytes_cmp.induct) (auto simp: Let_def)

lemma bytes_cmp_append:
  "length as = length bs \<Longrightarrow>
   bytes_cmp (as @ as') (bs @ bs') =
     (if bytes_cmp as bs \<noteq> 0 then bytes_cmp as bs else bytes_cmp as' bs')"
  by (induction as bs rule: list_induct2) auto

text \<open>
  memcmp reads both operands to the given length; only the sign of its result is
  specified, and the model returns -1, 0 or 1.
\<close>

definition memcmp :: "bytes \<Rightarrow> bytes \<Rightarrow> nat \<Rightarrow> int option" where
  "memcmp p q n =
     (if n \<le> length p \<and> n \<le> length q then Some (bytes_cmp (take n p) (take n q)) else None)"

lemma memcmp_Some [simp]:
  "n \<le> length p \<Longrightarrow> n \<le> length q \<Longrightarrow> memcmp p q n = Some (bytes_cmp (take n p) (take n q))"
  by (simp add: memcmp_def)

lemma memcmp_None: "memcmp p q n = None \<longleftrightarrow> length p < n \<or> length q < n"
  by (auto simp: memcmp_def)

text \<open>A comparison routine that is a total preorder: the contract of every compare method.\<close>

locale three_way =
  fixes valid :: "'a \<Rightarrow> bool"
    and cmp :: "'a \<Rightarrow> 'a \<Rightarrow> int"
  assumes cmp_swap: "valid x \<Longrightarrow> valid y \<Longrightarrow> sgn (cmp y x) = - sgn (cmp x y)"
    and cmp_trans:
      "valid x \<Longrightarrow> valid y \<Longrightarrow> valid z \<Longrightarrow> cmp x y \<le> 0 \<Longrightarrow> cmp y z \<le> 0 \<Longrightarrow> cmp x z \<le> 0"
begin

lemma cmp_refl: "valid x \<Longrightarrow> cmp x x = 0"
  using cmp_swap [of x x] by (simp add: sgn_if split: if_splits)

lemma cmp_total: "valid x \<Longrightarrow> valid y \<Longrightarrow> cmp x y \<le> 0 \<or> cmp y x \<le> 0"
  using cmp_swap [of x y] by (auto simp: sgn_if split: if_splits)

lemma cmp_le_ge: "valid x \<Longrightarrow> valid y \<Longrightarrow> cmp x y \<le> 0 \<longleftrightarrow> 0 \<le> cmp y x"
  using cmp_swap [of x y] by (auto simp: sgn_if split: if_splits)

lemma cmp_lt_gt: "valid x \<Longrightarrow> valid y \<Longrightarrow> cmp x y < 0 \<longleftrightarrow> 0 < cmp y x"
  using cmp_swap [of x y] by (auto simp: sgn_if split: if_splits)

lemma cmp_eq_sym: "valid x \<Longrightarrow> valid y \<Longrightarrow> cmp x y = 0 \<longleftrightarrow> cmp y x = 0"
  using cmp_swap [of x y] by (auto simp: sgn_if split: if_splits)

lemma cmp_lt_trans:
  assumes "valid x" "valid y" "valid z" "cmp x y < 0" "cmp y z < 0"
  shows "cmp x z < 0"
proof (rule ccontr)
  assume "\<not> cmp x z < 0"
  then have "cmp z x \<le> 0" using assms cmp_le_ge [of z x] by simp
  then have "cmp z y \<le> 0" using assms cmp_trans [of z x y] by simp
  then show False using assms cmp_lt_gt [of y z] by simp
qed

lemma cmp_eq_cong:
  assumes "valid x" "valid y" "valid z" "cmp x y = 0"
  shows "cmp x z \<le> 0 \<longleftrightarrow> cmp y z \<le> 0"
proof -
  have "cmp y x = 0" using assms cmp_eq_sym by blast
  then show ?thesis using assms cmp_trans [of x y z] cmp_trans [of y x z] by auto
qed

end

interpretation bytes_order: three_way "\<lambda>_. True" bytes_cmp
proof
  fix x y z :: bytes
  show "sgn (bytes_cmp y x) = - sgn (bytes_cmp x y)"
    using bytes_cmp_swap [of y x] by (simp add: sgn_if)
  show "bytes_cmp x y \<le> 0 \<Longrightarrow> bytes_cmp y z \<le> 0 \<Longrightarrow> bytes_cmp x z \<le> 0"
    by (rule bytes_cmp_trans)
qed

subsection \<open>Words\<close>

lemma drop_bit_less_word:
  fixes w :: "'a::len word"
  assumes "n \<le> LENGTH('a)"
  shows "unat (drop_bit n w) < 2 ^ (LENGTH('a) - n)"
proof -
  have "unat w < 2 ^ (n + (LENGTH('a) - n))"
    using assms unsigned_less [of w, where ?'a = nat] by simp
  then have "unat w div 2 ^ n < 2 ^ (LENGTH('a) - n)"
    by (simp add: power_add less_mult_imp_div_less mult.commute)
  then show ?thesis by (metis drop_bit_eq_div unat_drop_bit_eq)
qed

lemma unat_of_nat_eq64: "n < 2 ^ 64 \<Longrightarrow> unat (of_nat n :: u64) = n"
  by (simp add: unat_of_nat)

lemma unat_of_nat_eq32: "n < 2 ^ 32 \<Longrightarrow> unat (of_nat n :: u32) = n"
  by (simp add: unat_of_nat)

lemma sgn_uint_diff:
  "sgn (uint (a :: 'a::len word) - uint b) =
     (if unat a < unat b then -1 else if unat b < unat a then 1 else 0)"
  unfolding uint_nat by (simp add: sgn_if del: of_nat_unat)

lemma unat_min_word: "unat (min (a :: 'a::len word) b) = min (unat a) (unat b)"
  by (simp add: min_def word_le_nat_alt)

lemma unat_minus_word: "b \<le> a \<Longrightarrow> unat (a - b :: 'a::len word) = unat a - unat b"
  by (simp add: unat_sub)

subsection \<open>Lists\<close>

lemma take_eq_iff_prefix:
  "length x = m \<Longrightarrow> take m s = x \<longleftrightarrow> (\<exists>t. s = x @ t)"
  by (metis append_eq_conv_conj append_take_drop_id)

lemma drop_eq_iff_suffix:
  assumes "length s = m + length x"
  shows "drop m s = x \<longleftrightarrow> (\<exists>t. s = t @ x)"
proof
  assume "drop m s = x"
  then have "s = take m s @ x" by (metis append_take_drop_id)
  then show "\<exists>t. s = t @ x" ..
next
  assume "\<exists>t. s = t @ x"
  then show "drop m s = x" using assms by auto
qed

lemma unat_2p: "k < LENGTH('a) \<Longrightarrow> unat (2 ^ k :: 'a::len word) = 2 ^ k"
proof -
  assume "k < LENGTH('a)"
  then have "(2::nat) ^ k < 2 ^ LENGTH('a)" by simp
  then have "unat (of_nat (2 ^ k) :: 'a word) = 2 ^ k"
    by (simp only: unat_of_nat mod_less)
  then show ?thesis by simp
qed

lemma unat_add1: "Suc (unat w) < 2 ^ LENGTH('a) \<Longrightarrow> unat (w + 1 :: 'a::len word) = Suc (unat w)"
  by (simp add: unat_word_ariths)

end
