(* ===== verification/Slice.thy ===== *)
theory Slice
  imports Prelude
begin

text \<open>
  The two reference types of the LRU cache library: Slice (src/modules/lru_cache/slice.hh)
  and CacheKey (src/modules/lru_cache/lru_cache.hh, lru_cache.cc).  Both are a pointer and
  a 64-bit size; the pointer is the list of bytes readable from it.  Slice::compare is
  kept at its C++ types: the size difference is computed in 64 bits and narrowed to int.
\<close>

subsection \<open>Slice\<close>

record slice =
  sl_data :: bytes
  sl_size :: u64

definition slice_valid :: "slice \<Rightarrow> bool" where
  "slice_valid s \<longleftrightarrow> unat (sl_size s) \<le> length (sl_data s)"

text \<open>The bytes a slice denotes.\<close>

definition slice_bytes :: "slice \<Rightarrow> bytes" where
  "slice_bytes s = take (unat (sl_size s)) (sl_data s)"

definition slice_empty :: slice where
  "slice_empty = \<lparr>sl_data = [], sl_size = 0\<rparr>"

definition slice_of_string :: "bytes \<Rightarrow> slice" where
  "slice_of_string s = \<lparr>sl_data = s, sl_size = of_nat (length s)\<rparr>"

text \<open>The C-string constructor measures the string up to its first zero byte.\<close>

definition strlen :: "bytes \<Rightarrow> nat option" where
  "strlen s = (if 0 \<in> set s then Some (length (takeWhile (\<lambda>b. b \<noteq> 0) s)) else None)"

definition slice_of_cstr :: "bytes \<Rightarrow> slice option" where
  "slice_of_cstr s = map_option (\<lambda>n. \<lparr>sl_data = s, sl_size = of_nat n\<rparr>) (strlen s)"

definition slice_is_empty :: "slice \<Rightarrow> bool" where
  "slice_is_empty s \<longleftrightarrow> sl_size s = 0"

definition slice_nth :: "slice \<Rightarrow> u64 \<Rightarrow> byte option" where
  "slice_nth s n =
     do { guard (n < sl_size s);
          guard (unat n < length (sl_data s));
          Some (sl_data s ! unat n) }"

definition slice_clear :: "slice \<Rightarrow> slice" where
  "slice_clear s = s\<lparr>sl_data := [], sl_size := 0\<rparr>"

definition slice_remove_prefix :: "slice \<Rightarrow> u64 \<Rightarrow> slice option" where
  "slice_remove_prefix s n =
     do { guard (n \<le> sl_size s);
          Some (s\<lparr>sl_data := drop (unat n) (sl_data s), sl_size := sl_size s - n\<rparr>) }"

definition slice_remove_suffix :: "slice \<Rightarrow> u64 \<Rightarrow> slice option" where
  "slice_remove_suffix s n = do { guard (n \<le> sl_size s); Some (s\<lparr>sl_size := sl_size s - n\<rparr>) }"

definition slice_truncate :: "slice \<Rightarrow> u64 \<Rightarrow> slice option" where
  "slice_truncate s n = do { guard (n \<le> sl_size s); Some (s\<lparr>sl_size := n\<rparr>) }"

definition slice_to_string :: "slice \<Rightarrow> bytes option" where
  "slice_to_string s =
     do { guard (unat (sl_size s) \<le> length (sl_data s)); Some (take (unat (sl_size s)) (sl_data s)) }"

text \<open>
  The conditional of Slice::compare has the common type size\_t, so the byte comparison
  and the size difference both pass through 64 bits before the result is narrowed to int.
\<close>

definition slice_compare :: "slice \<Rightarrow> slice \<Rightarrow> int option" where
  "slice_compare a b =
     do { r \<leftarrow> memcmp (sl_data a) (sl_data b) (unat (min (sl_size a) (sl_size b)));
          let w = (if r \<noteq> 0 then (of_int r :: u64) else sl_size a - sl_size b);
          Some (sint (ucast w :: u32)) }"

definition slice_eq :: "slice \<Rightarrow> slice \<Rightarrow> bool option" where
  "slice_eq x y = map_option (\<lambda>c. c = 0) (slice_compare x y)"

definition slice_neq :: "slice \<Rightarrow> slice \<Rightarrow> bool option" where
  "slice_neq x y = map_option Not (slice_eq x y)"

definition slice_lt :: "slice \<Rightarrow> slice \<Rightarrow> bool option" where
  "slice_lt x y = map_option (\<lambda>c. c < 0) (slice_compare x y)"

definition slice_le :: "slice \<Rightarrow> slice \<Rightarrow> bool option" where
  "slice_le x y = map_option (\<lambda>c. c \<le> 0) (slice_compare x y)"

definition slice_gt :: "slice \<Rightarrow> slice \<Rightarrow> bool option" where
  "slice_gt x y = map_option (\<lambda>c. c > 0) (slice_compare x y)"

definition slice_ge :: "slice \<Rightarrow> slice \<Rightarrow> bool option" where
  "slice_ge x y = map_option (\<lambda>c. c \<ge> 0) (slice_compare x y)"

definition slice_starts_with :: "slice \<Rightarrow> slice \<Rightarrow> bool option" where
  "slice_starts_with s x =
     (if sl_size s \<ge> sl_size x then map_option (\<lambda>c. c = 0) (memcmp (sl_data s) (sl_data x) (unat (sl_size x)))
      else Some False)"

definition slice_ends_with :: "slice \<Rightarrow> slice \<Rightarrow> bool option" where
  "slice_ends_with s x =
     (if sl_size s \<ge> sl_size x
      then map_option (\<lambda>c. c = 0)
             (memcmp (drop (unat (sl_size s - sl_size x)) (sl_data s)) (sl_data x) (unat (sl_size x)))
      else Some False)"

fun compute_total_size_from :: "u64 \<Rightarrow> slice list \<Rightarrow> u64" where
  "compute_total_size_from total_size [] = total_size"
| "compute_total_size_from total_size (s # ss) =
     compute_total_size_from (total_size + sl_size s) ss"

definition compute_total_size :: "slice list \<Rightarrow> u64" where
  "compute_total_size slices = compute_total_size_from 0 slices"

fun to_string_from :: "bytes \<Rightarrow> slice list \<Rightarrow> bytes option" where
  "to_string_from buf [] = Some buf"
| "to_string_from buf (s # ss) =
     do { x \<leftarrow> slice_to_string s; to_string_from (buf @ x) ss }"

definition slices_to_string :: "slice list \<Rightarrow> bytes option" where
  "slices_to_string slices = to_string_from [] slices"

definition SLICE_MAX_LENGTH :: nat where
  "SLICE_MAX_LENGTH = 65535"

definition slice_max_value :: slice where
  "slice_max_value = \<lparr>sl_data = replicate SLICE_MAX_LENGTH 255, sl_size = of_nat SLICE_MAX_LENGTH\<rparr>"

definition slice_min_value :: slice where
  "slice_min_value = \<lparr>sl_data = [], sl_size = 0\<rparr>"

subsection \<open>CacheKey\<close>

record cache_key =
  ck_data :: bytes
  ck_size :: u64

definition ck_of_string :: "bytes \<Rightarrow> cache_key" where
  "ck_of_string s = \<lparr>ck_data = s, ck_size = of_nat (length s)\<rparr>"

definition ck_valid :: "cache_key \<Rightarrow> bool" where
  "ck_valid k \<longleftrightarrow> unat (ck_size k) \<le> length (ck_data k)"

definition ck_bytes :: "cache_key \<Rightarrow> bytes" where
  "ck_bytes k = take (unat (ck_size k)) (ck_data k)"

definition ck_nth :: "cache_key \<Rightarrow> u64 \<Rightarrow> byte option" where
  "ck_nth k n =
     do { guard (n < ck_size k);
          guard (unat n < length (ck_data k));
          Some (ck_data k ! unat n) }"

definition ck_remove_prefix :: "cache_key \<Rightarrow> u64 \<Rightarrow> cache_key option" where
  "ck_remove_prefix k n =
     do { guard (n \<le> ck_size k);
          Some (k\<lparr>ck_data := drop (unat n) (ck_data k), ck_size := ck_size k - n\<rparr>) }"

definition ck_eq :: "cache_key \<Rightarrow> cache_key \<Rightarrow> bool option" where
  "ck_eq a b =
     (if ck_size a = ck_size b
      then map_option (\<lambda>c. c = 0) (memcmp (ck_data a) (ck_data b) (unat (ck_size a)))
      else Some False)"

definition ck_compare :: "cache_key \<Rightarrow> cache_key \<Rightarrow> int option" where
  "ck_compare a b =
     (let min_len = (if ck_size a < ck_size b then ck_size a else ck_size b)
      in do { r \<leftarrow> memcmp (ck_data a) (ck_data b) (unat min_len);
              Some (if r = 0
                    then if ck_size a < ck_size b then -1
                         else if ck_size a > ck_size b then 1 else r
                    else r) })"

definition ck_starts_with :: "cache_key \<Rightarrow> cache_key \<Rightarrow> bool option" where
  "ck_starts_with k x =
     (if ck_size k \<ge> ck_size x
      then map_option (\<lambda>c. c = 0) (memcmp (ck_data k) (ck_data x) (unat (ck_size x)))
      else Some False)"

text \<open>A four-byte load on a little-endian machine.\<close>

definition decode_fixed32 :: "byte \<Rightarrow> byte \<Rightarrow> byte \<Rightarrow> byte \<Rightarrow> u32" where
  "decode_fixed32 b0 b1 b2 b3 =
     ucast b0 OR push_bit 8 (ucast b1) OR push_bit 16 (ucast b2) OR push_bit 24 (ucast b3)"

definition hash_m :: u32 where
  "hash_m = 0xc6a4a793"

definition hash_mix :: "u32 \<Rightarrow> nat \<Rightarrow> u32" where
  "hash_mix h r = (let h = h * hash_m in h XOR drop_bit r h)"

fun hash_loop :: "bytes \<Rightarrow> u32 \<Rightarrow> u32" where
  "hash_loop (b0 # b1 # b2 # b3 # rest) h =
     hash_loop rest (hash_mix (h + decode_fixed32 b0 b1 b2 b3) 16)"
| "hash_loop [b0, b1, b2] h =
     hash_mix (h + push_bit 16 (ucast b2) + push_bit 8 (ucast b1) + ucast b0) 24"
| "hash_loop [b0, b1] h = hash_mix (h + push_bit 8 (ucast b1) + ucast b0) 24"
| "hash_loop [b0] h = hash_mix (h + ucast b0) 24"
| "hash_loop [] h = h"

text \<open>The length is multiplied in 64 bits and the initial value narrowed to 32.\<close>

definition hash_bytes :: "bytes \<Rightarrow> u64 \<Rightarrow> u32 \<Rightarrow> u32" where
  "hash_bytes s n seed = hash_loop s (ucast ((ucast seed :: u64) XOR (n * ucast hash_m)))"

definition ck_hash :: "cache_key \<Rightarrow> u32 \<Rightarrow> u32 option" where
  "ck_hash k seed =
     do { guard (unat (ck_size k) \<le> length (ck_data k));
          Some (hash_bytes (take (unat (ck_size k)) (ck_data k)) (ck_size k) seed) }"


subsection \<open>Slice: what the operations do to the denoted bytes\<close>

lemma length_slice_bytes: "slice_valid s \<Longrightarrow> length (slice_bytes s) = unat (sl_size s)"
  by (simp add: slice_valid_def slice_bytes_def)

lemma slice_remove_prefix_spec:
  assumes "slice_valid s" "n \<le> sl_size s"
  obtains s' where "slice_remove_prefix s n = Some s'" "slice_valid s'"
    "slice_bytes s' = drop (unat n) (slice_bytes s)"
  using assms
  by (auto simp: slice_remove_prefix_def slice_valid_def slice_bytes_def unat_minus_word
      drop_take word_le_nat_alt)

lemma slice_remove_suffix_spec:
  assumes "slice_valid s" "n \<le> sl_size s"
  obtains s' where "slice_remove_suffix s n = Some s'" "slice_valid s'"
    "slice_bytes s' = take (unat (sl_size s) - unat n) (slice_bytes s)"
  using assms
  by (auto simp: slice_remove_suffix_def slice_valid_def slice_bytes_def unat_minus_word
      word_le_nat_alt min_def)

lemma slice_truncate_spec:
  assumes "slice_valid s" "n \<le> sl_size s"
  obtains s' where "slice_truncate s n = Some s'" "slice_valid s'"
    "slice_bytes s' = take (unat n) (slice_bytes s)"
  using assms
  by (auto simp: slice_truncate_def slice_valid_def slice_bytes_def word_le_nat_alt min_def)

lemma memcmp_slices:
  assumes "slice_valid a" "slice_valid b"
  shows "memcmp (sl_data a) (sl_data b) (unat (min (sl_size a) (sl_size b))) =
    Some (let n = min (length (slice_bytes a)) (length (slice_bytes b))
          in bytes_cmp (take n (slice_bytes a)) (take n (slice_bytes b)))"
  using assms by (simp add: length_slice_bytes unat_min_word Let_def)
    (simp add: slice_valid_def slice_bytes_def min_def)

text \<open>Narrowing a 64-bit difference of at most 31 bits keeps its sign.\<close>

lemma sint_ucast_u64: "sint (ucast (w :: u64) :: u32) = signed_take_bit 31 (uint w)"
  by (simp only: ucast_eq signed_of_int) simp

lemma sint_ucast_minus_1: "sint (ucast (- 1 :: u64) :: u32) = - 1"
  by code_simp

lemma sint_ucast_diff:
  fixes a b :: u64
  assumes "\<bar>uint a - uint b\<bar> < 2 ^ 31"
  shows "sint (ucast (a - b) :: u32) = uint a - uint b"
proof -
  let ?d = "uint a - uint b"
  have "uint (a - b) = take_bit 64 ?d"
    unfolding uint_word_ariths take_bit_eq_mod by simp
  then have "sint (ucast (a - b) :: u32) = signed_take_bit 31 (take_bit 64 ?d)"
    by (simp only: sint_ucast_u64)
  also have "\<dots> = signed_take_bit 31 ?d"
    by (simp only: signed_take_bit_take_bit) simp
  also have "\<dots> = ?d"
    using assms by (intro signed_take_bit_int_eq_self) auto
  finally show ?thesis .
qed

lemma slice_compare_spec:
  assumes "slice_valid a" "slice_valid b"
    and "\<bar>uint (sl_size a) - uint (sl_size b)\<bar> < 2 ^ 31"
  obtains c where "slice_compare a b = Some c"
    "sgn c = bytes_cmp (slice_bytes a) (slice_bytes b)"
proof -
  define n where "n = min (length (slice_bytes a)) (length (slice_bytes b))"
  define r where "r = bytes_cmp (take n (slice_bytes a)) (take n (slice_bytes b))"
  let ?c = "sint (ucast (if r \<noteq> 0 then (of_int r :: u64) else sl_size a - sl_size b) :: u32)"
  have r: "r \<in> {-1, 0, 1}"
    unfolding r_def by (rule bytes_cmp_range)
  have cmp: "slice_compare a b = Some ?c"
    using assms(1,2) by (simp only: slice_compare_def memcmp_slices Let_def flip: n_def r_def) simp
  have spec: "bytes_cmp (slice_bytes a) (slice_bytes b) =
      (if r \<noteq> 0 then r else if unat (sl_size a) < unat (sl_size b) then -1
       else if unat (sl_size b) < unat (sl_size a) then 1 else 0)"
    unfolding r_def n_def bytes_cmp_min [of "slice_bytes a" "slice_bytes b"] Let_def
    using assms(1,2) by (simp only: length_slice_bytes)
  have "sgn ?c = bytes_cmp (slice_bytes a) (slice_bytes b)"
  proof (cases "r = 0")
    case True
    then have "?c = uint (sl_size a) - uint (sl_size b)"
      using assms(3) by (simp add: sint_ucast_diff)
    then show ?thesis using True spec by (simp only: sgn_uint_diff) simp
  next
    case False
    then show ?thesis using r spec by (auto simp: sint_ucast_minus_1)
  qed
  with cmp show ?thesis using that by blast
qed

text \<open>Slices of fewer than 2 GiB: the range in which Slice::compare is an order.\<close>

definition slice_small :: "slice \<Rightarrow> bool" where
  "slice_small s \<longleftrightarrow> slice_valid s \<and> uint (sl_size s) < 2 ^ 31"

definition slice_cmp :: "slice \<Rightarrow> slice \<Rightarrow> int" where
  "slice_cmp a b = the (slice_compare a b)"

lemma slice_small_diff:
  assumes "slice_small a" "slice_small b"
  shows "\<bar>uint (sl_size a) - uint (sl_size b)\<bar> < 2 ^ 31"
proof -
  have "0 \<le> uint (sl_size a)" "0 \<le> uint (sl_size b)" by simp_all
  with assms show ?thesis unfolding slice_small_def by linarith
qed

lemma slice_cmp_sgn:
  assumes "slice_small a" "slice_small b"
  shows "sgn (slice_cmp a b) = bytes_cmp (slice_bytes a) (slice_bytes b)"
    and "slice_compare a b = Some (slice_cmp a b)"
proof -
  obtain c where "slice_compare a b = Some c"
      "sgn c = bytes_cmp (slice_bytes a) (slice_bytes b)"
    using slice_compare_spec [OF _ _ slice_small_diff [OF assms]] assms
    by (auto simp: slice_small_def)
  then show "sgn (slice_cmp a b) = bytes_cmp (slice_bytes a) (slice_bytes b)"
    and "slice_compare a b = Some (slice_cmp a b)" by (auto simp: slice_cmp_def)
qed

lemma sgn_le_0: "x \<le> 0 \<longleftrightarrow> sgn x \<le> (0::int)"
  by (simp add: sgn_if)

lemma slice_cmp_le_0:
  "slice_small a \<Longrightarrow> slice_small b \<Longrightarrow>
   slice_cmp a b \<le> 0 \<longleftrightarrow> bytes_cmp (slice_bytes a) (slice_bytes b) \<le> 0"
  by (metis sgn_le_0 slice_cmp_sgn(1))

interpretation slice_order: three_way slice_small slice_cmp
proof
  fix x y z
  assume v: "slice_small x" "slice_small y"
  show "sgn (slice_cmp y x) = - sgn (slice_cmp x y)"
    using v bytes_cmp_swap [of "slice_bytes y" "slice_bytes x"] by (simp add: slice_cmp_sgn)
  assume "slice_small z" "slice_cmp x y \<le> 0" "slice_cmp y z \<le> 0"
  with v show "slice_cmp x z \<le> 0"
    using bytes_cmp_trans [of "slice_bytes x" "slice_bytes y" "slice_bytes z"]
    by (simp add: slice_cmp_le_0)
qed

lemma slice_starts_with_spec:
  assumes "slice_valid s" "slice_valid x"
  shows "slice_starts_with s x = Some (\<exists>t. slice_bytes s = slice_bytes x @ t)"
proof (cases "sl_size x \<le> sl_size s")
  case True
  then have le: "unat (sl_size x) \<le> unat (sl_size s)" by (simp add: word_le_nat_alt)
  have "slice_starts_with s x = Some (take (unat (sl_size x)) (slice_bytes s) = slice_bytes x)"
    using assms True le by (simp add: slice_starts_with_def slice_valid_def slice_bytes_def min_def)
  moreover have "length (slice_bytes x) = unat (sl_size x)"
    using assms by (simp add: length_slice_bytes)
  ultimately show ?thesis by (simp add: take_eq_iff_prefix)
next
  case False
  then have "length (slice_bytes s) < length (slice_bytes x)"
    using assms by (simp add: length_slice_bytes word_le_nat_alt)
  then have "\<nexists>t. slice_bytes s = slice_bytes x @ t" by auto
  with False show ?thesis by (simp add: slice_starts_with_def)
qed

lemma slice_ends_with_spec:
  assumes "slice_valid s" "slice_valid x"
  shows "slice_ends_with s x = Some (\<exists>t. slice_bytes s = t @ slice_bytes x)"
proof (cases "sl_size x \<le> sl_size s")
  case True
  let ?m = "unat (sl_size s) - unat (sl_size x)"
  have le: "unat (sl_size x) \<le> unat (sl_size s)" using True by (simp add: word_le_nat_alt)
  have "memcmp (drop ?m (sl_data s)) (sl_data x) (unat (sl_size x)) =
      Some (bytes_cmp (drop ?m (slice_bytes s)) (slice_bytes x))"
    using assms le by (simp add: slice_valid_def slice_bytes_def drop_take)
  then have "slice_ends_with s x = Some (drop ?m (slice_bytes s) = slice_bytes x)"
    using True by (simp add: slice_ends_with_def unat_minus_word)
  moreover have "length (slice_bytes s) = ?m + length (slice_bytes x)"
    using assms le by (simp add: length_slice_bytes)
  ultimately show ?thesis by (simp only: drop_eq_iff_suffix)
next
  case False
  then have "length (slice_bytes s) < length (slice_bytes x)"
    using assms by (simp add: length_slice_bytes word_le_nat_alt)
  then have "\<nexists>t. slice_bytes s = t @ slice_bytes x" by auto
  with False show ?thesis by (simp add: slice_ends_with_def)
qed

lemma to_string_from_spec:
  "\<forall>s \<in> set ss. slice_valid s \<Longrightarrow>
   to_string_from buf ss = Some (buf @ concat (map slice_bytes ss))"
  by (induction ss arbitrary: buf)
    (auto simp: slice_to_string_def slice_valid_def slice_bytes_def)

lemma compute_total_size_from_spec:
  "compute_total_size_from t ss = t + (\<Sum>s\<leftarrow>ss. sl_size s)"
  by (induction ss arbitrary: t) auto

lemma bytes_cmp_replicate_max:
  "length as \<le> n \<Longrightarrow> bytes_cmp as (replicate n 255) \<le> 0"
proof (induction as arbitrary: n)
  case Nil
  then show ?case by (cases n) auto
next
  case (Cons a as)
  then obtain m where n: "n = Suc m" "length as \<le> m" by (cases n) auto
  have "(-1 :: byte) = 255" by simp
  then have "a = 255 \<or> a < 255"
    using word_n1_ge [of a] by (metis order_le_less)
  with n Cons.IH [OF n(2)] show ?case by auto
qed

subsection \<open>CacheKey: equality, order and hash\<close>

lemma length_ck_bytes: "ck_valid k \<Longrightarrow> length (ck_bytes k) = unat (ck_size k)"
  by (simp add: ck_valid_def ck_bytes_def)

lemma ck_of_string_valid [simp]:
  "length s < 2 ^ 64 \<Longrightarrow> ck_valid (ck_of_string s)"
  by (simp add: ck_valid_def ck_of_string_def unat_of_nat)

lemma ck_bytes_of_string [simp]:
  "length s < 2 ^ 64 \<Longrightarrow> ck_bytes (ck_of_string s) = s"
  by (simp add: ck_bytes_def ck_of_string_def unat_of_nat)

lemma ck_eq_spec:
  assumes "ck_valid a" "ck_valid b"
  shows "ck_eq a b = Some (ck_bytes a = ck_bytes b)"
proof (cases "ck_size a = ck_size b")
  case True
  with assms show ?thesis by (simp add: ck_eq_def ck_valid_def ck_bytes_def)
next
  case False
  then have "length (ck_bytes a) \<noteq> length (ck_bytes b)"
    using assms by (simp add: length_ck_bytes word_unat_eq_iff)
  with False show ?thesis by (auto simp: ck_eq_def)
qed

lemma ck_compare_spec:
  assumes "ck_valid a" "ck_valid b"
  shows "ck_compare a b = Some (bytes_cmp (ck_bytes a) (ck_bytes b))"
proof -
  let ?m = "if ck_size a < ck_size b then ck_size a else ck_size b"
  define n where "n = min (length (ck_bytes a)) (length (ck_bytes b))"
  define r where "r = bytes_cmp (take n (ck_bytes a)) (take n (ck_bytes b))"
  have m: "unat ?m = n"
    using assms by (simp add: n_def length_ck_bytes word_less_nat_alt min_def)
  have "memcmp (ck_data a) (ck_data b) (unat ?m) = Some r"
    unfolding m r_def n_def using assms by (simp add: ck_valid_def ck_bytes_def min_def)
  moreover have "bytes_cmp (ck_bytes a) (ck_bytes b) =
      (if r \<noteq> 0 then r else if ck_size a < ck_size b then -1
       else if ck_size b < ck_size a then 1 else 0)"
    unfolding r_def n_def bytes_cmp_min [of "ck_bytes a" "ck_bytes b"] Let_def
    using assms by (simp only: length_ck_bytes word_less_nat_alt)
  ultimately show ?thesis by (simp add: ck_compare_def Let_def)
qed

interpretation ck_order: three_way ck_valid "\<lambda>a b. the (ck_compare a b)"
proof
  fix x y z
  assume v: "ck_valid x" "ck_valid y"
  show "sgn (the (ck_compare y x)) = - sgn (the (ck_compare x y))"
    using v bytes_order.cmp_swap [of "ck_bytes x" "ck_bytes y"] by (simp add: ck_compare_spec)
  assume "ck_valid z" "the (ck_compare x y) \<le> 0" "the (ck_compare y z) \<le> 0"
  with v show "the (ck_compare x z) \<le> 0"
    using bytes_cmp_trans [of "ck_bytes x" "ck_bytes y" "ck_bytes z"]
    by (simp add: ck_compare_spec)
qed

lemma ck_size_eq_iff:
  "ck_valid a \<Longrightarrow> ck_valid b \<Longrightarrow> ck_bytes a = ck_bytes b \<Longrightarrow> ck_size a = ck_size b"
  by (metis length_ck_bytes word_unat_eq_iff)

text \<open>Keys that compare equal have the same hash: what the hash table relies on.\<close>

lemma ck_hash_cong:
  assumes "ck_valid a" "ck_valid b" "ck_bytes a = ck_bytes b"
  shows "ck_hash a seed = ck_hash b seed"
  using assms ck_size_eq_iff [OF assms] by (simp add: ck_hash_def ck_valid_def ck_bytes_def)

subsection \<open>Properties\<close>

text \<open>
  C22. On slices whose sizes differ by less than 2 GiB, Slice::compare returns without a
  fault, its sign is the lexicographic order of the denoted bytes (a proper prefix first),
  and the comparison operators built on it decide equality and that order.
\<close>

theorem slice_compare_order:
  assumes "slice_valid a" "slice_valid b"
    and "\<bar>uint (sl_size a) - uint (sl_size b)\<bar> < 2 ^ 31"
  shows "map_option sgn (slice_compare a b) = Some (bytes_cmp (slice_bytes a) (slice_bytes b)) \<and>
    slice_eq a b = Some (slice_bytes a = slice_bytes b) \<and>
    slice_lt a b = Some (bytes_cmp (slice_bytes a) (slice_bytes b) < 0) \<and>
    slice_ge a b = Some (bytes_cmp (slice_bytes a) (slice_bytes b) \<ge> 0)"
proof -
  obtain c where c: "slice_compare a b = Some c"
      "sgn c = bytes_cmp (slice_bytes a) (slice_bytes b)"
    using slice_compare_spec [OF assms] .
  have "c = 0 \<longleftrightarrow> slice_bytes a = slice_bytes b"
    using c(2) bytes_cmp_eq_0 [of "slice_bytes a" "slice_bytes b"] by (metis sgn_0_0)
  moreover have "c < 0 \<longleftrightarrow> bytes_cmp (slice_bytes a) (slice_bytes b) < 0"
      "c \<ge> 0 \<longleftrightarrow> bytes_cmp (slice_bytes a) (slice_bytes b) \<ge> 0"
    unfolding c(2) [symmetric] by (simp_all add: sgn_if)
  ultimately show ?thesis
    using c by (simp add: slice_eq_def slice_lt_def slice_ge_def)
qed

theorem slice_compare_order_witness:
  "slice_lt (slice_of_string [104, 105]) (slice_of_string [104, 105, 33]) = Some True"
proof -
  have "slice_valid (slice_of_string [104, 105])" "slice_valid (slice_of_string [104, 105, 33])"
    "\<bar>uint (sl_size (slice_of_string [104, 105])) -
      uint (sl_size (slice_of_string [104, 105, 33]))\<bar> < 2 ^ 31"
    by (simp_all add: slice_valid_def slice_of_string_def)
  from slice_compare_order [OF this] show ?thesis
    by (simp add: slice_bytes_def slice_of_string_def)
qed

text \<open>
  The narrowing in Slice::compare loses the order of slices that are far apart in
  size: two slices whose sizes differ by exactly 4 GiB, one a prefix of the other, compare
  equal although they denote different bytes.
\<close>

theorem slice_compare_narrowing:
  "slice_valid \<lparr>sl_data = replicate (2 ^ 32) 0, sl_size = 2 ^ 32\<rparr> \<and>
   slice_bytes \<lparr>sl_data = replicate (2 ^ 32) 0, sl_size = 2 ^ 32\<rparr> \<noteq> slice_bytes slice_empty \<and>
   slice_eq \<lparr>sl_data = replicate (2 ^ 32) 0, sl_size = 2 ^ 32\<rparr> slice_empty = Some True"
proof -
  have u: "unat (2 ^ 32 :: u64) = 2 ^ 32"
    by simp
  have "sint (ucast (2 ^ 32 :: u64) :: u32) = 0"
    by code_simp
  moreover have "replicate (2 ^ 32) (0 :: byte) \<noteq> []"
    by (metis length_replicate list.size(3) power_not_zero zero_neq_numeral)
  ultimately show ?thesis
    unfolding slice_valid_def slice_bytes_def slice_eq_def slice_compare_def slice_empty_def
      Let_def slice.simps u
    by (simp add: memcmp_def)
qed

text \<open>
  slice\_max\_value is an upper bound and slice\_min\_value a lower bound, under the
  operators of Slice, of every slice of at most 65535 bytes.
\<close>

theorem slice_extremes:
  assumes "slice_valid s" "unat (sl_size s) \<le> SLICE_MAX_LENGTH"
  shows "slice_le s slice_max_value = Some True \<and> slice_le slice_min_value s = Some True"
proof -
  have small: "slice_small s" "slice_small slice_min_value" "slice_small slice_max_value"
    using assms
    by (auto simp: slice_small_def slice_valid_def slice_min_value_def slice_max_value_def
        SLICE_MAX_LENGTH_def uint_nat simp del: of_nat_unat)
  have "slice_bytes slice_max_value = replicate SLICE_MAX_LENGTH 255"
    by (simp add: slice_bytes_def slice_max_value_def SLICE_MAX_LENGTH_def)
  then have "slice_cmp s slice_max_value \<le> 0"
    using small assms bytes_cmp_replicate_max [of "slice_bytes s" SLICE_MAX_LENGTH]
    by (simp add: slice_cmp_le_0 length_slice_bytes)
  moreover have "bytes_cmp [] bs \<le> 0" for bs by (cases bs) auto
  then have "slice_cmp slice_min_value s \<le> 0"
    using small by (simp add: slice_cmp_le_0 slice_bytes_def slice_min_value_def)
  ultimately show ?thesis
    using small slice_cmp_sgn(2) by (simp add: slice_le_def)
qed

theorem slice_extremes_witness:
  "slice_le (slice_of_string [7, 9]) slice_max_value = Some True"
proof -
  have "slice_valid (slice_of_string [7, 9])"
    "unat (sl_size (slice_of_string [7, 9])) \<le> SLICE_MAX_LENGTH"
    by (simp_all add: slice_valid_def slice_of_string_def SLICE_MAX_LENGTH_def)
  from slice_extremes [OF this] show ?thesis by simp
qed

end
