(* ===== verification/LruHandle.thy ===== *)
theory LruHandle
  imports Slice
begin

text \<open>
  The heap cells of the LRU cache (struct LRUHandle of src/modules/lru_cache/lru_cache.hh)
  and the circular doubly linked list they form.  Pointers are natural numbers, 0 is
  nullptr; the heap is a partial map from addresses to cells, so that reading or writing
  through a null or dangling pointer is the value None.  The dummy head of the LRU list,
  a member of LRUCache in the source, is a cell of this heap as well.
\<close>

type_synonym addr = nat

datatype CachePriority = NORMAL | DURABLE

record 'v lru_handle =
  h_value :: 'v
  h_deleter :: nat
  h_next_hash :: addr
  h_next :: addr
  h_prev :: addr
  h_charge :: u64
  h_key_length :: u64
  h_in_cache :: bool
  h_refs :: u32
  h_hash :: u32
  h_priority :: CachePriority
  h_key_data :: bytes

type_synonym 'v lru_heap = "addr \<rightharpoonup> 'v lru_handle"

text \<open>
  The world an operation acts on: the heap, and the log of the deleter calls made so far
  (the deleter's identity with the key and value it was passed).
\<close>

record 'v world =
  heap :: "'v lru_heap"
  freed :: "(nat \<times> cache_key \<times> 'v) list"

text \<open>
  LRUHandle::key().  A cell that is its own successor would be a temporary handle that
  stores a pointer to a key in value; no cell of the program is one, and reading the key
  of such a cell is a fault of the model.
\<close>

definition handle_key :: "addr \<Rightarrow> 'v lru_handle \<Rightarrow> cache_key option" where
  "handle_key this e =
     (if h_next e = this then None
      else Some \<lparr>ck_data = h_key_data e, ck_size = h_key_length e\<rparr>)"

text \<open>LRUHandle::free(): call the deleter, then give the cell back.\<close>

definition handle_free :: "'v world \<Rightarrow> addr \<Rightarrow> 'v world option" where
  "handle_free w a =
     do { e \<leftarrow> heap w a;
          k \<leftarrow> handle_key a e;
          Some (w\<lparr>heap := (heap w)(a := None),
                  freed := freed w @ [(h_deleter e, k, h_value e)]\<rparr>) }"

fun free_all :: "'v world \<Rightarrow> addr list \<Rightarrow> 'v world option" where
  "free_all w [] = Some w"
| "free_all w (a # as) = do { w \<leftarrow> handle_free w a; free_all w as }"

definition upd_cell :: "'v lru_heap \<Rightarrow> addr \<Rightarrow> ('v lru_handle \<Rightarrow> 'v lru_handle) \<Rightarrow> 'v lru_heap option" where
  "upd_cell h a f = do { e \<leftarrow> h a; Some (h(a \<mapsto> f e)) }"

definition lru_remove :: "'v lru_heap \<Rightarrow> addr \<Rightarrow> 'v lru_heap option" where
  "lru_remove h a =
     do { e \<leftarrow> h a;
          h \<leftarrow> upd_cell h (h_next e) (\<lambda>c. c\<lparr>h_prev := h_prev e\<rparr>);
          e \<leftarrow> h a;
          h \<leftarrow> upd_cell h (h_prev e) (\<lambda>c. c\<lparr>h_next := h_next e\<rparr>);
          upd_cell h a (\<lambda>c. c\<lparr>h_next := 0, h_prev := 0\<rparr>) }"

definition lru_append :: "'v lru_heap \<Rightarrow> addr \<Rightarrow> addr \<Rightarrow> 'v lru_heap option" where
  "lru_append h list a =
     do { h \<leftarrow> upd_cell h a (\<lambda>c. c\<lparr>h_next := list\<rparr>);
          l \<leftarrow> h list;
          h \<leftarrow> upd_cell h a (\<lambda>c. c\<lparr>h_prev := h_prev l\<rparr>);
          e \<leftarrow> h a;
          h \<leftarrow> upd_cell h (h_prev e) (\<lambda>c. c\<lparr>h_next := a\<rparr>);
          e \<leftarrow> h a;
          upd_cell h (h_next e) (\<lambda>c. c\<lparr>h_prev := a\<rparr>) }"

definition unref :: "'v lru_heap \<Rightarrow> addr \<Rightarrow> (bool \<times> 'v lru_heap) option" where
  "unref h a =
     do { e \<leftarrow> h a;
          guard (h_refs e > 0);
          h \<leftarrow> upd_cell h a (\<lambda>c. c\<lparr>h_refs := h_refs c - 1\<rparr>);
          e \<leftarrow> h a;
          Some (h_refs e = 0, h) }"

text \<open>Views of the heap, one per field the invariants speak about.\<close>

definition nx :: "'v lru_heap \<Rightarrow> addr \<Rightarrow> addr" where "nx h a = h_next (the (h a))"
definition pv :: "'v lru_heap \<Rightarrow> addr \<Rightarrow> addr" where "pv h a = h_prev (the (h a))"
definition nh :: "'v lru_heap \<Rightarrow> addr \<Rightarrow> addr" where "nh h a = h_next_hash (the (h a))"
definition rf :: "'v lru_heap \<Rightarrow> addr \<Rightarrow> u32" where "rf h a = h_refs (the (h a))"
definition ic :: "'v lru_heap \<Rightarrow> addr \<Rightarrow> bool" where "ic h a = h_in_cache (the (h a))"
definition ch :: "'v lru_heap \<Rightarrow> addr \<Rightarrow> u64" where "ch h a = h_charge (the (h a))"
definition pr :: "'v lru_heap \<Rightarrow> addr \<Rightarrow> CachePriority" where "pr h a = h_priority (the (h a))"
definition hs :: "'v lru_heap \<Rightarrow> addr \<Rightarrow> u32" where "hs h a = h_hash (the (h a))"
definition ky :: "'v lru_heap \<Rightarrow> addr \<Rightarrow> cache_key" where
  "ky h a = \<lparr>ck_data = h_key_data (the (h a)), ck_size = h_key_length (the (h a))\<rparr>"
definition vl :: "'v lru_heap \<Rightarrow> addr \<Rightarrow> 'v" where "vl h a = h_value (the (h a))"

text \<open>What identifies an entry in the table: its hash and the bytes of its key.\<close>

definition kv :: "'v lru_heap \<Rightarrow> addr \<Rightarrow> u32 \<times> bytes" where
  "kv h a = (hs h a, ck_bytes (ky h a))"

text \<open>A segment of a doubly linked list from p through xs to q.\<close>

fun dseg :: "(addr \<Rightarrow> addr) \<Rightarrow> (addr \<Rightarrow> addr) \<Rightarrow> addr \<Rightarrow> addr list \<Rightarrow> addr \<Rightarrow> bool" where
  "dseg n v p [] q \<longleftrightarrow> n p = q \<and> v q = p"
| "dseg n v p (x # xs) q \<longleftrightarrow> n p = x \<and> v x = p \<and> dseg n v x xs q"

text \<open>The circular list with dummy head d holds the cells xs, oldest first.\<close>

definition dll :: "'v lru_heap \<Rightarrow> addr \<Rightarrow> addr list \<Rightarrow> bool" where
  "dll h d xs \<longleftrightarrow>
     distinct (d # xs) \<and> set (d # xs) \<subseteq> dom h \<and> dseg (nx h) (pv h) d xs d"

text \<open>
  Two heaps that agree up to the fields f forgets, and differ at cells of A only.
  links\_only and hash\_only forget the list links and the hash chain link.
\<close>

definition agree :: "('v lru_handle \<Rightarrow> 'v lru_handle) \<Rightarrow> addr set \<Rightarrow> 'v lru_heap \<Rightarrow> 'v lru_heap \<Rightarrow> bool" where
  "agree f A h h' \<longleftrightarrow> (\<forall>a. map_option f (h' a) = map_option f (h a)) \<and> (\<forall>a. a \<notin> A \<longrightarrow> h' a = h a)"

definition strip_links :: "'v lru_handle \<Rightarrow> 'v lru_handle" where
  "strip_links e = e\<lparr>h_next := 0, h_prev := 0\<rparr>"

definition strip_hash :: "'v lru_handle \<Rightarrow> 'v lru_handle" where
  "strip_hash e = e\<lparr>h_next_hash := 0\<rparr>"

abbreviation links_only :: "addr set \<Rightarrow> 'v lru_heap \<Rightarrow> 'v lru_heap \<Rightarrow> bool" where
  "links_only \<equiv> agree strip_links"

abbreviation hash_only :: "addr set \<Rightarrow> 'v lru_heap \<Rightarrow> 'v lru_heap \<Rightarrow> bool" where
  "hash_only \<equiv> agree strip_hash"

lemma view_upd [simp]:
  "nx (h(a \<mapsto> e)) = (nx h)(a := h_next e)"
  "pv (h(a \<mapsto> e)) = (pv h)(a := h_prev e)"
  "nh (h(a \<mapsto> e)) = (nh h)(a := h_next_hash e)"
  "rf (h(a \<mapsto> e)) = (rf h)(a := h_refs e)"
  "ic (h(a \<mapsto> e)) = (ic h)(a := h_in_cache e)"
  "ch (h(a \<mapsto> e)) = (ch h)(a := h_charge e)"
  "pr (h(a \<mapsto> e)) = (pr h)(a := h_priority e)"
  "hs (h(a \<mapsto> e)) = (hs h)(a := h_hash e)"
  "vl (h(a \<mapsto> e)) = (vl h)(a := h_value e)"
  "ky (h(a \<mapsto> e)) = (ky h)(a := \<lparr>ck_data = h_key_data e, ck_size = h_key_length e\<rparr>)"
  by (auto simp: fun_eq_iff nx_def pv_def nh_def rf_def ic_def ch_def pr_def hs_def vl_def ky_def)

lemma view_cell:
  "h a = Some e \<Longrightarrow> h_next e = nx h a" "h a = Some e \<Longrightarrow> h_prev e = pv h a"
  "h a = Some e \<Longrightarrow> h_next_hash e = nh h a" "h a = Some e \<Longrightarrow> h_refs e = rf h a"
  "h a = Some e \<Longrightarrow> h_in_cache e = ic h a" "h a = Some e \<Longrightarrow> h_charge e = ch h a"
  "h a = Some e \<Longrightarrow> h_priority e = pr h a" "h a = Some e \<Longrightarrow> h_hash e = hs h a"
  "h a = Some e \<Longrightarrow> h_value e = vl h a"
  "h a = Some e \<Longrightarrow> \<lparr>ck_data = h_key_data e, ck_size = h_key_length e\<rparr> = ky h a"
  by (auto simp: nx_def pv_def nh_def rf_def ic_def ch_def pr_def hs_def vl_def ky_def)

lemma handle_key_view: "h a = Some e \<Longrightarrow> handle_key a e = (if nx h a = a then None else Some (ky h a))"
  by (simp add: handle_key_def nx_def ky_def)

subsection \<open>Segments\<close>

lemma dseg_append: "dseg n v p (xs @ y # ys) q \<longleftrightarrow> dseg n v p xs y \<and> dseg n v y ys q"
  by (induction xs arbitrary: p) auto

lemma dseg_next: "dseg n v p xs q \<Longrightarrow> n p = hd (xs @ [q])"
  by (cases xs) auto

lemma dseg_prev: "dseg n v p xs q \<Longrightarrow> v q = last (p # xs)"
  by (induction xs arbitrary: p) auto

lemma dseg_next_frame: "a \<notin> set (p # xs) \<Longrightarrow> dseg (n(a := z)) v p xs q = dseg n v p xs q"
  by (induction xs arbitrary: p) auto

lemma dseg_prev_frame: "a \<notin> set (xs @ [q]) \<Longrightarrow> dseg n (v(a := z)) p xs q = dseg n v p xs q"
  by (induction xs arbitrary: p) auto

lemma dseg_retarget:
  "dseg n v p xs a \<Longrightarrow> distinct (p # xs) \<Longrightarrow> s \<notin> set xs \<Longrightarrow>
   dseg (n(last (p # xs) := s)) (v(s := last (p # xs))) p xs s"
  by (induction xs arbitrary: p) (auto simp: dseg_next_frame split: if_splits)

lemma dseg_rehead:
  "dseg n v a ys q \<Longrightarrow> distinct (ys @ [q]) \<Longrightarrow> p \<notin> set ys \<Longrightarrow>
   dseg (n(p := hd (ys @ [q]))) (v(hd (ys @ [q]) := p)) p ys q"
  by (cases ys) (auto simp: dseg_next_frame dseg_prev_frame)

lemma dseg_join:
  "dseg n v p xs (hd (ys @ [q])) \<Longrightarrow> dseg n v (last (p # xs)) ys q \<Longrightarrow> dseg n v p (xs @ ys) q"
  by (induction xs arbitrary: p) (auto split: if_splits)

lemma dseg_links:
  assumes "dseg n v p xs q" "x \<in> set xs"
  shows "n x \<in> set (xs @ [q])" "v x \<in> set (p # xs)"
proof -
  obtain us ws where xs: "xs = us @ x # ws" using assms(2) by (auto simp: in_set_conv_decomp)
  then have "dseg n v p us x" "dseg n v x ws q" using assms(1) by (simp_all add: dseg_append)
  then have "v x = last (p # us)" "n x = hd (ws @ [q])" by (auto dest: dseg_prev dseg_next)
  then show "n x \<in> set (xs @ [q])" "v x \<in> set (p # xs)"
    using xs by (cases ws; auto)+
qed

subsection \<open>The list operations\<close>

lemma upd_cell_Some [simp]: "h a = Some e \<Longrightarrow> upd_cell h a f = Some (h(a \<mapsto> f e))"
  by (simp add: upd_cell_def)

lemma agree_refl [simp]: "agree f A h h"
  by (simp add: agree_def)

lemma agree_trans: "agree f A h h' \<Longrightarrow> agree f B h' h'' \<Longrightarrow> agree f (A \<union> B) h h''"
  by (simp add: agree_def)

lemma agree_mono: "agree f A h h' \<Longrightarrow> A \<subseteq> B \<Longrightarrow> agree f B h h'"
  by (auto simp: agree_def)

lemma agree_upd: "h a = Some e \<Longrightarrow> a \<in> A \<Longrightarrow> f e' = f e \<Longrightarrow> agree f A h (h(a \<mapsto> e'))"
  by (auto simp: agree_def)

lemma agree_outside: "agree f A h h' \<Longrightarrow> a \<notin> A \<Longrightarrow> h' a = h a"
  by (simp add: agree_def)

lemma agree_cell:
  assumes "agree f A h h'"
  shows "h a = None \<and> h' a = None \<or> (\<exists>e e'. h a = Some e \<and> h' a = Some e' \<and> f e' = f e)"
proof -
  have "map_option f (h' a) = map_option f (h a)" using assms by (simp add: agree_def)
  then show ?thesis by (cases "h a"; cases "h' a") simp_all
qed

lemma agree_dom:
  assumes "agree f A h h'"
  shows "dom h' = dom h"
proof -
  have "x \<in> dom h' \<longleftrightarrow> x \<in> dom h" for x
    using agree_cell [OF assms, of x] by auto
  then show ?thesis by blast
qed

lemma strip_links_eq:
  assumes "strip_links e' = strip_links e"
  shows "h_next_hash e' = h_next_hash e" "h_refs e' = h_refs e" "h_in_cache e' = h_in_cache e"
    "h_charge e' = h_charge e" "h_priority e' = h_priority e" "h_hash e' = h_hash e"
    "h_value e' = h_value e" "h_key_data e' = h_key_data e" "h_key_length e' = h_key_length e"
    "h_deleter e' = h_deleter e"
  using assms by (cases e; cases e'; simp add: strip_links_def)+

lemma strip_hash_eq:
  assumes "strip_hash e' = strip_hash e"
  shows "h_next e' = h_next e" "h_prev e' = h_prev e"
    "h_refs e' = h_refs e" "h_in_cache e' = h_in_cache e"
    "h_charge e' = h_charge e" "h_priority e' = h_priority e" "h_hash e' = h_hash e"
    "h_value e' = h_value e" "h_key_data e' = h_key_data e" "h_key_length e' = h_key_length e"
    "h_deleter e' = h_deleter e"
  using assms by (cases e; cases e'; simp add: strip_hash_def)+

lemma links_only_fields:
  assumes "links_only A h h'"
  shows "nh h' a = nh h a \<and> rf h' a = rf h a \<and> ic h' a = ic h a \<and> ch h' a = ch h a \<and>
    pr h' a = pr h a \<and> hs h' a = hs h a \<and> vl h' a = vl h a \<and> ky h' a = ky h a"
  using agree_cell [OF assms, of a]
  by (auto simp: nh_def rf_def ic_def ch_def pr_def hs_def vl_def ky_def dest: strip_links_eq)

lemma hash_only_fields:
  assumes "hash_only A h h'"
  shows "nx h' a = nx h a \<and> pv h' a = pv h a \<and> rf h' a = rf h a \<and> ic h' a = ic h a \<and>
    ch h' a = ch h a \<and> pr h' a = pr h a \<and> hs h' a = hs h a \<and> vl h' a = vl h a \<and> ky h' a = ky h a"
  using agree_cell [OF assms, of a]
  by (auto simp: nx_def pv_def rf_def ic_def ch_def pr_def hs_def vl_def ky_def dest: strip_hash_eq)

lemma hash_only_views:
  assumes "hash_only A h h'"
  shows "nx h' = nx h" "pv h' = pv h" "rf h' = rf h" "ic h' = ic h" "ch h' = ch h" "pr h' = pr h"
    "hs h' = hs h" "vl h' = vl h" "ky h' = ky h" "kv h' = kv h"
  using hash_only_fields [OF assms] by (simp_all add: fun_eq_iff kv_def)

lemma links_only_views:
  assumes "links_only A h h'"
  shows "nh h' = nh h" "rf h' = rf h" "ic h' = ic h" "ch h' = ch h" "pr h' = pr h"
    "hs h' = hs h" "vl h' = vl h" "ky h' = ky h" "kv h' = kv h"
  using links_only_fields [OF assms] by (simp_all add: fun_eq_iff kv_def)

lemma lru_remove_spec:
  assumes "dll h d (xs @ a # ys)"
  obtains h' where "lru_remove h a = Some h'" "dll h' d (xs @ ys)"
    "links_only (set (d # xs @ a # ys)) h h'" "nx h' a = 0" "pv h' a = 0"
proof -
  define p where "p = last (d # xs)"
  define s where "s = hd (ys @ [d])"
  let ?n = "nx h" and ?v = "pv h" and ?A = "set (d # xs @ a # ys)"
  have dis: "distinct (d # xs @ a # ys)" and dm: "?A \<subseteq> dom h"
    and sx: "dseg ?n ?v d xs a" and sy: "dseg ?n ?v a ys d"
    using assms by (auto simp: dll_def dseg_append)
  have na: "?n a = s" and pa: "?v a = p"
    using dseg_next [OF sy] dseg_prev [OF sx] by (auto simp: p_def s_def)
  have pA: "p \<in> ?A" "p \<noteq> a" "p \<notin> set ys"
    using dis last_in_set [of "d # xs"] by (auto simp: p_def simp del: last.simps)
  have sA: "s \<in> ?A" "s \<noteq> a" "s \<notin> set xs"
    using dis by (cases ys; auto simp: s_def)+
  have "a \<in> dom h" "s \<in> dom h" "p \<in> dom h"
    using subsetD [OF dm pA(1)] subsetD [OF dm sA(1)] dm by auto
  then obtain ea es ep where ea: "h a = Some ea" and es: "h s = Some es" and ep: "h p = Some ep"
    by blast
  define ep1 where "ep1 = (if p = s then es\<lparr>h_prev := p\<rparr> else ep)"
  define h1 where "h1 = h(s \<mapsto> es\<lparr>h_prev := p\<rparr>)"
  have ep1: "h1 p = Some ep1" using ep by (simp add: h1_def ep1_def)
  define h2 where "h2 = h1(p \<mapsto> ep1\<lparr>h_next := s\<rparr>)"
  have ea2: "h2 a = Some ea" using ea pA(2) sA(2) by (simp add: h2_def h1_def)
  define h3 where "h3 = h2(a \<mapsto> ea\<lparr>h_next := 0, h_prev := 0\<rparr>)"
  have run: "lru_remove h a = Some h3"
  proof -
    have "h1 a = Some ea" using ea sA(2) by (simp add: h1_def)
    then show ?thesis
      using ea es ep1 ea2 view_cell(1,2) [of h, OF ea] na pa
      by (simp add: lru_remove_def h3_def flip: h1_def h2_def)
  qed
  have links: "links_only ?A h h3"
  proof -
    have l1: "links_only ?A h h1" unfolding h1_def using es sA(1) by (intro agree_upd) (auto simp: strip_links_def)
    have l2: "links_only ?A h1 h2" unfolding h2_def using ep1 pA(1) by (intro agree_upd) (auto simp: strip_links_def)
    have l3: "links_only ?A h2 h3" unfolding h3_def using ea2 by (intro agree_upd) (auto simp: strip_links_def)
    show ?thesis using agree_trans [OF agree_trans [OF l1 l2] l3] by simp
  qed
  have n3: "nx h3 = (?n(p := s))(a := 0)"
    using es by (auto simp: h3_def h2_def h1_def fun_eq_iff nx_def)
  have v3: "pv h3 = (?v(s := p))(a := 0)"
    using es ep by (auto simp: h3_def h2_def h1_def ep1_def fun_eq_iff pv_def)
  have "dseg (?n(p := s)) (?v(s := p)) d xs s"
    using dseg_retarget [OF sx, of s] dis sA(3) by (simp add: p_def)
  moreover have "dseg (?n(p := s)) (?v(s := p)) p ys d"
    using dseg_rehead [OF sy, of p] dis pA(3) by (simp add: s_def)
  ultimately have "dseg (?n(p := s)) (?v(s := p)) d (xs @ ys) d"
    unfolding p_def s_def by (rule dseg_join)
  then have "dseg (nx h3) (pv h3) d (xs @ ys) d"
    unfolding n3 v3 using dis by (simp add: dseg_next_frame dseg_prev_frame)
  then have "dll h3 d (xs @ ys)"
    using dis dm agree_dom [OF links] by (auto simp: dll_def)
  moreover have "nx h3 a = 0" "pv h3 a = 0" by (simp_all add: n3 v3)
  ultimately show ?thesis using that run links by blast
qed

lemma lru_append_spec:
  assumes "dll h d xs" "a \<in> dom h" "a \<notin> set (d # xs)"
  obtains h' where "lru_append h d a = Some h'" "dll h' d (xs @ [a])"
    "links_only (set (d # a # xs)) h h'"
proof -
  define p where "p = last (d # xs)"
  let ?n = "nx h" and ?v = "pv h" and ?A = "set (d # a # xs)"
  have dis: "distinct (d # xs)" and dm: "set (d # xs) \<subseteq> dom h" and ad: "a \<noteq> d"
    and sx: "dseg ?n ?v d xs d" using assms by (auto simp: dll_def)
  have pd: "?v d = p" using dseg_prev [OF sx] by (simp add: p_def)
  have pA: "p \<in> set (d # xs)" "p \<noteq> a"
    using assms(3) last_in_set [of "d # xs"] by (auto simp: p_def simp del: last.simps)
  have "d \<in> dom h" "p \<in> dom h"
    using subsetD [OF dm pA(1)] dm by auto
  then obtain ea ed ep where ea: "h a = Some ea" and ed: "h d = Some ed" and ep: "h p = Some ep"
    using assms(2) by blast
  define h1 where "h1 = h(a \<mapsto> ea\<lparr>h_next := d, h_prev := p\<rparr>)"
  have ep1: "h1 p = Some ep" using ep pA(2) by (simp add: h1_def)
  define h2 where "h2 = h1(p \<mapsto> ep\<lparr>h_next := a\<rparr>)"
  define ed2 where "ed2 = (if p = d then ep\<lparr>h_next := a\<rparr> else ed)"
  have ed2: "h2 d = Some ed2" using ed ad by (auto simp: h2_def h1_def ed2_def)
  define h3 where "h3 = h2(d \<mapsto> ed2\<lparr>h_prev := a\<rparr>)"
  have run: "lru_append h d a = Some h3"
  proof -
    have "h1 a = Some (ea\<lparr>h_next := d, h_prev := p\<rparr>)" "h2 a = Some (ea\<lparr>h_next := d, h_prev := p\<rparr>)"
      using pA(2) by (simp_all add: h1_def h2_def)
    then show ?thesis
      using ea ed ep1 ed2 ad view_cell(2) [of h, OF ed] pd
      by (simp add: lru_append_def h3_def flip: h1_def h2_def)
  qed
  have links: "links_only ?A h h3"
  proof -
    have l1: "links_only ?A h h1" unfolding h1_def using ea by (intro agree_upd) (auto simp: strip_links_def)
    have l2: "links_only ?A h1 h2" unfolding h2_def using ep1 pA(1) by (intro agree_upd) (auto simp: strip_links_def)
    have l3: "links_only ?A h2 h3" unfolding h3_def using ed2 by (intro agree_upd) (auto simp: strip_links_def)
    show ?thesis using agree_trans [OF agree_trans [OF l1 l2] l3] by simp
  qed
  have n3: "nx h3 = (?n(p := a))(a := d)"
    using ep ed pA(2) ad by (auto simp: h3_def h2_def h1_def ed2_def fun_eq_iff nx_def)
  have v3: "pv h3 = (?v(a := p))(d := a)"
    using ep ed pA(2) ad by (auto simp: h3_def h2_def h1_def ed2_def fun_eq_iff pv_def)
  have "dseg (?n(p := a)) (?v(a := p)) d xs a"
    using dseg_retarget [OF sx, of a] dis assms(3) by (simp add: p_def)
  then have "dseg (nx h3) (pv h3) d xs a"
    unfolding n3 v3 using assms(3) dis by (simp add: dseg_next_frame dseg_prev_frame)
  moreover have "dseg (nx h3) (pv h3) a [] d" by (simp add: n3 v3)
  ultimately have "dseg (nx h3) (pv h3) d (xs @ [a]) d" by (simp add: dseg_append)
  then have "dll h3 d (xs @ [a])"
    using dis dm assms agree_dom [OF links] by (auto simp: dll_def)
  with run links show ?thesis using that by blast
qed

lemma unref_spec:
  assumes "h a = Some e" "h_refs e > 0"
  shows "unref h a = Some (h_refs e = 1, h(a \<mapsto> e\<lparr>h_refs := h_refs e - 1\<rparr>))"
  using assms by (simp add: unref_def)

lemma dseg_cong:
  "dseg n v p ys q \<Longrightarrow> (\<And>a. a \<in> set (p # ys) \<Longrightarrow> n' a = n a) \<Longrightarrow>
    (\<And>a. a \<in> set (ys @ [q]) \<Longrightarrow> v' a = v a) \<Longrightarrow> dseg n' v' p ys q"
  by (induction ys arbitrary: p) auto

end
