(* ===== verification/HandleTable.thy ===== *)
theory HandleTable
  imports LruHandle
begin

text \<open>
  The hash table of the LRU cache (class HandleTable of src/modules/lru_cache/lru_cache.hh
  and lru_cache.cc): an array of bucket heads and chains linked through next\_hash.  The
  pointer to a pointer that \_find\_pointer returns is the datatype slot: a bucket of the
  array, or the next\_hash field of a cell.  The loops follow heap pointers and are
  partial functions, so a cyclic chain would be the value None.  LOG(FATAL) ends the
  process and is None as well; the array allocation of \_resize is taken to succeed.
\<close>

record handle_table =
  t_length :: u32
  t_elems :: u32
  t_list :: "addr list"

datatype slot = Bucket nat | NextHash addr

definition deref_slot :: "'v lru_heap \<Rightarrow> handle_table \<Rightarrow> slot \<Rightarrow> addr option" where
  "deref_slot h t s =
     (case s of
        Bucket i \<Rightarrow> if i < length (t_list t) then Some (t_list t ! i) else None
      | NextHash a \<Rightarrow> map_option h_next_hash (h a))"

definition assign_slot ::
  "'v lru_heap \<Rightarrow> handle_table \<Rightarrow> slot \<Rightarrow> addr \<Rightarrow> ('v lru_heap \<times> handle_table) option" where
  "assign_slot h t s p =
     (case s of
        Bucket i \<Rightarrow>
          if i < length (t_list t) then Some (h, t\<lparr>t_list := (t_list t)[i := p]\<rparr>) else None
      | NextHash a \<Rightarrow>
          map_option (\<lambda>h. (h, t)) (upd_cell h a (\<lambda>c. c\<lparr>h_next_hash := p\<rparr>)))"

definition bucket_of :: "u32 \<Rightarrow> u32 \<Rightarrow> nat" where
  "bucket_of len hash = unat (hash AND (len - 1))"

partial_function (option) find_loop ::
  "'v lru_heap \<Rightarrow> handle_table \<Rightarrow> cache_key \<Rightarrow> u32 \<Rightarrow> slot \<Rightarrow> slot option" where
  "find_loop h t key hash ptr =
     do { p \<leftarrow> deref_slot h t ptr;
          if p = 0 then Some ptr
          else do { e \<leftarrow> h p;
                    if h_hash e \<noteq> hash then find_loop h t key hash (NextHash p)
                    else do { k \<leftarrow> handle_key p e;
                              eq \<leftarrow> ck_eq key k;
                              if \<not> eq then find_loop h t key hash (NextHash p)
                              else Some ptr } } }"

definition find_pointer ::
  "'v lru_heap \<Rightarrow> handle_table \<Rightarrow> cache_key \<Rightarrow> u32 \<Rightarrow> slot option" where
  "find_pointer h t key hash = find_loop h t key hash (Bucket (bucket_of (t_length t) hash))"

definition table_lookup :: "'v lru_heap \<Rightarrow> handle_table \<Rightarrow> cache_key \<Rightarrow> u32 \<Rightarrow> addr option" where
  "table_lookup h t key hash =
     do { ptr \<leftarrow> find_pointer h t key hash; deref_slot h t ptr }"

partial_function (option) new_length_loop :: "u32 \<Rightarrow> u32 \<Rightarrow> u32 option" where
  "new_length_loop elems new_length =
     (if new_length < elems then new_length_loop elems (new_length * 2) else Some new_length)"

partial_function (option) rehash_chain ::
  "u32 \<Rightarrow> 'v lru_heap \<Rightarrow> addr list \<Rightarrow> u32 \<Rightarrow> addr \<Rightarrow> ('v lru_heap \<times> addr list \<times> u32) option" where
  "rehash_chain new_length h new_list count p =
     (if p = 0 then Some (h, new_list, count)
      else do { e \<leftarrow> h p;
                let i = bucket_of new_length (h_hash e);
                guard (i < length new_list);
                rehash_chain new_length (h(p \<mapsto> e\<lparr>h_next_hash := new_list ! i\<rparr>))
                  (new_list[i := p]) (count + 1) (h_next_hash e) })"

fun rehash_buckets ::
  "u32 \<Rightarrow> 'v lru_heap \<Rightarrow> addr list \<Rightarrow> u32 \<Rightarrow> addr list \<Rightarrow> ('v lru_heap \<times> addr list \<times> u32) option" where
  "rehash_buckets new_length h new_list count [] = Some (h, new_list, count)"
| "rehash_buckets new_length h new_list count (p # ps) =
     do { (h, new_list, count) \<leftarrow> rehash_chain new_length h new_list count p;
          rehash_buckets new_length h new_list count ps }"

definition table_resize :: "'v lru_heap \<Rightarrow> handle_table \<Rightarrow> ('v lru_heap \<times> handle_table) option" where
  "table_resize h t =
     do { new_length \<leftarrow> new_length_loop (t_elems t) 4;
          guard (unat (t_length t) \<le> length (t_list t));
          (h, new_list, count) \<leftarrow>
            rehash_buckets new_length h (replicate (unat new_length) 0) 0
              (take (unat (t_length t)) (t_list t));
          guard (t_elems t = count);
          Some (h, t\<lparr>t_list := new_list, t_length := new_length\<rparr>) }"

definition table_new :: "'v lru_heap \<Rightarrow> ('v lru_heap \<times> handle_table) option" where
  "table_new h = table_resize h \<lparr>t_length = 0, t_elems = 0, t_list = []\<rparr>"

definition table_insert ::
  "'v lru_heap \<Rightarrow> handle_table \<Rightarrow> addr \<Rightarrow> (addr \<times> 'v lru_heap \<times> handle_table) option" where
  "table_insert h t a =
     do { e \<leftarrow> h a;
          k \<leftarrow> handle_key a e;
          ptr \<leftarrow> find_pointer h t k (h_hash e);
          old \<leftarrow> deref_slot h t ptr;
          nxt \<leftarrow> (if old = 0 then Some 0 else map_option h_next_hash (h old));
          h \<leftarrow> upd_cell h a (\<lambda>c. c\<lparr>h_next_hash := nxt\<rparr>);
          (h, t) \<leftarrow> assign_slot h t ptr a;
          if old = 0
          then let t = t\<lparr>t_elems := t_elems t + 1\<rparr>
               in if t_elems t > t_length t
                  then do { (h, t) \<leftarrow> table_resize h t; Some (old, h, t) }
                  else Some (old, h, t)
          else Some (old, h, t) }"

definition table_remove ::
  "'v lru_heap \<Rightarrow> handle_table \<Rightarrow> cache_key \<Rightarrow> u32 \<Rightarrow> (addr \<times> 'v lru_heap \<times> handle_table) option" where
  "table_remove h t key hash =
     do { ptr \<leftarrow> find_pointer h t key hash;
          result \<leftarrow> deref_slot h t ptr;
          if result \<noteq> 0
          then do { e \<leftarrow> h result;
                    (h, t) \<leftarrow> assign_slot h t ptr (h_next_hash e);
                    Some (result, h, t\<lparr>t_elems := t_elems t - 1\<rparr>) }
          else Some (result, h, t) }"

text \<open>A chain segment from pointer p through the cells xs to pointer r.\<close>

fun cseg :: "(addr \<Rightarrow> addr) \<Rightarrow> addr \<Rightarrow> addr list \<Rightarrow> addr \<Rightarrow> bool" where
  "cseg n p [] r \<longleftrightarrow> p = r"
| "cseg n p (x # xs) r \<longleftrightarrow> p = x \<and> x \<noteq> 0 \<and> cseg n (n x) xs r"

definition keyed :: "'v lru_heap \<Rightarrow> addr \<Rightarrow> bool" where
  "keyed h a \<longleftrightarrow> a \<in> dom h \<and> a \<noteq> 0 \<and> nx h a \<noteq> a \<and> ck_valid (ky h a)"

text \<open>
  The table holds the chains bs: the length is a power of two and at least the number of
  entries, every entry is in the bucket of its hash, and no two entries have the same hash
  and key.
\<close>

definition chains_ok :: "'v lru_heap \<Rightarrow> u32 \<Rightarrow> addr list \<Rightarrow> addr list list \<Rightarrow> bool" where
  "chains_ok h len list bs \<longleftrightarrow>
     length list = length bs \<and>
     (\<forall>i < length bs. cseg (nh h) (list ! i) (bs ! i) 0) \<and>
     (\<forall>i < length bs. \<forall>a \<in> set (bs ! i). bucket_of len (hs h a) = i) \<and>
     distinct (concat bs)"

definition table_core :: "'v lru_heap \<Rightarrow> handle_table \<Rightarrow> addr list list \<Rightarrow> bool" where
  "table_core h t bs \<longleftrightarrow>
     chains_ok h (t_length t) (t_list t) bs \<and>
     (\<exists>k. 2 \<le> k \<and> k < 32 \<and> t_length t = 2 ^ k \<and> length bs = 2 ^ k) \<and>
     (\<forall>a \<in> set (concat bs). keyed h a) \<and>
     inj_on (kv h) (set (concat bs)) \<and>
     unat (t_elems t) = length (concat bs)"

definition table_ok :: "'v lru_heap \<Rightarrow> handle_table \<Rightarrow> addr list list \<Rightarrow> bool" where
  "table_ok h t bs \<longleftrightarrow> table_core h t bs \<and> length (concat bs) \<le> length bs"

text \<open>The table represents the set E of entries.\<close>

definition table_rep :: "'v lru_heap \<Rightarrow> handle_table \<Rightarrow> addr set \<Rightarrow> bool" where
  "table_rep h t E \<longleftrightarrow> (\<exists>bs. table_ok h t bs \<and> E = set (concat bs))"

text \<open>What a search for the identity tgt yields: the one entry that has it, or nullptr.\<close>

definition is_entry :: "'v lru_heap \<Rightarrow> addr set \<Rightarrow> u32 \<times> bytes \<Rightarrow> addr \<Rightarrow> bool" where
  "is_entry h E tgt a \<longleftrightarrow>
     (if a = 0 then tgt \<notin> kv h ` E else a \<in> E \<and> kv h a = tgt)"

text \<open>The slot that follows the cells us in bucket i.\<close>

definition slot_of :: "nat \<Rightarrow> addr list \<Rightarrow> slot" where
  "slot_of i us = (if us = [] then Bucket i else NextHash (last us))"

text \<open>Where a search ends: in the bucket of the hash, before the entry or at the end.\<close>

definition search_at :: "'v lru_heap \<Rightarrow> handle_table \<Rightarrow> addr list list \<Rightarrow> cache_key \<Rightarrow> u32 \<Rightarrow>
    addr list list \<Rightarrow> addr list \<Rightarrow> addr list \<Rightarrow> addr list list \<Rightarrow> bool" where
  "search_at h t bs key hash L us vs R \<longleftrightarrow>
     bs = L @ (us @ vs) # R \<and>
     length L = bucket_of (t_length t) hash \<and>
     find_pointer h t key hash = Some (slot_of (length L) us) \<and>
     cseg (nh h) (t_list t ! length L) us (hd (vs @ [0])) \<and>
     cseg (nh h) (hd (vs @ [0])) vs 0 \<and>
     deref_slot h t (slot_of (length L) us) = Some (hd (vs @ [0])) \<and>
     is_entry h (set (concat bs)) (hash, ck_bytes key) (hd (vs @ [0]))"

text \<open>A cell and a table for the witnesses.\<close>

definition demo_cell :: "bytes \<Rightarrow> nat lru_handle" where
  "demo_cell k = \<lparr>h_value = 7, h_deleter = 0, h_next_hash = 0, h_next = 0, h_prev = 0,
     h_charge = 1, h_key_length = of_nat (length k), h_in_cache = True, h_refs = 1,
     h_hash = 5, h_priority = NORMAL, h_key_data = k\<rparr>"

definition empty_table :: handle_table where
  "empty_table = \<lparr>t_length = 4, t_elems = 0, t_list = [0, 0, 0, 0]\<rparr>"

definition one_table :: handle_table where
  "one_table = \<lparr>t_length = 4, t_elems = 1, t_list = [0, 1, 0, 0]\<rparr>"

subsection \<open>Chains\<close>

lemma cseg_append: "cseg n p (xs @ ys) r \<longleftrightarrow> (\<exists>q. cseg n p xs q \<and> cseg n q ys r)"
  by (induction xs arbitrary: p) auto

lemma cseg_end: "cseg n p xs r \<Longrightarrow> r = (if xs = [] then p else n (last xs))"
  by (induction xs arbitrary: p) auto

lemma cseg_start: "cseg n p xs r \<Longrightarrow> p = hd (xs @ [r])"
  by (cases xs) auto

lemma cseg_frame: "a \<notin> set xs \<Longrightarrow> cseg (n(a := z)) p xs r = cseg n p xs r"
  by (induction xs arbitrary: p) auto

lemma cseg_cong: "(\<And>a. a \<in> set xs \<Longrightarrow> n' a = n a) \<Longrightarrow> cseg n' p xs r = cseg n p xs r"
  by (induction xs arbitrary: p) auto

lemma cseg_not0: "cseg n p xs r \<Longrightarrow> 0 \<notin> set xs"
  by (induction xs arbitrary: p) auto

lemma cseg_retarget:
  "cseg n p xs r \<Longrightarrow> xs \<noteq> [] \<Longrightarrow> distinct xs \<Longrightarrow> cseg (n(last xs := z)) p xs z"
  by (induction xs arbitrary: p) (auto simp: cseg_frame)

lemma deref_slot_of:
  assumes "cseg (nh h) (t_list t ! i) us q" "i < length (t_list t)" "set us \<subseteq> dom h"
  shows "deref_slot h t (slot_of i us) = Some q"
proof (cases "us = []")
  case True
  with assms show ?thesis by (simp add: slot_of_def deref_slot_def)
next
  case False
  then obtain e where "h (last us) = Some e" using assms(3) last_in_set by blast
  with False show ?thesis
    using cseg_end [OF assms(1)] by (simp add: slot_of_def deref_slot_def nh_def)
qed

lemma assign_slot_of:
  assumes "cseg (nh h) (t_list t ! i) us q" "i < length (t_list t)" "set us \<subseteq> dom h" "distinct us"
  obtains h' t' where "assign_slot h t (slot_of i us) p = Some (h', t')"
    "hash_only (set us) h h'" "t_length t' = t_length t" "t_elems t' = t_elems t"
    "length (t_list t') = length (t_list t)"
    "cseg (nh h') (t_list t' ! i) us p"
    "\<And>j. j \<noteq> i \<Longrightarrow> t_list t' ! j = t_list t ! j"
    "\<And>a. a \<notin> set us \<Longrightarrow> nh h' a = nh h a"
proof (cases "us = []")
  case True
  with assms show ?thesis
    by (intro that [of h "t\<lparr>t_list := (t_list t)[i := p]\<rparr>"]) (auto simp: slot_of_def assign_slot_def)
next
  case False
  then obtain e where e: "h (last us) = Some e" using assms(3) last_in_set by blast
  let ?h = "h(last us \<mapsto> e\<lparr>h_next_hash := p\<rparr>)"
  have "assign_slot h t (slot_of i us) p = Some (?h, t)"
    using False e by (simp add: slot_of_def assign_slot_def)
  moreover have "hash_only (set us) h ?h"
    using e False by (intro agree_upd) (auto simp: strip_hash_def)
  moreover have "cseg (nh ?h) (t_list t ! i) us p"
    using cseg_retarget [OF assms(1) False assms(4)] by simp
  moreover have "nh ?h a = nh h a" if "a \<notin> set us" for a using that False by auto
  ultimately show ?thesis using that [of ?h t] by auto
qed

subsection \<open>Searching a chain\<close>

lemma find_loop_spec:
  assumes "cseg (nh h) (t_list t ! i) (us @ vs) 0" "i < length (t_list t)"
    and "\<forall>a \<in> set (us @ vs). keyed h a" "ck_valid key"
  shows "find_loop h t key hash (slot_of i us) =
    Some (slot_of i (us @ takeWhile (\<lambda>a. kv h a \<noteq> (hash, ck_bytes key)) vs))"
  using assms
proof (induction vs arbitrary: us)
  case Nil
  then have "deref_slot h t (slot_of i us) = Some 0"
    by (intro deref_slot_of) (auto simp: keyed_def)
  then show ?case by (subst find_loop.simps) simp
next
  case (Cons a vs)
  obtain q where q: "cseg (nh h) (t_list t ! i) us q" "q = a" "a \<noteq> 0"
    using Cons.prems(1) by (auto simp: cseg_append)
  have d: "deref_slot h t (slot_of i us) = Some a"
    using deref_slot_of [OF q(1)] Cons.prems(2,3) q(2) by (auto simp: keyed_def)
  obtain e where e: "h a = Some e" "nx h a \<noteq> a" "ck_valid (ky h a)"
    using Cons.prems(3) by (auto simp: keyed_def)
  have k: "handle_key a e = Some (ky h a)" using handle_key_view [of h a e] e by simp
  have hash: "h_hash e = hs h a" using e(1) by (simp add: hs_def)
  have next': "find_loop h t key hash (NextHash a) =
      Some (slot_of i ((us @ [a]) @ takeWhile (\<lambda>a. kv h a \<noteq> (hash, ck_bytes key)) vs))"
    using Cons.IH [of "us @ [a]"] Cons.prems by (simp add: slot_of_def)
  have eq: "ck_eq key (ky h a) = Some (ck_bytes key = ck_bytes (ky h a))"
    using ck_eq_spec Cons.prems(4) e(3) by simp
  show ?case
    apply (subst find_loop.simps)
    using d e(1) q(3) k hash eq next' by (auto simp: kv_def)
qed

subsection \<open>Buckets\<close>

lemma bucket_of_pow2:
  assumes "k < 32"
  shows "bucket_of (2 ^ k) hash = unat hash mod 2 ^ k"
proof -
  have "hash AND (2 ^ k - 1) = take_bit k hash"
    by (simp add: take_bit_eq_mask mask_eq_exp_minus_1)
  then have "bucket_of (2 ^ k) hash = take_bit k (unat hash)"
    by (simp only: bucket_of_def unsigned_take_bit_eq)
  then show ?thesis by (simp add: take_bit_eq_mod)
qed

lemma bucket_of_less: "k < 32 \<Longrightarrow> bucket_of (2 ^ k) hash < 2 ^ k"
  by (simp add: bucket_of_pow2)

lemma nth_other:
  "i \<noteq> length L \<Longrightarrow> i < length (L @ b # R) \<Longrightarrow>
   (L @ zs # R) ! i = (L @ b # R) ! i \<and> (L @ b # R) ! i \<in> set (L @ R)"
  by (auto simp: nth_append nth_Cons')

lemma chains_ok_replace:
  assumes "chains_ok h len list (L @ b # R)" "length list' = length list"
    and "\<And>j. j \<noteq> length L \<Longrightarrow> list' ! j = list ! j"
    and "hs h' = hs h" "\<And>a. a \<in> set (concat (L @ R)) \<Longrightarrow> nh h' a = nh h a"
    and "cseg (nh h') (list' ! length L) zs 0"
    and "\<forall>a \<in> set zs. bucket_of len (hs h a) = length L"
    and "distinct zs" "set zs \<inter> set (concat (L @ R)) = {}"
  shows "chains_ok h' len list' (L @ zs # R)"
proof -
  have c: "length list = length (L @ b # R)"
    "\<And>i. i < length (L @ b # R) \<Longrightarrow> cseg (nh h) (list ! i) ((L @ b # R) ! i) 0"
    "\<And>i a. i < length (L @ b # R) \<Longrightarrow> a \<in> set ((L @ b # R) ! i) \<Longrightarrow> bucket_of len (hs h a) = i"
    "distinct (concat (L @ b # R))"
    using assms(1) by (auto simp: chains_ok_def)
  have other: "cseg (nh h') (list' ! i) ((L @ zs # R) ! i) 0 \<and>
      (\<forall>a \<in> set ((L @ zs # R) ! i). bucket_of len (hs h' a) = i)"
    if i: "i < length (L @ b # R)" "i \<noteq> length L" for i
  proof -
    have n: "(L @ zs # R) ! i = (L @ b # R) ! i" "(L @ b # R) ! i \<in> set (L @ R)"
      using nth_other [OF i(2,1)] by blast+
    have "cseg (nh h') (list ! i) ((L @ b # R) ! i) 0 = cseg (nh h) (list ! i) ((L @ b # R) ! i) 0"
      using n(2) by (intro cseg_cong assms(5)) (auto simp del: concat_append)
    then show ?thesis using c(2,3) [OF i(1)] assms(3,4) i(2) n(1) by simp
  qed
  have "\<forall>i < length (L @ zs # R). cseg (nh h') (list' ! i) ((L @ zs # R) ! i) 0 \<and>
      (\<forall>a \<in> set ((L @ zs # R) ! i). bucket_of len (hs h' a) = i)"
    using other assms(4,6,7) by (metis length_append length_Cons nth_append_length)
  moreover have "distinct (concat (L @ zs # R))"
    using c(4) assms(8,9) by auto
  ultimately show ?thesis using assms(2) c(1) by (auto simp: chains_ok_def)
qed

lemma chains_ok_mid:
  assumes "chains_ok h len list (L @ b # R)"
  shows "distinct b" "set b \<inter> set (concat (L @ R)) = {}" "length L < length list"
    and "\<forall>a \<in> set b. bucket_of len (hs h a) = length L"
proof -
  show "distinct b" "set b \<inter> set (concat (L @ R)) = {}" "length L < length list"
    using assms by (auto simp: chains_ok_def)
  have "\<forall>a \<in> set ((L @ b # R) ! length L). bucket_of len (hs h a) = length L"
    using assms unfolding chains_ok_def by (metis length_append length_Cons less_add_Suc1 add_Suc_right)
  then show "\<forall>a \<in> set b. bucket_of len (hs h a) = length L" by simp
qed

lemma search_spec:
  assumes "table_ok h t bs" "ck_valid key"
  obtains L us vs R where "search_at h t bs key hash L us vs R"
proof -
  let ?P = "\<lambda>a. kv h a \<noteq> (hash, ck_bytes key)"
  let ?i = "bucket_of (t_length t) hash"
  let ?us = "takeWhile ?P (bs ! ?i)" and ?vs = "dropWhile ?P (bs ! ?i)"
  have c: "chains_ok h (t_length t) (t_list t) bs" and i: "?i < length bs"
    and keyed: "\<forall>a \<in> set (concat bs). keyed h a"
    using assms(1) bucket_of_less by (auto simp: table_ok_def table_core_def)
  have cs: "cseg (nh h) (t_list t ! ?i) (?us @ ?vs) 0" and il: "?i < length (t_list t)"
    using c i by (auto simp: chains_ok_def)
  have kb: "\<forall>a \<in> set (bs ! ?i). keyed h a" using keyed i by auto
  then have find: "find_pointer h t key hash = Some (slot_of ?i ?us)"
    using find_loop_spec [of h t ?i "[]" "bs ! ?i" key hash] cs il assms(2)
    by (simp add: find_pointer_def slot_of_def [of _ "[]"])
  obtain q where q: "cseg (nh h) (t_list t ! ?i) ?us q" "cseg (nh h) q ?vs 0"
    using cs by (auto simp only: cseg_append)
  have q': "q = hd (?vs @ [0])" using cseg_start [OF q(2)] .
  have "set ?us \<subseteq> dom h" using kb set_takeWhileD by (fastforce simp: keyed_def)
  then have d: "deref_slot h t (slot_of ?i ?us) = Some q"
    using deref_slot_of [OF q(1) il] by simp
  have "is_entry h (set (concat bs)) (hash, ck_bytes key) q"
  proof (cases ?vs)
    case Nil
    then have none: "\<forall>a \<in> set (bs ! ?i). ?P a" by (simp add: dropWhile_eq_Nil_conv)
    have no: "?P a" if a: "a \<in> set (concat bs)" for a
    proof
      assume ka: "kv h a = (hash, ck_bytes key)"
      obtain j where j: "j < length bs" "a \<in> set (bs ! j)"
        using a by (metis in_set_conv_nth set_concat UN_E)
      then have "j = ?i" using c ka by (auto simp: chains_ok_def kv_def)
      with j none ka show False by blast
    qed
    have "q = 0" using q' unfolding Nil by simp
    moreover have "(hash, ck_bytes key) \<notin> kv h ` set (concat bs)"
      using no by (metis imageE)
    ultimately show ?thesis by (simp add: is_entry_def del: set_concat)
  next
    case (Cons a ws)
    then have "kv h a = (hash, ck_bytes key)" using hd_dropWhile [of ?P "bs ! ?i"] by auto
    moreover have "a \<in> set (bs ! ?i)" using Cons set_dropWhileD [of a] by (metis list.set_intros(1))
    moreover have "a \<noteq> 0" using calculation(2) kb by (auto simp: keyed_def)
    ultimately show ?thesis using Cons q' i by (auto simp: is_entry_def)
  qed
  moreover have "bs = take ?i bs @ (?us @ ?vs) # drop (Suc ?i) bs"
    using id_take_nth_drop [OF i] by simp
  ultimately show ?thesis
    using that [of "take ?i bs" ?us ?vs "drop (Suc ?i) bs"] i find q d q'
    by (simp add: search_at_def)
qed

lemma keyed_hash_only: "hash_only A h h' \<Longrightarrow> keyed h' = keyed h"
  using agree_dom [of strip_hash A h h'] by (auto simp: keyed_def hash_only_views fun_eq_iff)

lemma table_lookup_spec:
  assumes "table_rep h t E" "ck_valid key"
  obtains a where "table_lookup h t key hash = Some a" "is_entry h E (hash, ck_bytes key) a"
proof -
  obtain bs where bs: "table_ok h t bs" "E = set (concat bs)"
    using assms(1) by (auto simp: table_rep_def)
  obtain L us vs R where "search_at h t bs key hash L us vs R"
    using search_spec [OF bs(1) assms(2)] .
  then have "table_lookup h t key hash = Some (hd (vs @ [0]))"
    "is_entry h (set (concat bs)) (hash, ck_bytes key) (hd (vs @ [0]))"
    by (auto simp only: search_at_def table_lookup_def Option.bind.bind_lunit)
  with that bs(2) show ?thesis by blast
qed

subsection \<open>Replacing the rest of a chain\<close>

lemma splice_spec:
  assumes core: "table_core h t (L @ (us @ vs) # R)" and us: "cseg (nh h) (t_list t ! length L) us q"
    and h1: "hash_only A h h1" "A \<inter> set (us @ concat (L @ R)) = {}"
    and zs: "cseg (nh h1) p zs 0" "distinct zs" "set zs \<inter> set (us @ concat (L @ R)) = {}"
      "\<forall>z \<in> set zs. keyed h z \<and> bucket_of (t_length t) (hs h z) = length L"
    and inj: "inj_on (kv h) (set (concat (L @ (us @ zs) # R)))"
  obtains h' t' where "assign_slot h1 t (slot_of (length L) us) p = Some (h', t')"
    "hash_only (A \<union> set us) h h'" "t_length t' = t_length t" "t_elems t' = t_elems t"
    "\<And>n. unat n = length (concat (L @ (us @ zs) # R)) \<Longrightarrow>
       table_core h' (t'\<lparr>t_elems := n\<rparr>) (L @ (us @ zs) # R)"
proof -
  have chains: "chains_ok h (t_length t) (t_list t) (L @ (us @ vs) # R)"
    and keyed: "\<forall>a \<in> set (concat (L @ (us @ vs) # R)). keyed h a"
    and pow: "\<exists>k. 2 \<le> k \<and> k < 32 \<and> t_length t = 2 ^ k \<and> length (L @ (us @ zs) # R) = 2 ^ k"
    using core by (auto simp: table_core_def)
  have dist: "distinct us" "distinct (us @ zs)" "set us \<inter> set (concat (L @ R)) = {}"
    and il: "length L < length (t_list t)"
    and bu: "\<forall>a \<in> set us. bucket_of (t_length t) (hs h a) = length L"
    using chains_ok_mid [OF chains] zs(2,3) by auto
  have "a \<notin> A" if "a \<in> set us \<union> set (concat (L @ R))" for a using h1(2) that by auto
  then have same: "nh h1 a = nh h a" if "a \<in> set us \<union> set (concat (L @ R))" for a
    using agree_outside [OF h1(1)] that by (simp add: nh_def)
  have us1: "cseg (nh h1) (t_list t ! length L) us q"
    using us same by (subst cseg_cong [where n = "nh h"]) auto
  have dom: "set us \<subseteq> dom h1" using keyed agree_dom [OF h1(1)] by (auto simp: keyed_def)
  obtain h' t' where as: "assign_slot h1 t (slot_of (length L) us) p = Some (h', t')"
      "hash_only (set us) h1 h'" "t_length t' = t_length t" "t_elems t' = t_elems t"
      "length (t_list t') = length (t_list t)" "cseg (nh h') (t_list t' ! length L) us p"
      "\<And>j. j \<noteq> length L \<Longrightarrow> t_list t' ! j = t_list t ! j"
      "\<And>b. b \<notin> set us \<Longrightarrow> nh h' b = nh h1 b"
    using assign_slot_of [OF us1 il dom dist(1), of p] by auto
  have ho: "hash_only (A \<union> set us) h h'" using agree_trans [OF h1(1) as(2)] .
  note v = hash_only_views [OF ho]
  have zs': "cseg (nh h') p zs 0"
    using zs(1,3) as(8) by (subst cseg_cong [where n = "nh h1"]) auto
  have "chains_ok h' (t_length t) (t_list t') (L @ (us @ zs) # R)"
  proof (rule chains_ok_replace [OF chains as(5,7)])
    show "hs h' = hs h" by (simp add: v)
    show "nh h' b = nh h b" if b: "b \<in> set (concat (L @ R))" for b
    proof -
      have "b \<notin> set us" using dist(3) b by (metis IntI empty_iff)
      then have "nh h' b = nh h1 b" by (rule as(8))
      also have "\<dots> = nh h b" using b by (intro same) simp
      finally show ?thesis .
    qed
    show "cseg (nh h') (t_list t' ! length L) (us @ zs) 0"
      using as(6) zs' cseg_append by blast
    show "\<forall>a \<in> set (us @ zs). bucket_of (t_length t) (hs h a) = length L" using bu zs(4) by auto
    show "set (us @ zs) \<inter> set (concat (L @ R)) = {}" using dist(3) zs(3) by auto
  qed (use dist in auto)
  moreover have "\<forall>b \<in> set (concat (L @ (us @ zs) # R)). keyed h' b"
    using keyed zs(4) unfolding keyed_hash_only [OF ho] by auto
  ultimately have "table_core h' (t'\<lparr>t_elems := n\<rparr>) (L @ (us @ zs) # R)"
    if "unat n = length (concat (L @ (us @ zs) # R))" for n
    using pow inj that as(3) by (simp add: table_core_def v)
  with that as ho show ?thesis by blast
qed

subsection \<open>Removal\<close>

lemma table_remove_spec:
  assumes "table_rep h t E" "ck_valid key"
  obtains a h' t' where "table_remove h t key hash = Some (a, h', t')"
    "is_entry h E (hash, ck_bytes key) a" "table_rep h' t' (E - {a})" "hash_only E h h'"
proof -
  obtain bs where bs: "table_ok h t bs" "E = set (concat bs)"
    using assms(1) by (auto simp: table_rep_def)
  obtain L us vs R where sa: "search_at h t bs key hash L us vs R"
    using search_spec [OF bs(1) assms(2)] .
  then have bs': "bs = L @ (us @ vs) # R"
    and find: "find_pointer h t key hash = Some (slot_of (length L) us)"
    and cs: "cseg (nh h) (t_list t ! length L) us (hd (vs @ [0]))" "cseg (nh h) (hd (vs @ [0])) vs 0"
    and d: "deref_slot h t (slot_of (length L) us) = Some (hd (vs @ [0]))"
    and ie: "is_entry h (set (concat bs)) (hash, ck_bytes key) (hd (vs @ [0]))"
    unfolding search_at_def by blast+
  have core: "table_core h t (L @ (us @ vs) # R)" and le: "length (concat bs) \<le> length bs"
    using bs(1) bs' by (auto simp: table_ok_def)
  show ?thesis
  proof (cases vs)
    case Nil
    then have "table_remove h t key hash = Some (0, h, t)" using find d by (simp add: table_remove_def)
    moreover have "E - {0} = E" using core bs(2) bs' by (auto simp: table_core_def keyed_def)
    ultimately show ?thesis using that [of 0 h t] ie bs assms(1) Nil by simp
  next
    case (Cons a ws)
    note core' = core [unfolded Cons]
    obtain e where e: "h a = Some e" "a \<noteq> 0" using core' by (auto simp: table_core_def keyed_def)
    have ch: "chains_ok h (t_length t) (t_list t) (L @ (us @ a # ws) # R)" "\<forall>z \<in> set ws. keyed h z"
      using core' by (auto simp: table_core_def)
    have dist: "distinct (us @ a # ws)" "set (us @ a # ws) \<inter> set (concat (L @ R)) = {}"
      "\<forall>z \<in> set ws. keyed h z \<and> bucket_of (t_length t) (hs h z) = length L"
      using chains_ok_mid [OF ch(1)] ch(2) by simp_all
    have E: "set (concat (L @ (us @ ws) # R)) = E - {a}" using bs(2) bs' Cons dist by auto
    have inj: "inj_on (kv h) (E - {a})"
      using core bs(2) bs' by (simp add: table_core_def inj_on_diff del: set_concat)
    have ws: "cseg (nh h) (nh h a) ws 0" "set ws \<inter> set (us @ concat (L @ R)) = {}" "distinct ws"
      using cs(2) Cons dist by auto
    obtain h' t' where as: "assign_slot h t (slot_of (length L) us) (nh h a) = Some (h', t')"
      "hash_only ({} \<union> set us) h h'" "t_length t' = t_length t" "t_elems t' = t_elems t"
      "\<And>n. unat n = length (concat (L @ (us @ ws) # R)) \<Longrightarrow>
         table_core h' (t'\<lparr>t_elems := n\<rparr>) (L @ (us @ ws) # R)"
      using splice_spec [OF core cs(1) agree_refl _ ws(1,3,2) dist(3), of "{}"] inj E by auto
    have "table_remove h t key hash = Some (a, h', t'\<lparr>t_elems := t_elems t' - 1\<rparr>)"
      using find d Cons e as(1) view_cell(3) [of h, OF e(1)] by (simp add: table_remove_def)
    moreover have "unat (t_elems t' - 1) = length (concat (L @ (us @ ws) # R))"
    proof -
      have el: "unat (t_elems t') = Suc (length (concat (L @ (us @ ws) # R)))"
        using core' as(4) by (simp add: table_core_def)
      then have "t_elems t' \<noteq> 0" by (metis nat.simps(3) unsigned_0)
      with el show ?thesis by (simp add: unat_minus_one)
    qed
    then have "table_rep h' (t'\<lparr>t_elems := t_elems t' - 1\<rparr>) (E - {a})"
      using as(5) le bs' Cons E unfolding table_rep_def table_ok_def
      by (intro exI [of _ "L @ (us @ ws) # R"]) simp
    moreover have "hash_only E h h'" using as(2) bs(2) bs' by (auto intro: agree_mono)
    ultimately show ?thesis using that [OF _ _ _ \<open>hash_only E h h'\<close>] ie Cons bs(2) by simp
  qed
qed

subsection \<open>Rehashing\<close>

lemma new_length_loop_spec:
  assumes "2 \<le> j" "j \<le> 31" "elems \<le> 2 ^ 31"
  shows "\<exists>k. 2 \<le> k \<and> k < 32 \<and> new_length_loop elems (2 ^ j) = Some (2 ^ k) \<and> elems \<le> 2 ^ k"
  using assms
proof (induction "31 - j" arbitrary: j)
  case 0
  then have j: "j = 31" and "\<not> 2 ^ j < elems" by (simp_all only: not_less) simp
  then have "new_length_loop elems (2 ^ j) = Some (2 ^ j)" by (subst new_length_loop.simps) simp
  with j 0 show ?case by (intro exI [of _ 31]) simp
next
  case (Suc d)
  show ?case
  proof (cases "2 ^ j < elems")
    case True
    have "\<exists>k. 2 \<le> k \<and> k < 32 \<and> new_length_loop elems (2 ^ Suc j) = Some (2 ^ k) \<and> elems \<le> 2 ^ k"
      using Suc by (intro Suc.hyps(1)) auto
    with True show ?thesis
      by (subst new_length_loop.simps) (simp add: mult.commute)
  next
    case False
    then have "new_length_loop elems (2 ^ j) = Some (2 ^ j)" by (subst new_length_loop.simps) simp
    with Suc.prems False show ?thesis by (intro exI [of _ j]) (auto simp: not_less)
  qed
qed

lemma set_concat_push:
  assumes "i < length bs"
  shows "set (concat (bs[i := a # bs ! i])) = insert a (set (concat bs))"
proof -
  have "set (concat bs) = set (concat (take i bs @ bs ! i # drop (Suc i) bs))"
    using id_take_nth_drop [OF assms] by simp
  then show ?thesis using assms by (simp add: upd_conv_take_nth_drop)
qed

lemma chains_ok_push:
  assumes c: "chains_ok h (2 ^ k) list bs" "length bs = 2 ^ k" "k < 32"
    and a: "h a = Some e" "a \<noteq> 0" "a \<notin> set (concat bs)"
  shows "chains_ok (h(a \<mapsto> e\<lparr>h_next_hash := list ! bucket_of (2 ^ k) (h_hash e)\<rparr>)) (2 ^ k)
      (list[bucket_of (2 ^ k) (h_hash e) := a])
      (bs[bucket_of (2 ^ k) (h_hash e) := a # bs ! bucket_of (2 ^ k) (h_hash e)])"
    (is "chains_ok ?h _ (list[?i := a]) _")
proof -
  have i: "?i < length bs" "?i < length list"
    using bucket_of_less [OF c(3)] c(1,2) by (auto simp: chains_ok_def)
  have split: "bs = take ?i bs @ bs ! ?i # drop (Suc ?i) bs" using id_take_nth_drop [OF i(1)] .
  have a': "a \<notin> set (bs ! ?i)" "a \<notin> set (concat (take ?i bs @ drop (Suc ?i) bs))"
    using a(3) by (subst (asm) split, simp)+
  note c' = c(1) [unfolded arg_cong [OF split, of "chains_ok h (2 ^ k) list"]]
  have hs: "hs ?h = hs h" using a(1) by (auto simp: fun_eq_iff hs_def)
  have seg: "cseg (nh h) (list ! ?i) (bs ! ?i) 0" using c(1) i by (auto simp: chains_ok_def)
  have "chains_ok ?h (2 ^ k) (list[?i := a]) (take ?i bs @ (a # bs ! ?i) # drop (Suc ?i) bs)"
  proof (rule chains_ok_replace [OF c'])
    show "nh ?h b = nh h b" if "b \<in> set (concat (take ?i bs @ drop (Suc ?i) bs))" for b
      using that a'(2) by (auto simp: nh_def)
    show "cseg (nh ?h) (list[?i := a] ! length (take ?i bs)) (a # bs ! ?i) 0"
      using seg i a(2) a'(1) by (simp add: cseg_frame)
    show "\<forall>x \<in> set (a # bs ! ?i). bucket_of (2 ^ k) (hs h x) = length (take ?i bs)"
      using chains_ok_mid(4) [OF c'] i a(1) by (simp add: hs_def)
    show "set (a # bs ! ?i) \<inter> set (concat (take ?i bs @ drop (Suc ?i) bs)) = {}"
      using chains_ok_mid(2) [OF c'] a'(2) by auto
  qed (use chains_ok_mid(1) [OF c'] a'(1) hs i in auto)
  then show ?thesis using i by (simp add: upd_conv_take_nth_drop)
qed

lemma rehash_chain_spec:
  assumes "cseg (nh h) p xs 0" "set xs \<subseteq> dom h" "distinct xs" "set xs \<inter> set (concat bs) = {}"
    and "chains_ok h (2 ^ k) list bs" "length bs = 2 ^ k" "k < 32"
  shows "\<exists>h' list' bs'.
    rehash_chain (2 ^ k) h list c p = Some (h', list', c + of_nat (length xs)) \<and>
    chains_ok h' (2 ^ k) list' bs' \<and> length bs' = 2 ^ k \<and>
    set (concat bs') = set xs \<union> set (concat bs) \<and> hash_only (set xs) h h'"
  using assms
proof (induction xs arbitrary: h p list bs c)
  case Nil
  then show ?case by (subst rehash_chain.simps) auto
next
  case (Cons a xs)
  obtain e where e: "h a = Some e" "p = a" "a \<noteq> 0" "h_next_hash e = nh h a"
    using Cons.prems(1,2) by (auto simp: nh_def)
  let ?i = "bucket_of (2 ^ k) (h_hash e)"
  let ?h = "h(a \<mapsto> e\<lparr>h_next_hash := list ! ?i\<rparr>)" and ?bs = "bs[?i := a # bs ! ?i]"
  have i: "?i < length bs" "?i < length list"
    using bucket_of_less [OF Cons.prems(7)] Cons.prems(5,6) by (auto simp: chains_ok_def)
  have set: "set (concat ?bs) = insert a (set (concat bs))"
    using set_concat_push [OF i(1)] .
  have ok: "chains_ok ?h (2 ^ k) (list[?i := a]) ?bs"
    using chains_ok_push [OF Cons.prems(5-7) e(1,3)] Cons.prems(4) by auto
  have "\<exists>h' list' bs'.
      rehash_chain (2 ^ k) ?h (list[?i := a]) (c + 1) (nh h a) = Some (h', list', c + 1 + of_nat (length xs)) \<and>
      chains_ok h' (2 ^ k) list' bs' \<and> length bs' = 2 ^ k \<and>
      set (concat bs') = set xs \<union> set (concat ?bs) \<and> hash_only (set xs) ?h h'"
  proof (intro Cons.IH ok)
    show "cseg (nh ?h) (nh h a) xs 0" using Cons.prems(1,3) by (simp add: cseg_frame)
    show "set xs \<inter> set (concat ?bs) = {}" unfolding set using Cons.prems(3,4) by auto
  qed (use Cons.prems in auto)
  then obtain h' list' bs' where
    r: "rehash_chain (2 ^ k) ?h (list[?i := a]) (c + 1) (nh h a) = Some (h', list', c + 1 + of_nat (length xs))"
    "chains_ok h' (2 ^ k) list' bs'" "length bs' = 2 ^ k"
    "set (concat bs') = set xs \<union> set (concat ?bs)" "hash_only (set xs) ?h h'"
    by blast
  have "hash_only {a} h ?h" using e(1) by (intro agree_upd) (auto simp: strip_hash_def)
  then have "hash_only (set (a # xs)) h h'" using agree_trans [OF _ r(5)] by fastforce
  moreover have "rehash_chain (2 ^ k) h list c p = Some (h', list', c + of_nat (length (a # xs)))"
    using r(1) e i(2) by (subst rehash_chain.simps) (simp add: add.assoc)
  ultimately show ?case using r(2-4) set by (intro exI conjI) auto
qed


lemma rehash_buckets_spec:
  assumes "list_all2 (\<lambda>p xs. cseg (nh h) p xs 0) ps os" "set (concat os) \<subseteq> dom h"
    and "distinct (concat os)" "set (concat os) \<inter> set (concat bs) = {}"
    and "chains_ok h (2 ^ k) list bs" "length bs = 2 ^ k" "k < 32"
  shows "\<exists>h' list' bs'.
    rehash_buckets (2 ^ k) h list c ps = Some (h', list', c + of_nat (length (concat os))) \<and>
    chains_ok h' (2 ^ k) list' bs' \<and> length bs' = 2 ^ k \<and>
    set (concat bs') = set (concat os) \<union> set (concat bs) \<and> hash_only (set (concat os)) h h'"
  using assms
proof (induction ps arbitrary: os h list bs c)
  case Nil
  then show ?case by auto
next
  case (Cons p ps)
  obtain xs os' where os: "os = xs # os'" "cseg (nh h) p xs 0"
    "list_all2 (\<lambda>p xs. cseg (nh h) p xs 0) ps os'"
    using Cons.prems(1) by (auto simp: list_all2_Cons1)
  have xs: "set xs \<subseteq> dom h" "distinct xs" "set xs \<inter> set (concat bs) = {}"
    using Cons.prems os(1) by auto
  obtain h1 list1 bs1 where
    r1: "rehash_chain (2 ^ k) h list c p = Some (h1, list1, c + of_nat (length xs))"
    "chains_ok h1 (2 ^ k) list1 bs1" "length bs1 = 2 ^ k"
    "set (concat bs1) = set xs \<union> set (concat bs)" "hash_only (set xs) h h1"
    using rehash_chain_spec [OF os(2) xs Cons.prems(5-7), of c] by blast
  have d: "set (concat os') \<inter> set xs = {}" using Cons.prems(3) os(1) by auto
  have "list_all2 (\<lambda>p xs. cseg (nh h1) p xs 0) ps os'"
  proof -
    have "cseg (nh h1) q ys 0 = cseg (nh h) q ys 0" if "ys \<in> set os'" for q ys
    proof (rule cseg_cong)
      fix b assume "b \<in> set ys"
      then have "b \<notin> set xs" using that d by auto
      then show "nh h1 b = nh h b" using agree_outside [OF r1(5)] by (simp add: nh_def)
    qed
    then show ?thesis using os(3) by (auto simp: list_all2_conv_all_nth)
  qed
  moreover have "set (concat os') \<subseteq> dom h1" using Cons.prems(2) os(1) agree_dom [OF r1(5)] by auto
  moreover have "set (concat os') \<inter> set (concat bs1) = {}" "distinct (concat os')"
    using Cons.prems(3,4) os(1) d r1(4) by auto
  ultimately obtain h2 list2 bs2 where
    r2: "rehash_buckets (2 ^ k) h1 list1 (c + of_nat (length xs)) ps =
        Some (h2, list2, c + of_nat (length xs) + of_nat (length (concat os')))"
    "chains_ok h2 (2 ^ k) list2 bs2" "length bs2 = 2 ^ k"
    "set (concat bs2) = set (concat os') \<union> set (concat bs1)" "hash_only (set (concat os')) h1 h2"
    using Cons.IH [OF _ _ _ _ r1(2,3) Cons.prems(7), of os' "c + of_nat (length xs)"] by blast
  have "hash_only (set (concat os)) h h2" using agree_trans [OF r1(5) r2(5)] os(1) by simp
  moreover have "rehash_buckets (2 ^ k) h list c (p # ps) = Some (h2, list2, c + of_nat (length (concat os)))"
    using r1(1) r2(1) os(1) by (simp add: add.assoc)
  ultimately show ?case using r2(2-4) r1(4) os(1) by (intro exI conjI) auto
qed

lemma table_resize_spec:
  assumes "list_all2 (\<lambda>p xs. cseg (nh h) p xs 0) (t_list t) os" "distinct (concat os)"
    and "\<forall>a \<in> set (concat os). keyed h a" "inj_on (kv h) (set (concat os))"
    and "unat (t_length t) = length (t_list t)" "unat (t_elems t) = length (concat os)"
    and "length (concat os) \<le> 2 ^ 31"
  obtains h' t' where "table_resize h t = Some (h', t')" "table_rep h' t' (set (concat os))"
    "hash_only (set (concat os)) h h'"
proof -
  have "t_elems t \<le> 2 ^ 31" using assms(6,7) by (simp add: word_le_nat_alt)
  then obtain k where k: "2 \<le> k" "k < 32" "new_length_loop (t_elems t) 4 = Some (2 ^ k)"
    "t_elems t \<le> 2 ^ k"
    using new_length_loop_spec [of 2 "t_elems t"] by auto
  have u: "unat (2 ^ k :: u32) = 2 ^ k" using k(2) by (simp add: unat_2p)
  have el: "length (concat os) \<le> 2 ^ k" using k(4) assms(6) u by (simp add: word_le_nat_alt)
  let ?bs = "replicate (2 ^ k) [] :: addr list list"
  have c0: "chains_ok h (2 ^ k) (replicate (2 ^ k) 0) ?bs"
    by (auto simp: chains_ok_def)
  have dom: "set (concat os) \<subseteq> dom h" and disj: "set (concat os) \<inter> set (concat ?bs) = {}"
    using assms(3) by (auto simp: keyed_def)
  obtain h' list' bs' where
    r: "rehash_buckets (2 ^ k) h (replicate (2 ^ k) 0) 0 (t_list t) =
        Some (h', list', 0 + of_nat (length (concat os)))"
    "chains_ok h' (2 ^ k) list' bs'" "length bs' = 2 ^ k"
    "set (concat bs') = set (concat os) \<union> set (concat ?bs)" "hash_only (set (concat os)) h h'"
    using rehash_buckets_spec [OF assms(1) dom assms(2) disj c0 _ k(2), of 0] by auto
  let ?t = "t\<lparr>t_list := list', t_length := 2 ^ k\<rparr>"
  have cnt: "of_nat (length (concat os)) = t_elems t" unfolding assms(6) [symmetric] by simp
  have "table_resize h t = Some (h', ?t)"
    using k(3) u assms(5) r(1) cnt by (simp add: table_resize_def)
  moreover have s: "set (concat bs') = set (concat os)" using r(4) by simp
  moreover have "length (concat bs') = length (concat os)"
    using r(2) assms(2) s unfolding chains_ok_def by (metis distinct_card)
  moreover have "table_core h' ?t bs'"
    using r(2,3) k(1,2) assms(3,4,6) s calculation(3)
    unfolding table_core_def hash_only_views [OF r(5)] keyed_hash_only [OF r(5)] by auto
  ultimately show ?thesis
    using that r(3,5) el unfolding table_rep_def table_ok_def by metis
qed

lemma table_new_spec:
  obtains h' t where "table_new h = Some (h', t)" "table_rep h' t {}" "h' = h"
proof -
  obtain h' t' where r: "table_new h = Some (h', t')" "table_rep h' t' {}" "hash_only {} h h'"
    using table_resize_spec [of h "\<lparr>t_length = 0, t_elems = 0, t_list = []\<rparr>" "[]"]
    by (auto simp: table_new_def)
  then have "h' = h" using agree_outside [OF r(3)] by auto
  with r that show ?thesis by blast
qed

subsection \<open>Insertion\<close>

lemma core_resize:
  assumes "table_core h t bs" "length (concat bs) \<le> 2 ^ 31"
  obtains h' t' where "table_resize h t = Some (h', t')" "table_rep h' t' (set (concat bs))"
    "hash_only (set (concat bs)) h h'"
proof (rule table_resize_spec [of h t bs])
  show "list_all2 (\<lambda>p xs. cseg (nh h) p xs 0) (t_list t) bs"
    using assms(1) by (auto simp: table_core_def chains_ok_def list_all2_conv_all_nth)
  show "unat (t_length t) = length (t_list t)"
    using assms(1) by (auto simp: table_core_def chains_ok_def unat_2p)
qed (use assms that in \<open>auto simp: table_core_def chains_ok_def\<close>)

lemma table_grow_spec:
  assumes core: "table_core h t bs" and le: "length (concat bs) \<le> 2 ^ 31"
  obtains h' t' where
    "(if t_elems t > t_length t then do { (h, t) \<leftarrow> table_resize h t; Some (old, h, t) }
      else Some (old, h, t)) = Some (old, h', t')"
    "table_rep h' t' (set (concat bs))" "hash_only (set (concat bs)) h h'"
proof (cases "t_elems t > t_length t")
  case True
  obtain h' t' where "table_resize h t = Some (h', t')" "table_rep h' t' (set (concat bs))"
    "hash_only (set (concat bs)) h h'"
    by (rule core_resize [OF core le])
  with True that show ?thesis by simp
next
  case False
  then have "length (concat bs) \<le> length bs"
    using core by (auto simp: table_core_def not_less word_le_nat_alt unat_2p)
  with core have "table_rep h t (set (concat bs))" by (auto simp: table_rep_def table_ok_def)
  with False that show ?thesis by simp
qed

lemma inj_on_entry:
  assumes "inj_on (kv h) E" "is_entry h E (kv h a) old"
  shows "inj_on (kv h) (insert a (E - {old}))"
proof -
  have "kv h a \<noteq> kv h x" if "x \<in> E - {old}" for x
  proof (cases "old = 0")
    case True
    then show ?thesis using that assms(2) by (force simp: is_entry_def)
  next
    case False
    then have "old \<in> E" "kv h old = kv h a" using assms(2) by (auto simp: is_entry_def)
    then show ?thesis using that assms(1) by (metis DiffD1 DiffD2 inj_onD singletonI)
  qed
  then have "kv h a \<notin> kv h ` (E - {old} - {a})" by blast
  then show ?thesis using assms(1) by (simp add: inj_on_insert inj_on_diff)
qed

lemma table_insert_spec:
  assumes rep: "table_rep h t E" and a: "a \<notin> E" "keyed h a" and card: "card E < 2 ^ 31"
  obtains old h' t' where "table_insert h t a = Some (old, h', t')"
    "is_entry h E (kv h a) old" "table_rep h' t' (insert a (E - {old}))"
    "hash_only (insert a E) h h'"
proof -
  obtain bs where bs: "table_ok h t bs" "E = set (concat bs)"
    using rep by (auto simp: table_rep_def)
  obtain e where e: "h a = Some e" using a(2) by (auto simp: keyed_def)
  have e': "h_hash e = hs h a" "handle_key a e = Some (ky h a)"
    and kva: "kv h a = (hs h a, ck_bytes (ky h a))"
    using a(2) e handle_key_view [of h, OF e] by (auto simp: keyed_def hs_def kv_def)
  obtain L us vs R where sa: "search_at h t bs (ky h a) (hs h a) L us vs R"
    using search_spec [OF bs(1), of "ky h a"] a(2) unfolding keyed_def by blast
  then have bs': "bs = L @ (us @ vs) # R" and L: "length L = bucket_of (t_length t) (hs h a)"
    and find: "find_pointer h t (ky h a) (hs h a) = Some (slot_of (length L) us)"
    and cs: "cseg (nh h) (t_list t ! length L) us (hd (vs @ [0]))" "cseg (nh h) (hd (vs @ [0])) vs 0"
    and d: "deref_slot h t (slot_of (length L) us) = Some (hd (vs @ [0]))"
    and ie: "is_entry h E (kv h a) (hd (vs @ [0]))"
    unfolding search_at_def kva bs(2) by blast+
  have core: "table_core h t (L @ (us @ vs) # R)" and le: "length (concat bs) \<le> length bs"
    using bs(1) bs' by (auto simp: table_ok_def)
  have ch: "chains_ok h (t_length t) (t_list t) (L @ (us @ vs) # R)"
    and key: "\<forall>z \<in> E. keyed h z" and inj: "inj_on (kv h) E"
    using core bs(2) bs' by (simp_all add: table_core_def)
  note mid = chains_ok_mid [OF ch]
  let ?old = "hd (vs @ [0])" and ?ws = "tl vs"
  let ?nxt = "if vs = [] then 0 else nh h (hd vs)"
  let ?h = "h(a \<mapsto> e\<lparr>h_next_hash := ?nxt\<rparr>)" and ?bs = "L @ (us @ a # ?ws) # R"
  have h1: "hash_only {a} h ?h" using e(1) by (intro agree_upd) (auto simp: strip_hash_def)
  have aout: "{a} \<inter> set (us @ concat (L @ R)) = {}" "a \<notin> set vs" "a \<notin> set ?ws" "a \<noteq> 0"
    using a bs(2) bs' by (cases vs; auto simp: keyed_def)+
  have ws: "cseg (nh ?h) a (a # ?ws) 0"
    using cs(2) aout(3,4) by (cases vs) (auto simp: cseg_frame)
  have disj: "set (a # ?ws) \<inter> set (us @ concat (L @ R)) = {}" "distinct (a # ?ws)"
    using mid(1,2) aout by (cases vs; auto)+
  have zero: "0 \<notin> E" using key by (auto simp: keyed_def)
  have zs: "\<forall>z \<in> set (a # ?ws). keyed h z \<and> bucket_of (t_length t) (hs h z) = length L"
    using mid(4) key a(2) L bs(2) bs' by (cases vs) auto
  have E: "set (concat ?bs) = insert a (E - {?old})"
    using mid(1,2) zero unfolding bs(2) bs' by (cases vs) auto
  have inj': "inj_on (kv h) (set (concat ?bs))"
    unfolding E by (rule inj_on_entry [OF inj ie])
  obtain h' t' where as: "assign_slot ?h t (slot_of (length L) us) a = Some (h', t')"
    "hash_only ({a} \<union> set us) h h'" "t_length t' = t_length t" "t_elems t' = t_elems t"
    "\<And>n. unat n = length (concat ?bs) \<Longrightarrow> table_core h' (t'\<lparr>t_elems := n\<rparr>) ?bs"
    using splice_spec [OF core cs(1) h1 aout(1) ws disj(2,1) zs inj'] by blast
  have run: "table_insert h t a =
      (if vs = [] then
         if t_elems t' + 1 > t_length t'
         then do { (h, t) \<leftarrow> table_resize h' (t'\<lparr>t_elems := t_elems t' + 1\<rparr>); Some (0, h, t) }
         else Some (0, h', t'\<lparr>t_elems := t_elems t' + 1\<rparr>)
       else Some (hd vs, h', t'))"
  proof (cases vs)
    case Nil
    then show ?thesis using e e' find d as(1) by (simp add: table_insert_def Let_def)
  next
    case (Cons b ws)
    then have "b \<in> E" using bs(2) bs' by simp
    then obtain eb where b: "h b = Some eb" "b \<noteq> 0" using key by (auto simp: keyed_def)
    with Cons show ?thesis using e e' find d as(1) by (simp add: table_insert_def nh_def)
  qed
  have sub: "{a} \<union> set us \<subseteq> insert a E" using bs(2) bs' by auto
  have len: "length (concat bs) = card E"
    using ch unfolding bs(2) bs' chains_ok_def by (metis distinct_card)
  show ?thesis
  proof (cases "vs = []")
    case True
    have n: "unat (t_elems t' + 1) = length (concat ?bs)"
      using core as(4) True len card bs' by (simp add: table_core_def unat_add1)
    have m: "length (concat ?bs) \<le> 2 ^ 31" using True len card bs' by simp
    let ?t = "t'\<lparr>t_elems := t_elems t' + 1\<rparr>"
    obtain h2 t2 where g: "(if t_elems ?t > t_length ?t
         then do { (h, t) \<leftarrow> table_resize h' ?t; Some (0, h, t) }
         else Some (0, h', ?t)) = Some (0::addr, h2, t2)"
       "table_rep h2 t2 (set (concat ?bs))" "hash_only (set (concat ?bs)) h' h2"
      by (rule table_grow_spec [OF as(5) [OF n] m, where old = "0::addr"])
    have "hash_only (insert a E) h h2"
      using agree_mono [OF agree_trans [OF as(2) g(3)], of "insert a E"] sub unfolding E by blast
    then show ?thesis using that [of 0 h2 t2] run g(1,2) ie E True by simp
  next
    case False
    have "length (concat ?bs) = length (concat bs)" using False bs' by (cases vs) auto
    then have "table_ok h' (t'\<lparr>t_elems := t_elems t'\<rparr>) ?bs"
      unfolding table_ok_def using core as(4) le bs' by (intro conjI as(5)) (auto simp: table_core_def)
    then have "table_rep h' t' (insert a (E - {?old}))"
      unfolding E [symmetric] table_rep_def by (intro exI [of _ ?bs]) simp
    moreover have "hash_only (insert a E) h h'" by (rule agree_mono [OF as(2) sub])
    ultimately show ?thesis using that [of "hd vs" h' t'] run ie False by simp
  qed
qed

subsection \<open>The contract of the table\<close>

text \<open>
  What the cache relies on.  The set of entries is ghost state; an entry is identified by
  its hash and its key bytes, and the operations write next\_hash fields only.
\<close>

locale entry_table =
  fixes rep :: "'v lru_heap \<Rightarrow> 't \<Rightarrow> addr set \<Rightarrow> bool"
    and lookup :: "'v lru_heap \<Rightarrow> 't \<Rightarrow> cache_key \<Rightarrow> u32 \<Rightarrow> addr option"
    and ins :: "'v lru_heap \<Rightarrow> 't \<Rightarrow> addr \<Rightarrow> (addr \<times> 'v lru_heap \<times> 't) option"
    and rem :: "'v lru_heap \<Rightarrow> 't \<Rightarrow> cache_key \<Rightarrow> u32 \<Rightarrow> (addr \<times> 'v lru_heap \<times> 't) option"
  assumes rep_cong: "rep h t E \<Longrightarrow>
      (\<And>a. a \<in> E \<Longrightarrow> nh h' a = nh h a \<and> kv h' a = kv h a \<and> keyed h' a) \<Longrightarrow> rep h' t E"
    and rep_keyed: "rep h t E \<Longrightarrow> a \<in> E \<Longrightarrow> keyed h a"
    and rep_inj: "rep h t E \<Longrightarrow> inj_on (kv h) E"
    and rep_finite: "rep h t E \<Longrightarrow> finite E"
    and lookup_law: "rep h t E \<Longrightarrow> ck_valid key \<Longrightarrow>
      \<exists>a. lookup h t key hash = Some a \<and> is_entry h E (hash, ck_bytes key) a"
    and insert_law: "rep h t E \<Longrightarrow> a \<notin> E \<Longrightarrow> keyed h a \<Longrightarrow> card E < 2 ^ 31 \<Longrightarrow>
      \<exists>old h' t'. ins h t a = Some (old, h', t') \<and> is_entry h E (kv h a) old \<and>
        rep h' t' (insert a (E - {old})) \<and> hash_only (insert a E) h h'"
    and remove_law: "rep h t E \<Longrightarrow> ck_valid key \<Longrightarrow>
      \<exists>a h' t'. rem h t key hash = Some (a, h', t') \<and> is_entry h E (hash, ck_bytes key) a \<and>
        rep h' t' (E - {a}) \<and> hash_only E h h'"
begin

lemma entry_unique:
  assumes "rep h t E" "is_entry h E tgt a" "is_entry h E tgt b"
  shows "a = b"
  using assms rep_inj [OF assms(1)]
  by (auto simp: is_entry_def inj_on_def split: if_splits)

lemma entry_some:
  assumes "rep h t E" "a \<in> E"
  shows "is_entry h E (kv h a) a" "a \<noteq> 0"
  using rep_keyed [OF assms] assms(2) by (auto simp: is_entry_def keyed_def)

lemma lookup_entry:
  assumes "rep h t E" "ck_valid key" "is_entry h E (hash, ck_bytes key) a"
  shows "lookup h t key hash = Some a"
  using lookup_law [OF assms(1,2), of hash] entry_unique [OF assms(1) assms(3)] by auto

lemma entry_insert:
  assumes "rep h t E" "a \<notin> E" "keyed h a" "is_entry h E (kv h a) old" "kv h' = kv h"
  shows "is_entry h' (insert a (E - {old})) tgt b \<longleftrightarrow>
    (if tgt = kv h a then b = a else is_entry h E tgt b)"
proof -
  have nz: "0 \<notin> insert a E" using rep_keyed [OF assms(1)] assms(3) by (auto simp: keyed_def)
  have old: "old \<noteq> 0 \<Longrightarrow> old \<in> E \<and> kv h old = kv h a" "old = 0 \<Longrightarrow> kv h a \<notin> kv h ` E"
    using assms(4) by (auto simp: is_entry_def split: if_splits)
  have un: "c = old" if "c \<in> E" "kv h c = kv h a" for c
    using entry_unique [OF assms(1) _ assms(4)] entry_some [OF assms(1) that(1)] that(2) by auto
  show ?thesis
    using nz old un assms(2) unfolding is_entry_def assms(5)
    by (cases "b = 0"; cases "tgt = kv h a") (auto split: if_splits)
qed

lemma entry_remove:
  assumes "rep h t E" "is_entry h E tgt old" "kv h' = kv h"
  shows "is_entry h' (E - {old}) tgt' b \<longleftrightarrow>
    (if tgt' = tgt then b = 0 else is_entry h E tgt' b)"
proof -
  have nz: "0 \<notin> E" using rep_keyed [OF assms(1)] by (auto simp: keyed_def)
  have old: "old \<noteq> 0 \<Longrightarrow> old \<in> E \<and> kv h old = tgt" "old = 0 \<Longrightarrow> tgt \<notin> kv h ` E"
    using assms(2) by (auto simp: is_entry_def split: if_splits)
  have un: "c = old" if "c \<in> E" "kv h c = tgt" for c
    using entry_unique [OF assms(1) _ assms(2)] entry_some [OF assms(1) that(1)] that(2) by auto
  show ?thesis
    using nz old un unfolding is_entry_def assms(3)
    by (cases "b = 0"; cases "tgt' = tgt") (auto split: if_splits)
qed

lemma lookup_insert:
  assumes rep: "rep h t E" and a: "a \<notin> E" "keyed h a" "card E < 2 ^ 31"
    and run: "ins h t a = Some (old, h', t')" and key: "ck_valid key"
  shows "lookup h' t' key hash =
    (if (hash, ck_bytes key) = kv h a then Some a else lookup h t key hash)"
proof -
  have r: "is_entry h E (kv h a) old" "rep h' t' (insert a (E - {old}))" "kv h' = kv h"
    using insert_law [OF rep a] run by (auto dest: hash_only_views)
  obtain b where b: "lookup h t key hash = Some b" "is_entry h E (hash, ck_bytes key) b"
    using lookup_law [OF rep key] by blast
  have "is_entry h' (insert a (E - {old})) (hash, ck_bytes key)
      (if (hash, ck_bytes key) = kv h a then a else b)"
    using b(2) by (subst entry_insert [OF rep a(1,2) r(1,3)]) simp
  from lookup_entry [OF r(2) key this] b(1) show ?thesis by simp
qed

lemma lookup_remove:
  assumes rep: "rep h t E" and run: "rem h t key hash = Some (old, h', t')"
    and key: "ck_valid key" "ck_valid key'"
  shows "lookup h t key hash = Some old"
    and "lookup h' t' key' hash' =
      (if (hash', ck_bytes key') = (hash, ck_bytes key) then Some 0 else lookup h t key' hash')"
proof -
  have r: "is_entry h E (hash, ck_bytes key) old" "rep h' t' (E - {old})" "kv h' = kv h"
    using remove_law [OF rep key(1), of hash] run by (auto dest: hash_only_views)
  show "lookup h t key hash = Some old" by (rule lookup_entry [OF rep key(1) r(1)])
  obtain b where b: "lookup h t key' hash' = Some b" "is_entry h E (hash', ck_bytes key') b"
    using lookup_law [OF rep key(2)] by blast
  have "is_entry h' (E - {old}) (hash', ck_bytes key')
      (if (hash', ck_bytes key') = (hash, ck_bytes key) then 0 else b)"
    using b(2) by (subst entry_remove [OF rep r(1,3)]) simp
  from lookup_entry [OF r(2) key(2) this] b(1)
  show "lookup h' t' key' hash' =
      (if (hash', ck_bytes key') = (hash, ck_bytes key) then Some 0 else lookup h t key' hash')"
    by simp
qed

end

lemma table_rep_cong:
  assumes "table_rep h t E" "\<And>a. a \<in> E \<Longrightarrow> nh h' a = nh h a \<and> kv h' a = kv h a \<and> keyed h' a"
  shows "table_rep h' t E"
proof -
  obtain bs where bs: "table_ok h t bs" "E = set (concat bs)"
    using assms(1) by (auto simp: table_rep_def)
  have sub: "a \<in> E" if "i < length bs" "a \<in> set (bs ! i)" for i a
    using that bs(2) by (auto intro!: bexI [of _ "bs ! i"])
  have hs: "hs h' a = hs h a" if "a \<in> E" for a using assms(2) [OF that] by (simp add: kv_def)
  have "cseg (nh h') p (bs ! i) 0 = cseg (nh h) p (bs ! i) 0" if "i < length bs" for p i
    using assms(2) sub [OF that] by (intro cseg_cong) blast
  then have "chains_ok h' (t_length t) (t_list t) bs"
    using bs(1) sub hs by (auto simp: table_ok_def table_core_def chains_ok_def)
  moreover have "inj_on (kv h') E"
    using bs assms(2) inj_on_cong [of E "kv h'" "kv h"] by (auto simp: table_ok_def table_core_def)
  moreover have "\<forall>a \<in> E. keyed h' a" using assms(2) by blast
  ultimately have "table_ok h' t bs" using bs by (auto simp: table_ok_def table_core_def)
  with bs(2) show ?thesis by (auto simp: table_rep_def)
qed

interpretation tbl: entry_table table_rep table_lookup table_insert table_remove
proof
  fix h :: "'v lru_heap" and t E
  assume rep: "table_rep h t E"
  then obtain bs where bs: "table_ok h t bs" "E = set (concat bs)" by (auto simp: table_rep_def)
  then show "inj_on (kv h) E" "finite E" and "\<And>a. a \<in> E \<Longrightarrow> keyed h a"
    by (auto simp: table_ok_def table_core_def)
  show "\<And>h'. (\<And>a. a \<in> E \<Longrightarrow> nh h' a = nh h a \<and> kv h' a = kv h a \<and> keyed h' a) \<Longrightarrow> table_rep h' t E"
    using table_rep_cong [OF rep] .
  show "\<exists>a. table_lookup h t key hash = Some a \<and> is_entry h E (hash, ck_bytes key) a"
    if "ck_valid key" for key hash
    by (rule table_lookup_spec [OF rep that]) blast
  show "\<exists>old h' t'. table_insert h t a = Some (old, h', t') \<and> is_entry h E (kv h a) old \<and>
      table_rep h' t' (insert a (E - {old})) \<and> hash_only (insert a E) h h'"
    if "a \<notin> E" "keyed h a" "card E < 2 ^ 31" for a
    by (rule table_insert_spec [OF rep that]) blast
  show "\<exists>a h' t'. table_remove h t key hash = Some (a, h', t') \<and>
      is_entry h E (hash, ck_bytes key) a \<and> table_rep h' t' (E - {a}) \<and> hash_only E h h'"
    if "ck_valid key" for key hash
    by (rule table_remove_spec [OF rep that]) blast
qed



subsection \<open>Properties\<close>

lemma new_length_loop_diverges:
  assumes "new_length_loop elems n = Some r"
  shows "n \<in> insert 0 ((^) 2 ` {..<32}) \<longrightarrow> elems \<le> 2 ^ 31"
  using assms
proof (induction elems n r rule: new_length_loop.raw_induct [rotated 1, consumes 1])
  case (1 f elems n r)
  show ?case
  proof (intro impI)
    assume n: "n \<in> insert 0 ((^) 2 ` {..<32})"
    have dbl: "n * 2 \<in> insert 0 ((^) 2 ` {..<32})"
    proof (cases "n = 0 \<or> n = 2 ^ 31")
      case False
      then obtain k where k: "n = 2 ^ k" "k < 32" using n by auto
      have "k \<noteq> 31" using False k(1) by auto
      moreover from k have "n * 2 = 2 ^ Suc k" by simp
      ultimately show ?thesis using k(2) by (intro insertI2 image_eqI [of _ _ "Suc k"]) auto
    qed auto
    show "elems \<le> 2 ^ 31"
    proof (cases "n < elems")
      case True
      with 1(2) have "f elems (n * 2) = Some r" by simp
      from 1(1) [OF this] dbl show ?thesis by blast
    next
      case False
      have "(2::nat) ^ k \<le> 2 ^ 31" if "k < 32" for k using that by (intro power_increasing) auto
      then have "n \<le> 2 ^ 31" using n by (auto simp: word_le_nat_alt unat_2p)
      with False show ?thesis by simp
    qed
  qed
qed

lemma empty_table_rep: "table_rep h empty_table {}"
proof -
  have "table_ok h empty_table [[], [], [], []]"
    by (auto simp: table_ok_def table_core_def chains_ok_def empty_table_def less_Suc_eq
        numeral_eq_Suc intro!: exI [of _ 2])
  then show ?thesis unfolding table_rep_def by (intro exI [of _ "[[], [], [], []]"]) simp
qed

lemma one_table_rep: "table_rep [1 \<mapsto> demo_cell [65]] one_table {1}"
proof -
  have "table_ok [1 \<mapsto> demo_cell [65]] one_table [[], [1], [], []]"
    by (auto simp: table_ok_def table_core_def chains_ok_def one_table_def demo_cell_def All_less_Suc
        keyed_def nx_def ky_def kv_def hs_def nh_def ck_valid_def ck_bytes_def bucket_of_def intro!: exI [of _ 2])
  then show ?thesis unfolding table_rep_def by (intro exI [of _ "[[], [1], [], []]"]) simp
qed

text \<open>
  C11. Inserting a cell that is not in the table returns the entry that had its hash and
  key before, or nullptr; afterwards a lookup of that hash and key finds the new cell, and
  every other lookup is unchanged.  The table then holds the new cell in place of the old
  one, whether or not the insertion made it grow and rehash.
\<close>

theorem table_insert_lookup:
  assumes "table_rep h t E" "a \<notin> E" "keyed h a" "card E < 2 ^ 31" "ck_valid key"
  shows "\<exists>old h' t'. table_insert h t a = Some (old, h', t') \<and>
    table_lookup h t (ky h a) (hs h a) = Some old \<and>
    table_rep h' t' (insert a (E - {old})) \<and> hash_only (insert a E) h h' \<and>
    table_lookup h' t' key hash =
      (if (hash, ck_bytes key) = kv h a then Some a else table_lookup h t key hash)"
proof -
  obtain old h' t' where r: "table_insert h t a = Some (old, h', t')" "is_entry h E (kv h a) old"
    "table_rep h' t' (insert a (E - {old}))" "hash_only (insert a E) h h'"
    using tbl.insert_law [OF assms(1-4)] by blast
  have "table_lookup h t (ky h a) (hs h a) = Some old"
    using tbl.lookup_entry [OF assms(1)] assms(3) r(2) by (simp add: kv_def keyed_def)
  with r tbl.lookup_insert [OF assms(1-4) r(1) assms(5)] show ?thesis by blast
qed

theorem table_insert_lookup_witness:
  "\<exists>old h' t'. table_insert [1 \<mapsto> demo_cell [65, 66]] empty_table 1 = Some (old, h', t') \<and>
    table_lookup [1 \<mapsto> demo_cell [65, 66]] empty_table (ck_of_string [65, 66]) 5 = Some old \<and>
    table_rep h' t' (insert 1 ({} - {old})) \<and>
    table_lookup h' t' (ck_of_string [65, 66]) 5 = Some 1"
proof -
  let ?h = "[1 \<mapsto> demo_cell [65, 66]]"
  have k: "ky ?h 1 = ck_of_string [65, 66]" "hs ?h 1 = 5"
    by (auto simp: ky_def hs_def demo_cell_def ck_of_string_def)
  moreover have "keyed ?h 1" by (simp only: keyed_def k(1)) (simp add: demo_cell_def nx_def)
  ultimately show ?thesis
    using table_insert_lookup [OF empty_table_rep, of 1 ?h "ck_of_string [65, 66]" 5]
    by (auto simp: kv_def)
qed

text \<open>
  C12. Removing a hash and key returns the entry a lookup would have found, or nullptr;
  afterwards a lookup of that hash and key finds nothing, every other lookup is unchanged,
  and the table holds the other entries.
\<close>

theorem table_remove_lookup:
  assumes "table_rep h t E" "ck_valid key" "ck_valid key'"
  shows "\<exists>old h' t'. table_remove h t key hash = Some (old, h', t') \<and>
    table_lookup h t key hash = Some old \<and>
    table_rep h' t' (E - {old}) \<and> hash_only E h h' \<and>
    table_lookup h' t' key' hash' =
      (if (hash', ck_bytes key') = (hash, ck_bytes key) then Some 0 else table_lookup h t key' hash')"
proof -
  obtain old h' t' where r: "table_remove h t key hash = Some (old, h', t')"
    "table_rep h' t' (E - {old})" "hash_only E h h'"
    using tbl.remove_law [OF assms(1,2)] by blast
  with tbl.lookup_remove [OF assms(1) r(1) assms(2,3)] show ?thesis by blast
qed

theorem table_remove_lookup_witness:
  "\<exists>h' t'. table_remove [1 \<mapsto> demo_cell [65]] one_table (ck_of_string [65]) 5 = Some (1, h', t') \<and>
    table_rep h' t' {} \<and> table_lookup h' t' (ck_of_string [65]) 5 = Some 0"
proof -
  let ?h = "[1 \<mapsto> demo_cell [65]]"
  have k: "kv ?h 1 = (5, [65])" by (simp add: kv_def hs_def ky_def demo_cell_def ck_bytes_def)
  obtain old h' t' where r: "table_remove ?h one_table (ck_of_string [65]) 5 = Some (old, h', t')"
    "table_lookup ?h one_table (ck_of_string [65]) 5 = Some old" "table_rep h' t' ({1} - {old})"
    "table_lookup h' t' (ck_of_string [65]) 5 = Some 0"
    using table_remove_lookup [OF one_table_rep, of "ck_of_string [65]" "ck_of_string [65]" 5 5]
    by (simp only: ck_of_string_valid list.size) auto
  moreover have "old = 1"
  proof -
    have v: "ck_valid (ck_of_string [65])" by simp
    obtain a where a: "table_lookup ?h one_table (ck_of_string [65]) 5 = Some a"
      "is_entry ?h {1} (5, ck_bytes (ck_of_string [65])) a"
      by (rule table_lookup_spec [OF one_table_rep v])
    have "a = 1" using a(2) k by (cases "a = 0") (simp_all add: is_entry_def)
    then show ?thesis using a(1) r(2) by simp
  qed
  ultimately show ?thesis by simp
qed

text \<open>
  C21. The loop of HandleTable::\_resize that doubles the new length ends exactly when
  the table has at most 2 to the 31 entries: above, the 32-bit length wraps to 0 and the
  loop never ends.  Whatever it ends with is a power of two that holds the entries.
\<close>

theorem new_length_terminates:
  "(new_length_loop elems 4 = None \<longleftrightarrow> 2 ^ 31 < elems) \<and>
   (elems \<le> 2 ^ 31 \<longleftrightarrow> (\<exists>k < 32. new_length_loop elems 4 = Some (2 ^ k) \<and> elems \<le> 2 ^ k))"
proof -
  have four: "(4 :: u32) \<in> insert 0 ((^) 2 ` {..<32})"
    by (intro insertI2 image_eqI [of _ _ 2]) auto
  have div: "elems \<le> 2 ^ 31" if "new_length_loop elems 4 = Some r" for r
    using new_length_loop_diverges [OF that] four by blast
  have ret: "\<exists>k < 32. new_length_loop elems 4 = Some (2 ^ k) \<and> elems \<le> 2 ^ k" if "elems \<le> 2 ^ 31"
    using new_length_loop_spec [of 2 elems] that by auto
  show ?thesis
    using div ret by (cases "new_length_loop elems 4") (auto simp: not_le [symmetric])
qed

end
