(* ===== verification/LruCache.thy ===== *)
theory LruCache
  imports HandleTable
begin

text \<open>
  One shard of the cache (class LRUCache of src/modules/lru_cache/lru_cache.hh and
  lru_cache.cc).  Every operation runs under the shard's mutex up to the calls of the
  deleters, so an operation is one step on the world (heap and log of deleter calls) and
  the members of the shard.  A failed DCHECK, an access through a null or dangling pointer
  and a loop that does not end are the value None.  The address that malloc returns is an
  argument of insert, with the contents of next\_hash it leaves behind.
\<close>

record lru_cache =
  lc_capacity :: u64
  lc_usage :: u64
  lc_last_id :: u64
  lc_lru :: addr
  lc_table :: handle_table
  lc_lookup_count :: u64
  lc_hit_count :: u64

text \<open>
  LRUCache::LRUCache() with the dummy head at address d; junk is the content of the fields
  of the head that the constructor leaves alone.
\<close>

definition lru_cache_new ::
  "'v world \<Rightarrow> addr \<Rightarrow> 'v lru_handle \<Rightarrow> ('v world \<times> lru_cache) option" where
  "lru_cache_new w d junk =
     do { guard (d \<noteq> 0 \<and> heap w d = None);
          (h, t) \<leftarrow> table_new ((heap w)(d \<mapsto> junk\<lparr>h_next := d, h_prev := d\<rparr>));
          Some (w\<lparr>heap := h\<rparr>,
                \<lparr>lc_capacity = 0, lc_usage = 0, lc_last_id = 0, lc_lru = d, lc_table = t,
                 lc_lookup_count = 0, lc_hit_count = 0\<rparr>) }"

definition lru_lookup ::
  "'v world \<Rightarrow> lru_cache \<Rightarrow> cache_key \<Rightarrow> u32 \<Rightarrow> (addr \<times> 'v world \<times> lru_cache) option" where
  "lru_lookup w c key hash =
     do { let c = c\<lparr>lc_lookup_count := lc_lookup_count c + 1\<rparr>;
          a \<leftarrow> table_lookup (heap w) (lc_table c) key hash;
          if a \<noteq> 0
          then do { e \<leftarrow> heap w a;
                    guard (h_in_cache e);
                    h \<leftarrow> (if h_refs e = 1 then lru_remove (heap w) a else Some (heap w));
                    h \<leftarrow> upd_cell h a (\<lambda>e. e\<lparr>h_refs := h_refs e + 1\<rparr>);
                    Some (a, w\<lparr>heap := h\<rparr>, c\<lparr>lc_hit_count := lc_hit_count c + 1\<rparr>) }
          else Some (0, w, c) }"

definition lru_release :: "'v world \<Rightarrow> lru_cache \<Rightarrow> addr \<Rightarrow> ('v world \<times> lru_cache) option" where
  "lru_release w c a =
     (if a = 0 then Some (w, c)
      else do {
        (last_ref, h) \<leftarrow> unref (heap w) a;
        e \<leftarrow> h a;
        (last_ref, h, c) \<leftarrow>
          (if last_ref then Some (True, h, c\<lparr>lc_usage := lc_usage c - h_charge e\<rparr>)
           else if h_in_cache e \<and> h_refs e = 1 then
             if lc_usage c > lc_capacity c then
               do { k \<leftarrow> handle_key a e;
                    (_, h, t) \<leftarrow> table_remove h (lc_table c) k (h_hash e);
                    h \<leftarrow> upd_cell h a (\<lambda>e. e\<lparr>h_in_cache := False\<rparr>);
                    (_, h) \<leftarrow> unref h a;
                    Some (True, h, c\<lparr>lc_table := t, lc_usage := lc_usage c - h_charge e\<rparr>) }
             else do { h \<leftarrow> lru_append h (lc_lru c) a; Some (False, h, c) }
           else Some (False, h, c));
        if last_ref then do { w \<leftarrow> handle_free (w\<lparr>heap := h\<rparr>) a; Some (w, c) }
        else Some (w\<lparr>heap := h\<rparr>, c) })"

definition evict_one_entry ::
  "'v lru_heap \<Rightarrow> lru_cache \<Rightarrow> addr \<Rightarrow> ('v lru_heap \<times> lru_cache) option" where
  "evict_one_entry h c a =
     do { e \<leftarrow> h a;
          guard (h_in_cache e);
          guard (h_refs e = 1);
          h \<leftarrow> lru_remove h a;
          e \<leftarrow> h a;
          k \<leftarrow> handle_key a e;
          (_, h, t) \<leftarrow> table_remove h (lc_table c) k (h_hash e);
          h \<leftarrow> upd_cell h a (\<lambda>e. e\<lparr>h_in_cache := False\<rparr>);
          (_, h) \<leftarrow> unref h a;
          e \<leftarrow> h a;
          Some (h, c\<lparr>lc_table := t, lc_usage := lc_usage c - h_charge e\<rparr>) }"

text \<open>The two loops of \_evict\_from\_lru; deleted collects the evicted handles.\<close>

partial_function (option) evict_normal ::
  "'v lru_heap \<Rightarrow> lru_cache \<Rightarrow> u64 \<Rightarrow> addr \<Rightarrow> addr list \<Rightarrow> ('v lru_heap \<times> lru_cache \<times> addr list) option" where
  "evict_normal h c charge cur deleted =
     (if lc_usage c + charge > lc_capacity c
      then do { e \<leftarrow> h cur;
                if h_next e \<noteq> lc_lru c
                then do { let old = h_next e;
                          oe \<leftarrow> h old;
                          if h_priority oe = DURABLE then evict_normal h c charge old deleted
                          else do { (h, c) \<leftarrow> evict_one_entry h c old;
                                    evict_normal h c charge cur (deleted @ [old]) } }
                else Some (h, c, deleted) }
      else Some (h, c, deleted))"

partial_function (option) evict_durable ::
  "'v lru_heap \<Rightarrow> lru_cache \<Rightarrow> u64 \<Rightarrow> addr list \<Rightarrow> ('v lru_heap \<times> lru_cache \<times> addr list) option" where
  "evict_durable h c charge deleted =
     (if lc_usage c + charge > lc_capacity c
      then do { e \<leftarrow> h (lc_lru c);
                if h_next e \<noteq> lc_lru c
                then do { let old = h_next e;
                          oe \<leftarrow> h old;
                          guard (h_priority oe = DURABLE);
                          (h, c) \<leftarrow> evict_one_entry h c old;
                          evict_durable h c charge (deleted @ [old]) }
                else Some (h, c, deleted) }
      else Some (h, c, deleted))"

definition evict_from_lru ::
  "'v lru_heap \<Rightarrow> lru_cache \<Rightarrow> u64 \<Rightarrow> ('v lru_heap \<times> lru_cache \<times> addr list) option" where
  "evict_from_lru h c charge =
     do { (h, c, deleted) \<leftarrow> evict_normal h c charge (lc_lru c) [];
          evict_durable h c charge deleted }"

definition lru_set_capacity :: "'v world \<Rightarrow> lru_cache \<Rightarrow> u64 \<Rightarrow> ('v world \<times> lru_cache) option" where
  "lru_set_capacity w c capacity =
     do { (h, c, last_ref_list) \<leftarrow> evict_from_lru (heap w) (c\<lparr>lc_capacity := capacity\<rparr>) 0;
          w \<leftarrow> free_all (w\<lparr>heap := h\<rparr>) last_ref_list;
          Some (w, c) }"

definition new_handle ::
  "addr \<Rightarrow> cache_key \<Rightarrow> u32 \<Rightarrow> 'v \<Rightarrow> u64 \<Rightarrow> nat \<Rightarrow> CachePriority \<Rightarrow> 'v lru_handle" where
  "new_handle junk key hash value charge deleter priority =
     \<lparr>h_value = value, h_deleter = deleter, h_next_hash = junk, h_next = 0, h_prev = 0,
      h_charge = charge, h_key_length = ck_size key, h_in_cache = True, h_refs = 2,
      h_hash = hash, h_priority = priority, h_key_data = ck_bytes key\<rparr>"

text \<open>The part of insert that puts the new handle into the table and retires the old one.\<close>

definition insert_entry ::
  "'v lru_heap \<Rightarrow> lru_cache \<Rightarrow> addr \<Rightarrow> u64 \<Rightarrow> addr list \<Rightarrow> ('v lru_heap \<times> lru_cache \<times> addr list) option" where
  "insert_entry h c a charge last_ref_list =
     do { (old, h, t) \<leftarrow> table_insert h (lc_table c) a;
          let c = c\<lparr>lc_table := t, lc_usage := lc_usage c + charge\<rparr>;
          if old \<noteq> 0
          then do { h \<leftarrow> upd_cell h old (\<lambda>e. e\<lparr>h_in_cache := False\<rparr>);
                    (last_ref, h) \<leftarrow> unref h old;
                    if last_ref
                    then do { e \<leftarrow> h old;
                              h \<leftarrow> lru_remove h old;
                              Some (h, c\<lparr>lc_usage := lc_usage c - h_charge e\<rparr>,
                                    last_ref_list @ [old]) }
                    else Some (h, c, last_ref_list) }
          else Some (h, c, last_ref_list) }"

definition lru_insert ::
  "'v world \<Rightarrow> lru_cache \<Rightarrow> addr \<Rightarrow> addr \<Rightarrow> cache_key \<Rightarrow> u32 \<Rightarrow> 'v \<Rightarrow> u64 \<Rightarrow> nat \<Rightarrow> CachePriority \<Rightarrow>
     (addr \<times> 'v world \<times> lru_cache) option" where
  "lru_insert w c a junk key hash value charge deleter priority =
     do { guard (a \<noteq> 0 \<and> heap w a = None \<and> ck_valid key);
          let h = (heap w)(a \<mapsto> new_handle junk key hash value charge deleter priority);
          (h, c, last_ref_list) \<leftarrow> evict_from_lru h c charge;
          (h, c, last_ref_list) \<leftarrow> insert_entry h c a charge last_ref_list;
          w \<leftarrow> free_all (w\<lparr>heap := h\<rparr>) last_ref_list;
          Some (a, w, c) }"

definition lru_erase ::
  "'v world \<Rightarrow> lru_cache \<Rightarrow> cache_key \<Rightarrow> u32 \<Rightarrow> ('v world \<times> lru_cache) option" where
  "lru_erase w c key hash =
     do { (a, h, t) \<leftarrow> table_remove (heap w) (lc_table c) key hash;
          let c = c\<lparr>lc_table := t\<rparr>;
          (last_ref, h, c) \<leftarrow>
            (if a \<noteq> 0
             then do { (last_ref, h) \<leftarrow> unref h a;
                       e \<leftarrow> h a;
                       (h, c) \<leftarrow>
                         (if last_ref
                          then do { h \<leftarrow> (if h_in_cache e then lru_remove h a else Some h);
                                    Some (h, c\<lparr>lc_usage := lc_usage c - h_charge e\<rparr>) }
                          else Some (h, c));
                       h \<leftarrow> upd_cell h a (\<lambda>e. e\<lparr>h_in_cache := False\<rparr>);
                       Some (last_ref, h, c) }
             else Some (False, h, c));
          if last_ref then do { w \<leftarrow> handle_free (w\<lparr>heap := h\<rparr>) a; Some (w, c) }
          else Some (w\<lparr>heap := h\<rparr>, c) }"

text \<open>The loop of prune repeats the statements of \_evict\_one\_entry in its body.\<close>

partial_function (option) prune_loop ::
  "'v lru_heap \<Rightarrow> lru_cache \<Rightarrow> addr list \<Rightarrow> ('v lru_heap \<times> lru_cache \<times> addr list) option" where
  "prune_loop h c deleted =
     do { e \<leftarrow> h (lc_lru c);
          if h_next e \<noteq> lc_lru c
          then do { let old = h_next e;
                    (h, c) \<leftarrow> evict_one_entry h c old;
                    prune_loop h c (deleted @ [old]) }
          else Some (h, c, deleted) }"

definition lru_prune :: "'v world \<Rightarrow> lru_cache \<Rightarrow> (32 word \<times> 'v world \<times> lru_cache) option" where
  "lru_prune w c =
     do { (h, c, last_ref_list) \<leftarrow> prune_loop (heap w) c [];
          w \<leftarrow> free_all (w\<lparr>heap := h\<rparr>) last_ref_list;
          Some (of_nat (length last_ref_list), w, c) }"

text \<open>LRUCache::~LRUCache().\<close>

definition lru_cache_delete :: "'v world \<Rightarrow> lru_cache \<Rightarrow> ('v world \<times> lru_cache) option" where
  "lru_cache_delete w c = do { (_, w, c) \<leftarrow> lru_prune w c; Some (w, c) }"

section \<open>Invariant\<close>

text \<open>
  Ghost state: xs is the content of the LRU list, oldest first; E the set of entries of the
  table; held a the number of references the clients have to the handle a.  The shard owns
  the entries and the handles that are held.  The reference count of a handle is what the
  clients hold plus one while it is in the cache; the LRU list has exactly the entries that
  nobody holds; a handle off the list has null links; and the usage is the sum of the
  charges of what the shard owns.
\<close>

definition owned :: "addr set \<Rightarrow> (addr \<Rightarrow> nat) \<Rightarrow> addr set" where
  "owned E held = E \<union> {a. held a > 0}"

definition links_ok :: "'v lru_heap \<Rightarrow> addr \<Rightarrow> addr list \<Rightarrow> addr set \<Rightarrow> bool" where
  "links_ok h d xs own \<longleftrightarrow>
     dll h d xs \<and> set xs \<subseteq> own \<and> d \<notin> own \<and> 0 \<notin> own \<and> own \<subseteq> dom h \<and>
     (\<forall>a \<in> own - set xs. nx h a = 0 \<and> pv h a = 0)"

definition counts_ok :: "'v lru_heap \<Rightarrow> addr set \<Rightarrow> (addr \<Rightarrow> nat) \<Rightarrow> bool" where
  "counts_ok h E held \<longleftrightarrow>
     finite (owned E held) \<and>
     (\<forall>a \<in> owned E held. ck_valid (ky h a) \<and> unat (rf h a) = held a + of_bool (a \<in> E) \<and>
        ic h a = (a \<in> E))"

definition cache_inv ::
  "'v lru_heap \<Rightarrow> lru_cache \<Rightarrow> addr list \<Rightarrow> addr set \<Rightarrow> (addr \<Rightarrow> nat) \<Rightarrow> bool" where
  "cache_inv h c xs E held \<longleftrightarrow>
     links_ok h (lc_lru c) xs (owned E held) \<and> set xs = {a \<in> E. held a = 0} \<and>
     table_rep h (lc_table c) E \<and> counts_ok h E held \<and>
     lc_usage c = (\<Sum>a \<in> owned E held. ch h a)"

text \<open>The fields the cache never changes once a handle is made.\<close>

definition strip_meta :: "'v lru_handle \<Rightarrow> 'v lru_handle" where
  "strip_meta e = e\<lparr>h_next_hash := 0, h_next := 0, h_prev := 0, h_in_cache := False, h_refs := 0\<rparr>"

abbreviation meta_only :: "addr set \<Rightarrow> 'v lru_heap \<Rightarrow> 'v lru_heap \<Rightarrow> bool" where
  "meta_only \<equiv> agree strip_meta"

text \<open>The deleter call that frees a handle.\<close>

definition call_of :: "'v lru_heap \<Rightarrow> addr \<Rightarrow> nat \<times> cache_key \<times> 'v" where
  "call_of h a = (h_deleter (the (h a)), ky h a, vl h a)"

text \<open>
  What an operation may do to the heap: nothing outside A, and the cells that are still
  there afterwards keep their key, value, charge, priority and deleter.
\<close>

definition keeps :: "addr set \<Rightarrow> 'v lru_heap \<Rightarrow> 'v lru_heap \<Rightarrow> bool" where
  "keeps A h h' \<longleftrightarrow>
     (\<forall>a. a \<notin> A \<longrightarrow> h' a = h a) \<and>
     (\<forall>a e'. h' a = Some e' \<longrightarrow> (\<exists>e. h a = Some e \<and> strip_meta e' = strip_meta e))"

text \<open>A handle that has left the cache and waits for its deleter.\<close>

definition dead :: "'v lru_heap \<Rightarrow> addr \<Rightarrow> bool" where
  "dead h a \<longleftrightarrow> a \<in> dom h \<and> a \<noteq> 0 \<and> nx h a = 0"

text \<open>
  The eviction policy on the list alone: one pass that evicts the eligible entries, oldest
  first, while the usage is too high.  It yields what stays, what goes and the new usage.
\<close>

fun evict_pass ::
  "(addr \<Rightarrow> bool) \<Rightarrow> (addr \<Rightarrow> u64) \<Rightarrow> u64 \<Rightarrow> u64 \<Rightarrow> u64 \<Rightarrow> addr list \<Rightarrow> addr list \<times> addr list \<times> u64" where
  "evict_pass eligible chg capacity charge usage [] = ([], [], usage)"
| "evict_pass eligible chg capacity charge usage (x # xs) =
     (if usage + charge > capacity
      then if eligible x
           then let (ks, es, u) = evict_pass eligible chg capacity charge (usage - chg x) xs
                in (ks, x # es, u)
           else let (ks, es, u) = evict_pass eligible chg capacity charge usage xs
                in (x # ks, es, u)
      else (x # xs, [], usage))"

definition evict_plan ::
  "(addr \<Rightarrow> CachePriority) \<Rightarrow> (addr \<Rightarrow> u64) \<Rightarrow> u64 \<Rightarrow> u64 \<Rightarrow> u64 \<Rightarrow> addr list \<Rightarrow> addr list \<times> addr list \<times> u64" where
  "evict_plan prio chg capacity charge usage xs =
     (let (ks, es, u) = evict_pass (\<lambda>a. prio a \<noteq> DURABLE) chg capacity charge usage xs;
          (ks', es', u') = evict_pass (\<lambda>_. True) chg capacity charge u ks
      in (ks', es @ es', u'))"

text \<open>The members that eviction leaves alone.\<close>

definition same_members :: "lru_cache \<Rightarrow> lru_cache \<Rightarrow> bool" where
  "same_members c c' \<longleftrightarrow>
     c' = c\<lparr>lc_table := lc_table c', lc_usage := lc_usage c'\<rparr>"

text \<open>
  The handles es have been evicted from the shard: they are out of the table and the list,
  nobody holds them, and they wait for their deleters.
\<close>

definition evicted ::
  "'v lru_heap \<Rightarrow> lru_cache \<Rightarrow> addr set \<Rightarrow> (addr \<Rightarrow> nat) \<Rightarrow> addr list \<Rightarrow> addr list \<Rightarrow> 'v lru_heap \<Rightarrow> lru_cache \<Rightarrow> bool" where
  "evicted h c E held ks es h' c' \<longleftrightarrow>
     cache_inv h' c' ks (E - set es) held \<and> meta_only (insert (lc_lru c) (owned E held)) h h' \<and>
     same_members c c' \<and> distinct es \<and>
     (\<forall>a \<in> set es. dead h' a \<and> a \<in> E \<and> held a = 0 \<and> a \<noteq> lc_lru c)"

section \<open>Frames\<close>

lemma strip_meta_of_links: "strip_links e' = strip_links e \<Longrightarrow> strip_meta e' = strip_meta e"
  by (cases e; cases e') (simp add: strip_links_def strip_meta_def)

lemma strip_meta_of_hash: "strip_hash e' = strip_hash e \<Longrightarrow> strip_meta e' = strip_meta e"
  by (cases e; cases e') (simp add: strip_hash_def strip_meta_def)

lemma agree_weaken:
  assumes "agree f A h h'" "\<And>e e'. f e' = f e \<Longrightarrow> g e' = g e"
  shows "agree g A h h'"
proof -
  have "map_option g (h' a) = map_option g (h a)" for a
    using agree_cell [OF assms(1), of a]
  proof (elim disjE exE conjE)
    fix e e' assume "h a = Some e" "h' a = Some e'" "f e' = f e"
    with assms(2) [of e' e] show ?thesis by simp
  qed simp
  then show ?thesis using agree_outside [OF assms(1)] by (simp add: agree_def)
qed

lemma links_meta: "links_only A h h' \<Longrightarrow> meta_only A h h'"
  by (erule agree_weaken) (rule strip_meta_of_links)

lemma hash_meta: "hash_only A h h' \<Longrightarrow> meta_only A h h'"
  by (erule agree_weaken) (rule strip_meta_of_hash)

lemma strip_meta_eq:
  assumes "strip_meta e' = strip_meta e"
  shows "h_charge e' = h_charge e" "h_priority e' = h_priority e" "h_hash e' = h_hash e"
    "h_value e' = h_value e" "h_key_data e' = h_key_data e" "h_key_length e' = h_key_length e"
    "h_deleter e' = h_deleter e"
  using assms by (cases e; cases e'; simp add: strip_meta_def)+

lemma meta_only_views:
  assumes "meta_only A h h'"
  shows "ch h' = ch h" "pr h' = pr h" "hs h' = hs h" "vl h' = vl h" "ky h' = ky h" "kv h' = kv h"
proof -
  have "ch h' a = ch h a \<and> pr h' a = pr h a \<and> hs h' a = hs h a \<and> vl h' a = vl h a \<and> ky h' a = ky h a" for a
    using agree_cell [OF assms, of a]
    by (auto simp: ch_def pr_def hs_def vl_def ky_def dest: strip_meta_eq)
  then show "ch h' = ch h" "pr h' = pr h" "hs h' = hs h" "vl h' = vl h" "ky h' = ky h" "kv h' = kv h"
    by (simp_all add: fun_eq_iff kv_def)
qed

lemma dll_views: "nx h' = nx h \<Longrightarrow> pv h' = pv h \<Longrightarrow> dom h' = dom h \<Longrightarrow> dll h' d xs = dll h d xs"
  by (simp add: dll_def)

lemma table_rep_views:
  fixes h h' :: "'v lru_heap"
  assumes "table_rep h t E" "nh h' = nh h" "kv h' = kv h" "ky h' = ky h" "dom h' = dom h"
    and "\<And>a. a \<in> E \<Longrightarrow> nx h' a \<noteq> a"
  shows "table_rep h' t E"
proof (rule tbl.rep_cong [OF assms(1)])
  fix a assume "a \<in> E"
  with tbl.rep_keyed [OF assms(1) this] assms
  show "nh h' a = nh h a \<and> kv h' a = kv h a \<and> keyed h' a" by (simp add: keyed_def)
qed

lemma dseg_succ:
  assumes "dseg n v p xs q" "distinct (p # xs)" "a \<in> set (p # xs)" "a \<noteq> q \<or> xs \<noteq> []" "q \<notin> set xs"
  shows "n a \<noteq> a"
  using assms
proof (induction xs arbitrary: p)
  case (Cons x xs)
  show ?case
  proof (cases "a = p")
    case True
    with Cons.prems show ?thesis by auto
  next
    case False
    then show ?thesis using Cons.prems by (intro Cons.IH [of x]) (auto)
  qed
qed auto

lemma dll_nx_neq:
  assumes "dll h d xs" "a \<in> set xs"
  shows "nx h a \<noteq> a"
proof -
  have "a \<noteq> d \<or> xs \<noteq> []" using assms(2) by auto
  then show ?thesis using assms by (intro dseg_succ [of "nx h" "pv h" d xs d]) (auto simp: dll_def)
qed

subsection \<open>The list aspect\<close>

lemma links_ok_nx:
  assumes "links_ok h d xs own" "a \<in> own"
  shows "nx h a \<noteq> a" "a \<noteq> 0" "a \<noteq> d" "a \<in> dom h"
proof -
  show "a \<noteq> 0" "a \<noteq> d" "a \<in> dom h" using assms unfolding links_ok_def by (metis, metis, blast)
  moreover have "dll h d xs" "a \<notin> set xs \<Longrightarrow> nx h a = 0" using assms by (auto simp: links_ok_def)
  ultimately show "nx h a \<noteq> a" using dll_nx_neq [of h d xs a] by (cases "a \<in> set xs") auto
qed

lemma links_ok_views:
  "links_ok h d xs own \<Longrightarrow> nx h' = nx h \<Longrightarrow> pv h' = pv h \<Longrightarrow> dom h' = dom h \<Longrightarrow> links_ok h' d xs own"
  using dll_views [of h' h] by (simp add: links_ok_def)

lemma links_ok_shrink:
  "links_ok h d xs own \<Longrightarrow> own' \<subseteq> own \<Longrightarrow> set xs \<subseteq> own' \<Longrightarrow> links_ok h d xs own'"
  unfolding links_ok_def by blast

lemma links_ok_same:
  assumes "links_ok h d xs own" "\<And>a. a \<in> insert d own \<Longrightarrow> h' a = h a"
  shows "links_ok h' d xs own"
proof -
  have v: "nx h' a = nx h a" "pv h' a = pv h a" if "a \<in> insert d own" for a
    using assms(2) [OF that] by (simp_all add: nx_def pv_def)
  have sub: "set (d # xs) \<subseteq> insert d own" and D: "dll h d xs"
    using assms(1) by (auto simp: links_ok_def)
  have dom: "insert d own \<subseteq> dom h'"
    using assms sub by (auto simp: links_ok_def dll_def)
  have "dseg (nx h') (pv h') d xs d"
  proof (rule dseg_cong [of "nx h" "pv h"])
    show "dseg (nx h) (pv h) d xs d" using D by (simp add: dll_def)
    show "nx h' a = nx h a" if "a \<in> set (d # xs)" for a using v(1) subsetD [OF sub that] .
    show "pv h' a = pv h a" if "a \<in> set (xs @ [d])" for a using v(2) subsetD [OF sub] that by auto
  qed
  then have "dll h' d xs" using D dom sub by (auto simp: dll_def)
  then show ?thesis using assms(1) dom v by (auto simp: links_ok_def)
qed

lemma unlink_spec:
  assumes ok: "links_ok h d xs own" and xs: "xs = us @ a # vs"
  obtains h' where "lru_remove h a = Some h'" "links_ok h' d (us @ vs) own"
    "links_only (insert d own) h h'"
proof -
  have d: "dll h d (us @ a # vs)" and sub: "set (us @ a # vs) \<subseteq> own" using ok xs by (auto simp: links_ok_def)
  obtain h' where h': "lru_remove h a = Some h'" "dll h' d (us @ vs)"
    "links_only (set (d # us @ a # vs)) h h'" "nx h' a = 0" "pv h' a = 0"
    using lru_remove_spec [OF d] .
  have off: "nx h' b = 0 \<and> pv h' b = 0" if b: "b \<in> own - set (us @ vs)" for b
  proof (cases "b = a")
    case False
    then have "b \<notin> set (d # us @ a # vs)" "b \<in> own - set xs"
      using b xs links_ok_nx(3) [OF ok, of b] by auto
    then show ?thesis using agree_outside [OF h'(3)] ok by (simp add: nx_def pv_def links_ok_def)
  qed (use h' in auto)
  have "links_ok h' d (us @ vs) own"
    using ok h'(2) sub off agree_dom [OF h'(3)] by (simp add: links_ok_def)
  moreover have "links_only (insert d own) h h'" by (rule agree_mono [OF h'(3)]) (use sub in auto)
  ultimately show ?thesis using that h'(1) by blast
qed

lemma relink_spec:
  assumes ok: "links_ok h d xs own" and a: "a \<in> own" "a \<notin> set xs"
  obtains h' where "lru_append h d a = Some h'" "links_ok h' d (xs @ [a]) own"
    "links_only (insert d own) h h'"
proof -
  have d: "dll h d xs" and sub: "set xs \<subseteq> own" using ok by (auto simp: links_ok_def)
  have "a \<notin> set (d # xs)" using a(2) links_ok_nx(3) [OF ok a(1)] by simp
  then obtain h' where h': "lru_append h d a = Some h'" "dll h' d (xs @ [a])"
    "links_only (set (d # a # xs)) h h'"
    using lru_append_spec [OF d links_ok_nx(4) [OF ok a(1)]] by blast
  have off: "nx h' b = 0 \<and> pv h' b = 0" if b: "b \<in> own - set (xs @ [a])" for b
  proof -
    have "b \<notin> set (d # a # xs)" "b \<in> own - set xs" using b links_ok_nx(3) [OF ok, of b] by auto
    then show ?thesis using agree_outside [OF h'(3)] ok by (simp add: nx_def pv_def links_ok_def)
  qed
  have "links_ok h' d (xs @ [a]) own"
    using ok h'(2) sub a(1) off agree_dom [OF h'(3)] by (simp add: links_ok_def)
  moreover have "links_only (insert d own) h h'"
    by (rule agree_mono [OF h'(3)]) (use sub a(1) in auto)
  ultimately show ?thesis using that h'(1) by blast
qed

subsection \<open>The counters\<close>

lemma counts_okD:
  assumes "counts_ok h E held" "a \<in> owned E held"
  shows "ck_valid (ky h a)" "unat (rf h a) = held a + of_bool (a \<in> E)" "ic h a = (a \<in> E)"
  using assms by (auto simp: counts_ok_def)

lemma counts_ok_step:
  assumes "counts_ok h E held" "owned E' held' \<subseteq> owned E held" "ky h' = ky h"
    and "\<And>b. b \<in> owned E' held' \<Longrightarrow> unat (rf h' b) = held' b + of_bool (b \<in> E') \<and> ic h' b = (b \<in> E')"
  shows "counts_ok h' E' held'"
proof -
  have "finite (owned E' held')" using assms(1,2) finite_subset by (auto simp: counts_ok_def)
  moreover have "ck_valid (ky h' b)" if "b \<in> owned E' held'" for b
    using that assms(1-3) by (auto simp: counts_ok_def)
  ultimately show ?thesis using assms(4) by (simp add: counts_ok_def)
qed

lemma cache_inv_keyed:
  assumes "cache_inv h c xs E held" "a \<in> owned E held"
  shows "keyed h a"
  using assms links_ok_nx [of h _ xs "owned E held" a] counts_okD [of h E held a]
  unfolding cache_inv_def keyed_def by blast

subsection \<open>How the three aspects react to the primitive steps\<close>

lemma ri_views:
  assumes "h a = Some e"
  shows "nx (h(a \<mapsto> e\<lparr>h_in_cache := i, h_refs := r\<rparr>)) = nx h"
    "pv (h(a \<mapsto> e\<lparr>h_in_cache := i, h_refs := r\<rparr>)) = pv h"
    "nh (h(a \<mapsto> e\<lparr>h_in_cache := i, h_refs := r\<rparr>)) = nh h"
    "ky (h(a \<mapsto> e\<lparr>h_in_cache := i, h_refs := r\<rparr>)) = ky h"
    "kv (h(a \<mapsto> e\<lparr>h_in_cache := i, h_refs := r\<rparr>)) = kv h"
    "rf (h(a \<mapsto> e\<lparr>h_in_cache := i, h_refs := r\<rparr>)) = (rf h)(a := r)"
    "ic (h(a \<mapsto> e\<lparr>h_in_cache := i, h_refs := r\<rparr>)) = (ic h)(a := i)"
    "dom (h(a \<mapsto> e\<lparr>h_in_cache := i, h_refs := r\<rparr>)) = dom h"
    "meta_only {a} h (h(a \<mapsto> e\<lparr>h_in_cache := i, h_refs := r\<rparr>))"
proof -
  show m: "meta_only {a} h (h(a \<mapsto> e\<lparr>h_in_cache := i, h_refs := r\<rparr>))"
    using assms by (intro agree_upd) (auto simp: strip_meta_def)
  show "dom (h(a \<mapsto> e\<lparr>h_in_cache := i, h_refs := r\<rparr>)) = dom h" using assms by auto
  show "ky (h(a \<mapsto> e\<lparr>h_in_cache := i, h_refs := r\<rparr>)) = ky h"
    "kv (h(a \<mapsto> e\<lparr>h_in_cache := i, h_refs := r\<rparr>)) = kv h"
    using meta_only_views [OF m] by blast+
qed (use view_cell [of h, OF assms] in simp_all)

lemma table_remove_entry:
  assumes "table_rep h t E" "a \<in> E"
  obtains h' t' where "table_remove h t (ky h a) (hs h a) = Some (a, h', t')"
    "table_rep h' t' (E - {a})" "hash_only E h h'"
proof -
  have k: "ck_valid (ky h a)" using tbl.rep_keyed [OF assms] by (simp add: keyed_def)
  obtain b h' t' where r: "table_remove h t (ky h a) (hs h a) = Some (b, h', t')"
    "is_entry h E (hs h a, ck_bytes (ky h a)) b" "table_rep h' t' (E - {b})" "hash_only E h h'"
    using tbl.remove_law [OF assms(1) k] by blast
  have "b = a"
    using tbl.entry_unique [OF assms(1) r(2)] tbl.entry_some(1) [OF assms] by (simp add: kv_def)
  with r that show ?thesis by simp
qed

lemma table_rep_links:
  assumes "table_rep h t E" "links_only A h h'" "links_ok h' d xs own" "E \<subseteq> own"
  shows "table_rep h' t E"
proof (rule table_rep_views [OF assms(1)])
  show "nx h' a \<noteq> a" if "a \<in> E" for a using links_ok_nx(1) [OF assms(3)] assms(4) that by blast
qed (use links_only_views [OF assms(2)] agree_dom [OF assms(2)] in auto)

lemma table_rep_ri:
  assumes "table_rep h t E" "h a = Some e"
  shows "table_rep (h(a \<mapsto> e\<lparr>h_in_cache := i, h_refs := r\<rparr>)) t E"
proof (rule table_rep_views [OF assms(1)])
  show "nx (h(a \<mapsto> e\<lparr>h_in_cache := i, h_refs := r\<rparr>)) b \<noteq> b" if "b \<in> E" for b
    using tbl.rep_keyed [OF assms(1) that] unfolding keyed_def ri_views(1) [of h, OF assms(2)] by blast
qed (rule ri_views [of h, OF assms(2)])+

lemma links_ok_hash: "links_ok h d xs own \<Longrightarrow> hash_only A h h' \<Longrightarrow> links_ok h' d xs own"
  using links_ok_views hash_only_views(1,2) agree_dom by metis

lemma links_ok_ri:
  assumes "links_ok h d xs own" "h a = Some e"
  shows "links_ok (h(a \<mapsto> e\<lparr>h_in_cache := i, h_refs := r\<rparr>)) d xs own"
  by (rule links_ok_views [OF assms(1) ri_views(1,2,8) [of h, OF assms(2)]])

lemma counts_ok_links: "counts_ok h E held \<Longrightarrow> links_only A h h' \<Longrightarrow> counts_ok h' E held"
  by (simp add: counts_ok_def links_only_views [of A h h'])

lemma counts_ok_hash: "counts_ok h E held \<Longrightarrow> hash_only A h h' \<Longrightarrow> counts_ok h' E held"
  by (simp add: counts_ok_def hash_only_views [of A h h'])

lemma counts_ok_ri:
  assumes n: "counts_ok h E held" and e: "h a = Some e" and own: "owned E' held' \<subseteq> owned E held"
    and other: "\<And>b. b \<noteq> a \<Longrightarrow> held' b = held b \<and> (b \<in> E') = (b \<in> E)"
    and self: "a \<in> owned E' held' \<Longrightarrow> unat r = held' a + of_bool (a \<in> E') \<and> i = (a \<in> E')"
  shows "counts_ok (h(a \<mapsto> e\<lparr>h_in_cache := i, h_refs := r\<rparr>)) E' held'"
proof (rule counts_ok_step [OF n own])
  note v = ri_views [of h, OF e]
  show "ky (h(a \<mapsto> e\<lparr>h_in_cache := i, h_refs := r\<rparr>)) = ky h" by (rule v)
  fix b assume b: "b \<in> owned E' held'"
  show "unat (rf (h(a \<mapsto> e\<lparr>h_in_cache := i, h_refs := r\<rparr>)) b) = held' b + of_bool (b \<in> E') \<and>
      ic (h(a \<mapsto> e\<lparr>h_in_cache := i, h_refs := r\<rparr>)) b = (b \<in> E')"
  proof (cases "b = a")
    case True
    with self b show ?thesis by (simp add: v)
  next
    case False
    have "b \<in> owned E held" using b own by blast
    with counts_okD [OF n this] other [OF False] False show ?thesis by (simp add: v)
  qed
qed

lemma ri_refs: "h_in_cache e = i \<Longrightarrow> e\<lparr>h_refs := r\<rparr> = e\<lparr>h_in_cache := i, h_refs := r\<rparr>"
  by (cases e) simp

lemma ri_in_cache: "h_refs e = r \<Longrightarrow> e\<lparr>h_in_cache := i\<rparr> = e\<lparr>h_in_cache := i, h_refs := r\<rparr>"
  by (cases e) simp

lemma cache_invD:
  assumes "cache_inv h c xs E held"
  shows "links_ok h (lc_lru c) xs (owned E held)" "set xs = {a \<in> E. held a = 0}"
    "table_rep h (lc_table c) E" "counts_ok h E held" "lc_usage c = (\<Sum>a \<in> owned E held. ch h a)"
    "distinct xs" "0 \<notin> owned E held"
  using assms by (auto simp: cache_inv_def links_ok_def dll_def)

lemma unref_view:
  assumes "h a = Some e" "unat (rf h a) = Suc n"
  shows "unref h a = Some (n = 0, h(a \<mapsto> e\<lparr>h_in_cache := ic h a, h_refs := of_nat n\<rparr>))"
proof -
  have e: "h_refs e = rf h a" "h_in_cache e = ic h a" using view_cell [of h, OF assms(1)] by auto
  have "rf h a = of_nat (Suc n)" unfolding assms(2) [symmetric] by simp
  then have r: "rf h a - 1 = of_nat n" by simp
  have "rf h a > 0" "rf h a = 1 \<longleftrightarrow> n = 0" using assms(2) by (auto simp: word_gt_0 word_unat_eq_iff)
  then show ?thesis using unref_spec [of h, OF assms(1)] by (simp add: e r ri_refs [OF e(2)])
qed


section \<open>Eviction\<close>

lemma drop_inv:
  assumes l: "links_ok h' (lc_lru c) xs' own" and a: "a \<in> own" "a \<notin> set xs'" and fin: "finite own"
    and t: "table_rep h' t' E'" and n: "counts_ok h' E' held'"
    and own: "owned E' held' = own - {a}" and xs: "set xs' = {b \<in> E'. held' b = 0}"
    and u: "lc_usage c = (\<Sum>b \<in> own. ch h b)" and m: "meta_only (insert (lc_lru c) own) h h'"
  shows "cache_inv h' (c\<lparr>lc_table := t', lc_usage := lc_usage c - ch h a\<rparr>) xs' E' held'" "dead h' a"
proof -
  have "set xs' \<subseteq> own - {a}" using xs unfolding own [symmetric] by (auto simp: owned_def)
  then have "links_ok h' (lc_lru c) xs' (owned E' held')"
    unfolding own by (rule links_ok_shrink [OF l, rotated]) auto
  moreover have "lc_usage c - ch h a = (\<Sum>b \<in> owned E' held'. ch h' b)"
    using u fin a(1) by (simp add: own sum_diff1 meta_only_views(1) [OF m])
  ultimately show "cache_inv h' (c\<lparr>lc_table := t', lc_usage := lc_usage c - ch h a\<rparr>) xs' E' held'"
    using t n xs by (simp add: cache_inv_def)
  show "dead h' a" using links_ok_nx [OF l a(1)] l a by (auto simp: dead_def links_ok_def)
qed

text \<open>
  The statements that take an entry nobody holds out of the table and drop the cache's own
  reference: they are the same in \_evict\_one\_entry, prune and release.
\<close>

lemma detach_spec:
  assumes l: "links_ok h d xs (owned E held)" and t: "table_rep h t E" and n: "counts_ok h E held"
    and a: "a \<in> E" "held a = 0" and e: "h a = Some e"
  obtains k h1 t' e1 where "handle_key a e = Some k" "table_remove h t k (h_hash e) = Some (a, h1, t')"
    "h1 a = Some e1" "h_refs e1 = 1" "h_charge e1 = h_charge e"
    "links_ok (h1(a \<mapsto> e1\<lparr>h_in_cache := False, h_refs := 0\<rparr>)) d xs (owned E held)"
    "table_rep (h1(a \<mapsto> e1\<lparr>h_in_cache := False, h_refs := 0\<rparr>)) t' (E - {a})"
    "counts_ok (h1(a \<mapsto> e1\<lparr>h_in_cache := False, h_refs := 0\<rparr>)) (E - {a}) held"
    "meta_only (owned E held) h (h1(a \<mapsto> e1\<lparr>h_in_cache := False, h_refs := 0\<rparr>))"
    "owned (E - {a}) held = owned E held - {a}"
proof -
  have own: "owned (E - {a}) held = owned E held - {a}" and aO: "a \<in> owned E held" "E \<subseteq> owned E held"
    using a by (auto simp: owned_def)
  obtain h1 t' where h1: "table_remove h t (ky h a) (hs h a) = Some (a, h1, t')"
    "table_rep h1 t' (E - {a})" "hash_only E h h1"
    using table_remove_entry [OF t a(1)] .
  note v = hash_only_views [OF h1(3)]
  obtain e1 where e1: "h1 a = Some e1" using e agree_dom [OF h1(3)] by (metis domD domI)
  have k: "handle_key a e = Some (ky h a)" "h_hash e = hs h a"
    using handle_key_view [of h, OF e] links_ok_nx(1) [OF l aO(1)] view_cell(8) [of h, OF e] by simp_all
  have "h_refs e1 = 1" "h_charge e1 = h_charge e"
    using counts_okD(2) [OF n aO(1)] a view_cell [of h1, OF e1] view_cell(6) [of h, OF e] v
    by (simp_all add: word_unat_eq_iff)
  moreover have "counts_ok (h1(a \<mapsto> e1\<lparr>h_in_cache := False, h_refs := 0\<rparr>)) (E - {a}) held"
    using own by (intro counts_ok_ri [OF counts_ok_hash [OF n h1(3)] e1]) auto
  moreover have "meta_only (owned E held) h (h1(a \<mapsto> e1\<lparr>h_in_cache := False, h_refs := 0\<rparr>))"
    by (rule agree_mono [OF agree_trans [OF hash_meta [OF h1(3)] ri_views(9) [of h1, OF e1]]]) (use aO in auto)
  ultimately show ?thesis
    using that k h1(1) e1 own links_ok_ri [OF links_ok_hash [OF l h1(3)] e1] table_rep_ri [OF h1(2) e1] by metis
qed

lemma evict_one_entry_spec:
  assumes inv: "cache_inv h c xs E held" and xs: "xs = us @ a # vs"
  obtains h' t' where
    "evict_one_entry h c a = Some (h', c\<lparr>lc_table := t', lc_usage := lc_usage c - ch h a\<rparr>)"
    "cache_inv h' (c\<lparr>lc_table := t', lc_usage := lc_usage c - ch h a\<rparr>) (us @ vs) (E - {a}) held"
    "meta_only (insert (lc_lru c) (owned E held)) h h'" "dead h' a"
proof -
  let ?d = "lc_lru c" and ?O = "owned E held"
  note D = cache_invD [OF inv]
  have a: "a \<in> E" "held a = 0" "a \<in> ?O" "a \<notin> set (us @ vs)" using D(2,6) xs by (auto simp: owned_def)
  obtain e where e: "h a = Some e" using links_ok_nx(4) [OF D(1) a(3)] by blast
  obtain h1 where h1: "lru_remove h a = Some h1" "links_ok h1 ?d (us @ vs) ?O" "links_only (insert ?d ?O) h h1"
    using unlink_spec [OF D(1) xs] .
  obtain e1 where e1: "h1 a = Some e1" using e agree_dom [OF h1(3)] by (metis domD domI)
  have t1: "table_rep h1 (lc_table c) E"
    by (rule table_rep_links [OF D(3) h1(3,2)]) (auto simp: owned_def)
  obtain k h2 t' e2 where d: "handle_key a e1 = Some k"
    "table_remove h1 (lc_table c) k (h_hash e1) = Some (a, h2, t')" "h2 a = Some e2" "h_refs e2 = 1"
    "h_charge e2 = h_charge e1"
    "links_ok (h2(a \<mapsto> e2\<lparr>h_in_cache := False, h_refs := 0\<rparr>)) ?d (us @ vs) ?O"
    "table_rep (h2(a \<mapsto> e2\<lparr>h_in_cache := False, h_refs := 0\<rparr>)) t' (E - {a})"
    "counts_ok (h2(a \<mapsto> e2\<lparr>h_in_cache := False, h_refs := 0\<rparr>)) (E - {a}) held"
    "meta_only ?O h1 (h2(a \<mapsto> e2\<lparr>h_in_cache := False, h_refs := 0\<rparr>))"
    "owned (E - {a}) held = ?O - {a}"
    using detach_spec [OF h1(2) t1 counts_ok_links [OF D(4) h1(3)] a(1,2) e1] .
  let ?h3 = "h2(a \<mapsto> e2\<lparr>h_in_cache := False, h_refs := 0\<rparr>)"
  have "h_in_cache e" "h_refs e = 1" "h_charge e1 = ch h a"
    using view_cell [of h, OF e] view_cell(6) [of h1, OF e1] counts_okD [OF D(4) a(3)] a
      links_only_views(4) [OF h1(3)] by (simp_all add: word_unat_eq_iff)
  then have run: "evict_one_entry h c a = Some (?h3, c\<lparr>lc_table := t', lc_usage := lc_usage c - ch h a\<rparr>)"
    using e e1 h1(1) d(1-5) by (simp add: evict_one_entry_def unref_def)
  have m: "meta_only (insert ?d ?O) h ?h3"
    by (rule agree_mono [OF agree_trans [OF links_meta [OF h1(3)] d(9)]]) auto
  have "finite ?O" "set (us @ vs) = {b \<in> E - {a}. held b = 0}"
    using D(2,4) xs a(4) by (auto simp: counts_ok_def)
  then show ?thesis
    using that [OF run _ m] drop_inv [OF d(6) a(3,4) _ d(7,8,10) _ D(5) m] by blast
qed

subsection \<open>The eviction loops\<close>

lemma dll_next:
  assumes "dll h d (us @ vs)"
  obtains e where "h (last (d # us)) = Some e" "h_next e = hd (vs @ [d])"
proof -
  let ?p = "last (d # us)"
  have "?p \<in> set (d # us @ vs)" using last_in_set [of "d # us"] by auto
  then obtain e where e: "h ?p = Some e" using assms unfolding dll_def by blast
  have s: "dseg (nx h) (pv h) d (us @ vs) d" using assms by (simp add: dll_def)
  have "nx h ?p = hd (vs @ [d])"
  proof (cases us rule: rev_cases)
    case Nil
    then show ?thesis using dseg_next [OF s] by simp
  next
    case (snoc ws y)
    then have "dseg (nx h) (pv h) y vs d" using s by (simp add: dseg_append)
    then show ?thesis using dseg_next snoc by fastforce
  qed
  with e that show ?thesis by (simp add: nx_def)
qed

lemma same_members_refl [simp]: "same_members c c"
  by (simp add: same_members_def)

lemma same_membersD:
  assumes "same_members c c'"
  shows "lc_capacity c' = lc_capacity c" "lc_last_id c' = lc_last_id c" "lc_lru c' = lc_lru c"
    "lc_lookup_count c' = lc_lookup_count c" "lc_hit_count c' = lc_hit_count c"
proof -
  obtain t u where c: "c' = c\<lparr>lc_table := t, lc_usage := u\<rparr>" using assms unfolding same_members_def by blast
  show "lc_capacity c' = lc_capacity c" "lc_last_id c' = lc_last_id c" "lc_lru c' = lc_lru c"
    "lc_lookup_count c' = lc_lookup_count c" "lc_hit_count c' = lc_hit_count c"
    by (simp_all add: c)
qed

lemma same_membersI: "same_members c (c\<lparr>lc_table := t, lc_usage := u\<rparr>)"
  by (simp add: same_members_def)

lemma same_members_trans: "same_members c c' \<Longrightarrow> same_members c' c'' \<Longrightarrow> same_members c c''"
  by (cases c; cases c'; cases c'') (simp add: same_members_def)

lemma evicted_refl: "cache_inv h c xs E held \<Longrightarrow> evicted h c E held xs [] h c"
  by (simp add: evicted_def)

lemma evicted_step:
  assumes "same_members c c1" "meta_only (insert (lc_lru c) (owned E held)) h h1" "dead h1 a"
    and a: "a \<in> E" "held a = 0" "a \<noteq> lc_lru c" and ev: "evicted h1 c1 (E - {a}) held ks es h' c'"
  shows "evicted h c E held ks (a # es) h' c'"
proof -
  have lru: "lc_lru c1 = lc_lru c" using same_membersD(3) [OF assms(1)] .
  have m: "meta_only (insert (lc_lru c) (owned (E - {a}) held)) h1 h'"
    and E: "\<forall>b \<in> set es. dead h' b \<and> b \<in> E - {a} \<and> held b = 0 \<and> b \<noteq> lc_lru c" "distinct es"
    and inv: "cache_inv h' c' ks (E - {a} - set es) held" and sm: "same_members c1 c'"
    using ev by (auto simp: evicted_def lru)
  have "a \<notin> insert (lc_lru c) (owned (E - {a}) held)" using a by (auto simp: owned_def)
  then have "h' a = h1 a" using agree_outside [OF m] by blast
  then have "dead h' a" using assms(3) unfolding dead_def nx_def by (metis domIff)
  moreover have "meta_only (insert (lc_lru c) (owned E held)) h h'"
    by (rule agree_mono [OF agree_trans [OF assms(2) m]]) (auto simp: owned_def)
  moreover have "E - set (a # es) = E - {a} - set es" by auto
  ultimately show ?thesis
    using E inv a same_members_trans [OF assms(1) sm] by (auto simp: evicted_def)
qed

lemma evict_head:
  assumes inv: "cache_inv h c (us @ a # vs) E held"
  obtains h1 c1 where "evict_one_entry h c a = Some (h1, c1)" "cache_inv h1 c1 (us @ vs) (E - {a}) held"
    "ch h1 = ch h" "pr h1 = pr h" "same_members c c1" "lc_usage c1 = lc_usage c - ch h a"
    "\<forall>ks es h' c'. evicted h1 c1 (E - {a}) held ks es h' c' \<longrightarrow> evicted h c E held ks (a # es) h' c'"
proof -
  let ?c1 = "\<lambda>t. c\<lparr>lc_table := t, lc_usage := lc_usage c - ch h a\<rparr>"
  obtain h1 t' where r: "evict_one_entry h c a = Some (h1, ?c1 t')"
    "cache_inv h1 (?c1 t') (us @ vs) (E - {a}) held"
    "meta_only (insert (lc_lru c) (owned E held)) h h1" "dead h1 a"
    using evict_one_entry_spec [OF inv refl] .
  have a: "a \<in> E" "held a = 0" "a \<noteq> lc_lru c"
    using inv by (auto simp: cache_inv_def links_ok_def dll_def)
  show ?thesis
  proof (rule that [OF r(1,2)])
    show "same_members c (?c1 t')" by (rule same_membersI)
    then show "\<forall>ks es h' c'. evicted h1 (?c1 t') (E - {a}) held ks es h' c' \<longrightarrow>
        evicted h c E held ks (a # es) h' c'"
      using evicted_step [OF _ r(3,4) a] by blast
  qed (use meta_only_views [OF r(3)] in auto)
qed

lemma evict_normal_spec:
  assumes "cache_inv h c (us @ vs) E held"
    and "evict_pass (\<lambda>a. pr h a \<noteq> DURABLE) (ch h) (lc_capacity c) charge (lc_usage c) vs = (ks, es, u)"
  shows "\<exists>h' c'. evict_normal h c charge (last (lc_lru c # us)) del = Some (h', c', del @ es) \<and>
    evicted h c E held (us @ ks) es h' c' \<and> lc_usage c' = u"
  using assms
proof (induction vs arbitrary: h c us E del ks es u)
  case Nil
  obtain e where "h (last (lc_lru c # us)) = Some e" "h_next e = lc_lru c"
    using dll_next [of h "lc_lru c" us "[]"] Nil.prems(1) by (auto simp: cache_inv_def links_ok_def)
  then show ?case
    using Nil.prems by (subst evict_normal.simps) (auto simp: evicted_refl)
next
  case (Cons a vs)
  have d: "dll h (lc_lru c) (us @ a # vs)" using Cons.prems(1) by (simp add: cache_inv_def links_ok_def)
  obtain e where e: "h (last (lc_lru c # us)) = Some e" "h_next e = a"
    using dll_next [OF d] by auto
  obtain ea where ea: "h a = Some ea" "h_priority ea = pr h a" "a \<noteq> lc_lru c"
    using d by (auto simp: dll_def pr_def)
  show ?case
  proof (cases "lc_usage c + charge > lc_capacity c")
    case False
    then show ?thesis
      using Cons.prems by (subst evict_normal.simps) (auto simp: evicted_refl)
  next
    case over: True
    show ?thesis
    proof (cases "pr h a = DURABLE")
      case True
      obtain ks' where ks: "ks = a # ks'"
        "evict_pass (\<lambda>a. pr h a \<noteq> DURABLE) (ch h) (lc_capacity c) charge (lc_usage c) vs = (ks', es, u)"
        using Cons.prems(2) over True by (auto split: prod.splits)
      have "\<exists>h' c'. evict_normal h c charge (last (lc_lru c # us @ [a])) del = Some (h', c', del @ es) \<and>
          evicted h c E held ((us @ [a]) @ ks') es h' c' \<and> lc_usage c' = u"
        using Cons.prems(1) ks(2) by (intro Cons.IH) auto
      then show ?thesis
        using over True e ea ks(1) by (subst evict_normal.simps) auto
    next
      case False
      obtain es' where es: "es = a # es'"
        "evict_pass (\<lambda>a. pr h a \<noteq> DURABLE) (ch h) (lc_capacity c) charge (lc_usage c - ch h a) vs = (ks, es', u)"
        using Cons.prems(2) over False by (auto split: prod.splits)
      obtain h1 c1 where r: "evict_one_entry h c a = Some (h1, c1)" "cache_inv h1 c1 (us @ vs) (E - {a}) held"
        "ch h1 = ch h" "pr h1 = pr h" "same_members c c1" "lc_usage c1 = lc_usage c - ch h a"
        "\<forall>ks es h' c'. evicted h1 c1 (E - {a}) held ks es h' c' \<longrightarrow> evicted h c E held ks (a # es) h' c'"
        using evict_head [OF Cons.prems(1)] .
      note sm = same_membersD [OF r(5)]
      obtain h' c' where "evict_normal h1 c1 charge (last (lc_lru c1 # us)) (del @ [a]) = Some (h', c', (del @ [a]) @ es')"
          "evicted h1 c1 (E - {a}) held (us @ ks) es' h' c'" "lc_usage c' = u"
        using Cons.IH [OF r(2), of ks es' u "del @ [a]"] es(2) r(3,4,6) sm by auto
      then show ?thesis
        using over False e ea es(1) r(1,7) sm by (subst evict_normal.simps) auto
    qed
  qed
qed

lemma evict_durable_spec:
  assumes "cache_inv h c xs E held" "lc_usage c + charge > lc_capacity c \<Longrightarrow> \<forall>x \<in> set xs. pr h x = DURABLE"
    and "evict_pass (\<lambda>_. True) (ch h) (lc_capacity c) charge (lc_usage c) xs = (ks, es, u)"
  shows "\<exists>h' c'. evict_durable h c charge del = Some (h', c', del @ es) \<and>
    evicted h c E held ks es h' c' \<and> lc_usage c' = u"
  using assms
proof (induction xs arbitrary: h c E del ks es u)
  case Nil
  obtain e where "h (lc_lru c) = Some e" "h_next e = lc_lru c"
    using dll_next [of h "lc_lru c" "[]" "[]"] Nil.prems(1) by (auto simp: cache_inv_def links_ok_def)
  then show ?case
    using Nil.prems by (subst evict_durable.simps) (auto simp: evicted_refl)
next
  case (Cons a xs)
  have inv: "cache_inv h c ([] @ a # xs) E held" using Cons.prems(1) by simp
  have d: "dll h (lc_lru c) (a # xs)" using Cons.prems(1) by (simp add: cache_inv_def links_ok_def)
  obtain e where e: "h (lc_lru c) = Some e" "h_next e = a"
    using dll_next [of h "lc_lru c" "[]" "a # xs"] d by auto
  obtain ea where ea: "h a = Some ea" "h_priority ea = pr h a" "a \<noteq> lc_lru c"
    using d by (auto simp: dll_def pr_def)
  show ?case
  proof (cases "lc_usage c + charge > lc_capacity c")
    case False
    then show ?thesis
      using Cons.prems by (subst evict_durable.simps) (auto simp: evicted_refl)
  next
    case over: True
    obtain es' where es: "es = a # es'"
      "evict_pass (\<lambda>_. True) (ch h) (lc_capacity c) charge (lc_usage c - ch h a) xs = (ks, es', u)"
      using Cons.prems(3) over by (auto split: prod.splits)
    obtain h1 c1 where r: "evict_one_entry h c a = Some (h1, c1)" "cache_inv h1 c1 ([] @ xs) (E - {a}) held"
      "ch h1 = ch h" "pr h1 = pr h" "same_members c c1" "lc_usage c1 = lc_usage c - ch h a"
      "\<forall>ks es h' c'. evicted h1 c1 (E - {a}) held ks es h' c' \<longrightarrow> evicted h c E held ks (a # es) h' c'"
      using evict_head [OF inv] .
    note sm = same_membersD [OF r(5)]
    have dur: "\<forall>x \<in> set xs. pr h x = DURABLE" "pr h a = DURABLE" using Cons.prems(2) over by auto
    obtain h' c' where "evict_durable h1 c1 charge (del @ [a]) = Some (h', c', (del @ [a]) @ es')"
        "evicted h1 c1 (E - {a}) held ks es' h' c'" "lc_usage c' = u"
      using Cons.IH [of h1 c1 "E - {a}" ks es' u "del @ [a]"] es(2) r(2,3,4,6) dur(1) sm by auto
    then show ?thesis
      using over dur(2) e ea es(1) r(1,7) by (subst evict_durable.simps) auto
  qed
qed

lemma evict_pass_over:
  assumes "evict_pass el chg cap charge usage xs = (ks, es, u)" "u + charge > cap"
  shows "ks = filter (\<lambda>x. \<not> el x) xs \<and> es = filter el xs"
  using assms
  by (induction xs arbitrary: usage ks es u) (auto split: if_splits prod.splits)

lemma evicted_trans:
  assumes e1: "evicted h c E held ks es h1 c1" and e2: "evicted h1 c1 (E - set es) held ks' es' h' c'"
  shows "evicted h c E held ks' (es @ es') h' c'"
proof -
  have 1: "cache_inv h1 c1 ks (E - set es) held" "meta_only (insert (lc_lru c) (owned E held)) h h1"
    "same_members c c1" "distinct es" "\<forall>a \<in> set es. dead h1 a \<and> a \<in> E \<and> held a = 0 \<and> a \<noteq> lc_lru c"
    using e1 by (auto simp: evicted_def)
  have lru: "lc_lru c1 = lc_lru c" using same_membersD(3) [OF 1(3)] .
  have 2: "cache_inv h' c' ks' (E - set es - set es') held"
    "meta_only (insert (lc_lru c) (owned (E - set es) held)) h1 h'"
    "same_members c1 c'" "distinct es'" "\<forall>a \<in> set es'. dead h' a \<and> a \<in> E - set es \<and> held a = 0 \<and> a \<noteq> lc_lru c"
    using e2 by (auto simp: evicted_def lru)
  have "dead h' a" if a: "a \<in> set es" for a
  proof -
    have "a \<notin> insert (lc_lru c) (owned (E - set es) held)" using 1(5) a by (auto simp: owned_def)
    then have "h' a = h1 a" using agree_outside [OF 2(2)] by blast
    then show ?thesis using 1(5) a unfolding dead_def nx_def by (metis domIff)
  qed
  moreover have "meta_only (insert (lc_lru c) (owned E held)) h h'"
    by (rule agree_mono [OF agree_trans [OF 1(2) 2(2)]]) (auto simp: owned_def)
  moreover have "E - set (es @ es') = E - set es - set es'" by auto
  ultimately show ?thesis
    using 1 2 same_members_trans [OF 1(3) 2(3)] by (auto simp: evicted_def)
qed

lemma evict_from_lru_spec:
  assumes inv: "cache_inv h c xs E held"
    and plan: "evict_plan (pr h) (ch h) (lc_capacity c) charge (lc_usage c) xs = (ks, es, u)"
  obtains h' c' where "evict_from_lru h c charge = Some (h', c', es)" "evicted h c E held ks es h' c'"
    "lc_usage c' = u"
proof -
  obtain k1 e1 u1 e2 where p1: "evict_pass (\<lambda>a. pr h a \<noteq> DURABLE) (ch h) (lc_capacity c) charge (lc_usage c) xs = (k1, e1, u1)"
    and p2: "evict_pass (\<lambda>_. True) (ch h) (lc_capacity c) charge u1 k1 = (ks, e2, u)" and es: "es = e1 @ e2"
    using plan by (auto simp: evict_plan_def Let_def split: prod.splits)
  obtain h1 c1 where r1: "evict_normal h c charge (lc_lru c) [] = Some (h1, c1, e1)"
    "evicted h c E held k1 e1 h1 c1" "lc_usage c1 = u1"
    using evict_normal_spec [of h c "[]" xs E held charge k1 e1 u1 "[]"] inv p1 by auto
  have i1: "cache_inv h1 c1 k1 (E - set e1) held" "meta_only (insert (lc_lru c) (owned E held)) h h1"
    "same_members c c1" using r1(2) by (auto simp: evicted_def)
  note sm = same_membersD [OF i1(3)] and v = meta_only_views [OF i1(2)]
  have "\<forall>x \<in> set k1. pr h1 x = DURABLE" if "lc_usage c1 + charge > lc_capacity c1"
    using evict_pass_over [OF p1] that r1(3) sm v by auto
  then obtain h2 c2 where "evict_durable h1 c1 charge e1 = Some (h2, c2, e1 @ e2)"
    "evicted h1 c1 (E - set e1) held ks e2 h2 c2" "lc_usage c2 = u"
    using evict_durable_spec [OF i1(1), of charge ks e2 u e1] p2 r1(3) sm v by auto
  then show ?thesis
    using that r1(1) evicted_trans [OF r1(2)] es by (simp add: evict_from_lru_def)
qed

lemma prune_loop_spec:
  assumes "cache_inv h c xs E held"
  shows "\<exists>h' c'. prune_loop h c del = Some (h', c', del @ xs) \<and> evicted h c E held [] xs h' c'"
  using assms
proof (induction xs arbitrary: h c E del)
  case Nil
  obtain e where "h (lc_lru c) = Some e" "h_next e = lc_lru c"
    using dll_next [of h "lc_lru c" "[]" "[]"] Nil.prems(1) by (auto simp: cache_inv_def links_ok_def)
  then show ?case
    using Nil.prems by (subst prune_loop.simps) (auto simp: evicted_refl)
next
  case (Cons a xs)
  have inv: "cache_inv h c ([] @ a # xs) E held" using Cons.prems(1) by simp
  have d: "dll h (lc_lru c) (a # xs)" using Cons.prems(1) by (simp add: cache_inv_def links_ok_def)
  obtain e where e: "h (lc_lru c) = Some e" "h_next e = a"
    using dll_next [of h "lc_lru c" "[]" "a # xs"] d by auto
  have a: "a \<noteq> lc_lru c" using d by (auto simp: dll_def)
  obtain h1 c1 where r: "evict_one_entry h c a = Some (h1, c1)" "cache_inv h1 c1 ([] @ xs) (E - {a}) held"
    "ch h1 = ch h" "pr h1 = pr h" "same_members c c1" "lc_usage c1 = lc_usage c - ch h a"
    "\<forall>ks es h' c'. evicted h1 c1 (E - {a}) held ks es h' c' \<longrightarrow> evicted h c E held ks (a # es) h' c'"
    using evict_head [OF inv] .
  obtain h' c' where "prune_loop h1 c1 (del @ [a]) = Some (h', c', (del @ [a]) @ xs)"
      "evicted h1 c1 (E - {a}) held [] xs h' c'"
    using Cons.IH [of h1 c1 "E - {a}" "del @ [a]"] r(2) by auto
  then show ?case
    using e a r(1,7) by (subst prune_loop.simps) auto
qed

end
