(* ===== verification/LruOps.thy ===== *)
theory LruOps
  imports LruCache
begin

text \<open>
  What the operations of one shard do (src/modules/lru_cache/lru_cache.cc): every operation
  returns, keeps the invariant, and touches only what the shard owns.  The ghost state
  (list, entries, references held) after each operation is given as a function of the one
  before, which makes the shard a refinement of that abstract cache.
\<close>

text \<open>When giving back a reference frees the handle.\<close>

definition releases :: "lru_cache \<Rightarrow> addr set \<Rightarrow> (addr \<Rightarrow> nat) \<Rightarrow> addr \<Rightarrow> bool" where
  "releases c E held a \<longleftrightarrow> held a = 1 \<and> (a \<in> E \<longrightarrow> lc_usage c > lc_capacity c)"

text \<open>
  insert and erase drop the reference of the cache to a replaced or erased entry, clear its
  flag and unlink it when nobody holds it, in different orders but with the same effect.
\<close>

definition retired :: "'v lru_heap \<Rightarrow> addr \<Rightarrow> addr list \<Rightarrow> addr set \<Rightarrow> addr \<Rightarrow> 'v lru_heap \<Rightarrow> bool" where
  "retired h d xs own a h' \<longleftrightarrow>
     links_ok h' d (remove1 a xs) own \<and> rf h' = (rf h)(a := rf h a - 1) \<and> ic h' = (ic h)(a := False) \<and>
     nh h' = nh h \<and> dom h' = dom h \<and> meta_only (insert d own) h h'"

definition counts_except :: "'v lru_heap \<Rightarrow> addr \<Rightarrow> addr set \<Rightarrow> addr set \<Rightarrow> (addr \<Rightarrow> nat) \<Rightarrow> bool" where
  "counts_except h a own E held \<longleftrightarrow>
     finite own \<and> (\<forall>b \<in> own. ck_valid (ky h b)) \<and> unat (rf h a) = Suc (held a) \<and>
     (\<forall>b \<in> own - {a}. unat (rf h b) = held b + of_bool (b \<in> E) \<and> ic h b = (b \<in> E))"

text \<open>No leak: the cells of the handles own that are left are handles of own'.\<close>

definition tidy :: "'v lru_heap \<Rightarrow> addr set \<Rightarrow> addr set \<Rightarrow> bool" where
  "tidy h own own' \<longleftrightarrow> own \<inter> dom h \<subseteq> own'"

section \<open>The operations\<close>

subsection \<open>Freeing handles\<close>

lemma meta_only_call: "meta_only A h h' \<Longrightarrow> call_of h' = call_of h"
proof
  fix a assume m: "meta_only A h h'"
  have "h_deleter (the (h' a)) = h_deleter (the (h a))"
    using agree_cell [OF m, of a] by (auto dest: strip_meta_eq)
  then show "call_of h' a = call_of h a" using meta_only_views [OF m] by (simp add: call_of_def)
qed

lemma dead_same: "h' a = h a \<Longrightarrow> dead h a \<Longrightarrow> dead h' a"
  by (simp add: dead_def nx_def domIff)

lemma handle_free_spec:
  assumes "dead (heap w) a"
  shows "handle_free w a =
    Some (w\<lparr>heap := (heap w)(a := None), freed := freed w @ [call_of (heap w) a]\<rparr>)"
proof -
  obtain e where e: "heap w a = Some e" using assms by (auto simp: dead_def)
  have "handle_key a e = Some (ky (heap w) a)"
    using handle_key_view [of "heap w", OF e] assms by (simp add: dead_def)
  with e show ?thesis by (simp add: handle_free_def call_of_def vl_def)
qed

lemma free_all_spec:
  assumes "\<forall>a \<in> set es. dead (heap w) a" "distinct es"
  shows "free_all w es =
    Some (w\<lparr>heap := heap w |` (- set es), freed := freed w @ map (call_of (heap w)) es\<rparr>)"
  using assms
proof (induction es arbitrary: w)
  case Nil
  then show ?case by (simp add: restrict_map_def)
next
  case (Cons a es)
  define h' where "h' = (heap w)(a := None)"
  define w' where "w' = w\<lparr>heap := h', freed := freed w @ [call_of (heap w) a]\<rparr>"
  have same: "h' b = heap w b" if "b \<in> set es" for b using that Cons.prems(2) by (auto simp: h'_def)
  have "\<forall>b \<in> set es. dead h' b"
    using dead_same [of h' _ "heap w"] same Cons.prems(1) by simp
  moreover have "map (call_of h') es = map (call_of (heap w)) es"
    using same by (simp add: call_of_def ky_def vl_def)
  moreover have "h' |` (- set es) = heap w |` (- set (a # es))"
    by (auto simp: fun_eq_iff restrict_map_def h'_def)
  moreover have "handle_free w a = Some w'"
    using handle_free_spec [of w a] Cons.prems(1) by (simp add: w'_def h'_def)
  ultimately show ?case
    using Cons.IH [of w'] Cons.prems(2) by (simp add: w'_def)
qed

lemma counts_ok_same:
  assumes "counts_ok h E held" "\<And>a. a \<in> owned E held \<Longrightarrow> h' a = h a"
  shows "counts_ok h' E held"
  using assms by (simp add: counts_ok_def ky_def rf_def ic_def)

lemma table_rep_same:
  assumes "table_rep h t E" "\<And>a. a \<in> E \<Longrightarrow> h' a = h a"
  shows "table_rep h' t E"
proof (rule tbl.rep_cong [OF assms(1)])
  fix a assume a: "a \<in> E"
  show "nh h' a = nh h a \<and> kv h' a = kv h a \<and> keyed h' a"
    using assms(2) [OF a] tbl.rep_keyed [OF assms(1) a]
    by (simp add: nh_def kv_def hs_def ky_def keyed_def nx_def domIff)
qed

lemma cache_inv_same:
  assumes inv: "cache_inv h c xs E held" and same: "\<And>a. a \<in> insert (lc_lru c) (owned E held) \<Longrightarrow> h' a = h a"
  shows "cache_inv h' c xs E held"
proof -
  have "links_ok h' (lc_lru c) xs (owned E held)"
    using inv same links_ok_same [of h "lc_lru c" xs "owned E held" h'] by (simp add: cache_inv_def)
  moreover have "table_rep h' (lc_table c) E"
    using inv same table_rep_same [of h "lc_table c" E h'] by (simp add: cache_inv_def owned_def)
  moreover have "counts_ok h' E held"
    using inv same counts_ok_same [of h E held h'] by (simp add: cache_inv_def)
  moreover have "(\<Sum>a \<in> owned E held. ch h' a) = (\<Sum>a \<in> owned E held. ch h a)"
    using same by (intro sum.cong) (auto simp: ch_def)
  ultimately show ?thesis using inv by (simp add: cache_inv_def)
qed

lemma keeps_meta: "meta_only A h h' \<Longrightarrow> keeps A h h'"
proof -
  assume m: "meta_only A h h'"
  have "\<exists>e. h a = Some e \<and> strip_meta e' = strip_meta e" if "h' a = Some e'" for a e'
    using agree_cell [OF m, of a] that by auto
  then show ?thesis using agree_outside [OF m] by (simp add: keeps_def)
qed

lemma keeps_free: "keeps A h h' \<Longrightarrow> set es \<subseteq> A \<Longrightarrow> keeps A h (h' |` (- set es))"
  unfolding keeps_def by (auto simp: restrict_map_def)

lemma keeps_delete: "keeps A h h' \<Longrightarrow> a \<in> A \<Longrightarrow> keeps A h (h'(a := None))"
  unfolding keeps_def by auto

lemma evicted_free:
  assumes "evicted h c E held ks es h' c'"
  shows "free_all (w\<lparr>heap := h'\<rparr>) es =
      Some (w\<lparr>heap := h' |` (- set es), freed := freed w @ map (call_of h) es\<rparr>)"
    and "cache_inv (h' |` (- set es)) c' ks (E - set es) held"
    and "keeps (insert (lc_lru c) (owned E held)) h (h' |` (- set es))"
    and "tidy (h' |` (- set es)) (owned E held) (owned (E - set es) held)"
proof -
  have inv: "cache_inv h' c' ks (E - set es) held" and m: "meta_only (insert (lc_lru c) (owned E held)) h h'"
    and es: "distinct es" "\<forall>a \<in> set es. dead h' a \<and> a \<in> E \<and> held a = 0 \<and> a \<noteq> lc_lru c"
    and sm: "same_members c c'" using assms by (auto simp: evicted_def)
  show "free_all (w\<lparr>heap := h'\<rparr>) es =
      Some (w\<lparr>heap := h' |` (- set es), freed := freed w @ map (call_of h) es\<rparr>)"
    using free_all_spec [of es "w\<lparr>heap := h'\<rparr>"] es meta_only_call [OF m] by simp
  show "cache_inv (h' |` (- set es)) c' ks (E - set es) held"
    by (rule cache_inv_same [OF inv])
      (use es same_membersD(3) [OF sm] in \<open>auto simp: restrict_map_def owned_def\<close>)
  show "keeps (insert (lc_lru c) (owned E held)) h (h' |` (- set es))"
    by (rule keeps_free [OF keeps_meta [OF m]]) (use es in \<open>auto simp: owned_def\<close>)
  show "tidy (h' |` (- set es)) (owned E held) (owned (E - set es) held)"
    by (auto simp: tidy_def owned_def)
qed

subsection \<open>prune and set\_capacity\<close>

lemma lru_prune_spec:
  assumes "cache_inv (heap w) c xs E held"
  obtains w' c' where "lru_prune w c = Some (of_nat (length xs), w', c')"
    "cache_inv (heap w') c' [] (E - set xs) held" "same_members c c'"
    "freed w' = freed w @ map (call_of (heap w)) xs"
    "keeps (insert (lc_lru c) (owned E held)) (heap w) (heap w')"
    "tidy (heap w') (owned E held) (owned (E - set xs) held)"
proof -
  obtain h' c' where r: "prune_loop (heap w) c [] = Some (h', c', xs)" "evicted (heap w) c E held [] xs h' c'"
    using prune_loop_spec [OF assms, of "[]"] by auto
  show ?thesis
    using that [of "w\<lparr>heap := h' |` (- set xs), freed := freed w @ map (call_of (heap w)) xs\<rparr>" c']
      r evicted_free [OF r(2)] by (simp add: lru_prune_def evicted_def)
qed

lemma lru_set_capacity_spec:
  assumes inv: "cache_inv (heap w) c xs E held"
    and plan: "evict_plan (pr (heap w)) (ch (heap w)) capacity 0 (lc_usage c) xs = (ks, es, u)"
  obtains w' c' where "lru_set_capacity w c capacity = Some (w', c')"
    "cache_inv (heap w') c' ks (E - set es) held" "same_members (c\<lparr>lc_capacity := capacity\<rparr>) c'"
    "lc_usage c' = u" "freed w' = freed w @ map (call_of (heap w)) es"
    "keeps (insert (lc_lru c) (owned E held)) (heap w) (heap w')"
    "tidy (heap w') (owned E held) (owned (E - set es) held)"
proof -
  let ?c = "c\<lparr>lc_capacity := capacity\<rparr>"
  have i: "cache_inv (heap w) ?c xs E held" using inv by (simp add: cache_inv_def)
  obtain h' c' where r: "evict_from_lru (heap w) ?c 0 = Some (h', c', es)"
    "evicted (heap w) ?c E held ks es h' c'" "lc_usage c' = u"
    using evict_from_lru_spec [OF i, of 0 ks es u] plan by auto
  show ?thesis
    using that [of "w\<lparr>heap := h' |` (- set es), freed := freed w @ map (call_of (heap w)) es\<rparr>" c']
      r evicted_free [OF r(2)] by (simp add: lru_set_capacity_def evicted_def)
qed

subsection \<open>lookup\<close>

lemma lru_lookup_spec:
  assumes inv: "cache_inv (heap w) c xs E held" and key: "ck_valid key"
    and refs: "\<forall>a \<in> E. held a + 2 < 2 ^ 32"
  obtains a w' where
    "lru_lookup w c key hash = Some (a, w', c\<lparr>lc_lookup_count := lc_lookup_count c + 1,
       lc_hit_count := lc_hit_count c + of_bool (a \<noteq> 0)\<rparr>)"
    "is_entry (heap w) E (hash, ck_bytes key) a" "freed w' = freed w"
    "cache_inv (heap w') c (remove1 a xs) E (held(a := held a + of_bool (a \<noteq> 0)))"
    "keeps (insert (lc_lru c) (owned E held)) (heap w) (heap w')"
proof -
  let ?h = "heap w" and ?d = "lc_lru c" and ?O = "owned E held"
  note D = cache_invD [OF inv]
  obtain a where a: "table_lookup ?h (lc_table c) key hash = Some a" "is_entry ?h E (hash, ck_bytes key) a"
    using tbl.lookup_law [OF D(3) key] by blast
  show ?thesis
  proof (cases "a = 0")
    case True
    have "remove1 0 xs = xs" using D(2,7) by (intro remove1_idem) (auto simp: owned_def)
    then show ?thesis
      using that [of 0 w] True a inv by (simp add: lru_lookup_def keeps_def)
  next
    case False
    then have aE: "a \<in> E" "a \<in> ?O" using a(2) by (auto simp: is_entry_def owned_def)
    note na = counts_okD [OF D(4) aE(2)]
    obtain e where e: "?h a = Some e" using links_ok_nx(4) [OF D(1) aE(2)] by blast
    have rf: "h_refs e = 1 \<longleftrightarrow> held a = 0" "h_in_cache e"
      using view_cell [of ?h, OF e] na aE(1) by (simp_all add: word_unat_eq_iff)
    obtain h1 where h1: "(if h_refs e = 1 then lru_remove ?h a else Some ?h) = Some h1"
      "links_ok h1 ?d (remove1 a xs) ?O" "links_only (insert ?d ?O) ?h h1"
    proof (cases "held a = 0")
      case True
      then obtain us vs where xs: "xs = us @ a # vs" using aE(1) D(2) by (metis (mono_tags) mem_Collect_eq split_list)
      have "remove1 a xs = us @ vs" using D(6) xs by (simp add: remove1_append)
      then show ?thesis using unlink_spec [OF D(1) xs] that rf True by auto
    next
      case False
      then have "remove1 a xs = xs" using D(2) by (intro remove1_idem) auto
      then show ?thesis using that [of ?h] D(1) rf False by simp
    qed
    note v1 = links_only_views [OF h1(3)]
    obtain e1 where e1: "h1 a = Some e1" using e agree_dom [OF h1(3)] by (metis domD domI)
    let ?h2 = "h1(a \<mapsto> e1\<lparr>h_in_cache := True, h_refs := h_refs e1 + 1\<rparr>)"
      and ?held = "held(a := Suc (held a))"
    have own: "owned E ?held = ?O" using aE by (auto simp: owned_def)
    have r1: "unat (h_refs e1 + 1) = held a + 2" "h_in_cache e1"
      using na aE(1) refs view_cell [of h1, OF e1] v1 by (auto simp: unat_add1)
    have run: "lru_lookup w c key hash = Some (a, w\<lparr>heap := ?h2\<rparr>,
        c\<lparr>lc_lookup_count := lc_lookup_count c + 1, lc_hit_count := lc_hit_count c + 1\<rparr>)"
      using False a(1) e rf(2) h1(1) e1 r1(2) by (simp add: lru_lookup_def ri_refs [of e1 True])
    have m: "meta_only (insert ?d ?O) ?h ?h2"
      by (rule agree_mono [OF agree_trans [OF links_meta [OF h1(3)] ri_views(9) [of h1, OF e1]]])
        (use aE in auto)
    have "counts_ok ?h2 E ?held"
      using r1 aE
      by (intro counts_ok_ri [OF counts_ok_links [OF D(4) h1(3)] e1]) (auto simp: own)
    moreover have "links_ok ?h2 ?d (remove1 a xs) (owned E ?held)"
      unfolding own by (rule links_ok_ri [OF h1(2) e1])
    moreover have "table_rep ?h2 (lc_table c) E"
      by (rule table_rep_ri [OF table_rep_links [OF D(3) h1(3,2)] e1]) (auto simp: owned_def)
    moreover have "set (remove1 a xs) = {b \<in> E. ?held b = 0}" using D(2,6) by (auto simp: set_remove1_eq)
    ultimately have "cache_inv ?h2 c (remove1 a xs) E ?held"
      using D(5) meta_only_views(1) [OF m] by (simp add: cache_inv_def own)
    with that [of a "w\<lparr>heap := ?h2\<rparr>"] run a(2) False keeps_meta [OF m] show ?thesis by simp
  qed
qed

subsection \<open>release\<close>

lemma drop_free:
  assumes inv: "cache_inv h' c' xs' E' held'" and d: "dead h' a"
    and a: "a \<notin> insert (lc_lru c') (owned E' held')" and m: "meta_only A h h'" "a \<in> A"
  shows "handle_free (w\<lparr>heap := h'\<rparr>) a =
      Some (w\<lparr>heap := h'(a := None), freed := freed w @ [call_of h a]\<rparr>)"
    and "cache_inv (h'(a := None)) c' xs' E' held'" and "keeps A h (h'(a := None))" and "tidy (h'(a := None)) own (own - {a})"
proof -
  show "handle_free (w\<lparr>heap := h'\<rparr>) a =
      Some (w\<lparr>heap := h'(a := None), freed := freed w @ [call_of h a]\<rparr>)"
    using handle_free_spec [of "w\<lparr>heap := h'\<rparr>" a] d meta_only_call [OF m(1)] by simp
  show "cache_inv (h'(a := None)) c' xs' E' held'"
    by (rule cache_inv_same [OF inv]) (use a in auto)
  show "keeps A h (h'(a := None))" by (rule keeps_delete [OF keeps_meta [OF m(1)] m(2)])
  show "tidy (h'(a := None)) own (own - {a})" by (auto simp: tidy_def)
qed

lemma lru_release_spec:
  assumes inv: "cache_inv (heap w) c xs E held" and held: "held a > 0"
    and held': "held' = held(a := held a - 1)"
  obtains w' c' where "lru_release w c a = Some (w', c')" "same_members c c'"
    "freed w' = freed w @ (if releases c E held a then [call_of (heap w) a] else [])"
    "cache_inv (heap w') c' (if held a = 1 \<and> a \<in> E \<and> \<not> releases c E held a then xs @ [a] else xs)
       (if releases c E held a then E - {a} else E) held'"
    "keeps (insert (lc_lru c) (owned E held)) (heap w) (heap w')"
    "tidy (heap w') (owned E held) (owned (if releases c E held a then E - {a} else E) held')"
proof -
  let ?h = "heap w" and ?d = "lc_lru c" and ?O = "owned E held"
  have h': "held' a = held a - 1" "\<And>b. b \<noteq> a \<Longrightarrow> held' b = held b" by (simp_all add: held')
  note D = cache_invD [OF inv]
  have fin: "finite ?O" using D(4) by (simp add: counts_ok_def)
  have a: "a \<in> ?O" "a \<notin> set xs" using held D(2) by (simp_all add: owned_def)
  note nz = links_ok_nx(2,3) [OF D(1) a(1)]
  note na = counts_okD [OF D(4) a(1)]
  obtain e where e: "?h a = Some e" using links_ok_nx(4) [OF D(1) a(1)] by blast
  obtain n where n: "unat (rf ?h a) = Suc n" "n = held' a + of_bool (a \<in> E)"
    using na(2) held h'(1) by (cases "unat (rf ?h a)") auto
  define h1 where "h1 = ?h(a \<mapsto> e\<lparr>h_in_cache := (a \<in> E), h_refs := of_nat n\<rparr>)"
  note v1 = ri_views [of ?h, OF e, where i = "a \<in> E" and r = "of_nat n", folded h1_def]
  have un: "unref ?h a = Some (n = 0, h1)" using unref_view [of ?h, OF e n(1)] na(3) by (simp add: h1_def)
  obtain e1 where e1: "h1 a = Some e1" "h_in_cache e1 = (a \<in> E)" "h_refs e1 = of_nat n"
    "h_charge e1 = ch ?h a"
    using view_cell [of ?h, OF e] by (simp add: h1_def)
  have un1: "unat (of_nat n :: u32) = n"
  proof -
    have "unat (rf ?h a) < 2 ^ LENGTH(32)" by (rule unsigned_less)
    then show ?thesis using n(1) by (simp add: unat_of_nat)
  qed
  have l1: "links_ok h1 ?d xs ?O" unfolding h1_def by (rule links_ok_ri [OF D(1) e])
  have t1: "table_rep h1 (lc_table c) E" unfolding h1_def by (rule table_rep_ri [OF D(3) e])
  have own: "owned E held' = (if held a = 1 \<and> a \<notin> E then ?O - {a} else ?O)"
    using held by (auto simp: owned_def held')
  have n1: "counts_ok h1 E held'"
    unfolding h1_def using n(2) un1 h' by (intro counts_ok_ri [OF D(4) e]) (auto simp: own)
  have m1: "meta_only (insert ?d ?O) ?h h1" by (rule agree_mono [OF v1(9)]) (use a in auto)
  consider (drop) "held a = 1" "a \<notin> E" | (evict) "held a = 1" "a \<in> E" "lc_usage c > lc_capacity c"
    | (append) "held a = 1" "a \<in> E" "\<not> lc_usage c > lc_capacity c" | (keep) "held a > 1"
    using held by (cases "held a = 1") auto
  then show ?thesis
  proof cases
    case drop
    let ?c = "c\<lparr>lc_usage := lc_usage c - ch ?h a\<rparr>"
    have r: "releases c E held a" "n = 0" "E - {a} = E" using drop n(2) h' by (auto simp: releases_def)
    have xs: "set xs = {b \<in> E. held' b = 0}" using D(2) drop by (auto simp: held')
    have own': "owned E held' = ?O - {a}" using own drop by simp
    have i: "cache_inv h1 ?c xs E held'" "dead h1 a"
      using drop_inv [OF l1 a fin t1 n1 own' xs D(5) m1] by simp_all
    note d = drop_free [OF i _ m1]
    have "lru_release w c a = Some (w\<lparr>heap := h1(a := None), freed := freed w @ [call_of ?h a]\<rparr>, ?c)"
      using nz un r(2) e1 d(1) own' a by (simp add: lru_release_def)
    with that [OF this] d(2-4) r(1,3) drop own' a nz show ?thesis by (simp add: same_members_def)
  next
    case evict
    have r: "releases c E held a" "n = 1" "held' a = 0" using evict n(2) h' by (auto simp: releases_def)
    have own': "owned E held' = ?O" using own evict by simp
    obtain k h2 t2 e2 where d: "handle_key a e1 = Some k"
      "table_remove h1 (lc_table c) k (h_hash e1) = Some (a, h2, t2)" "h2 a = Some e2" "h_refs e2 = 1"
      "h_charge e2 = h_charge e1"
      "links_ok (h2(a \<mapsto> e2\<lparr>h_in_cache := False, h_refs := 0\<rparr>)) ?d xs (owned E held')"
      "table_rep (h2(a \<mapsto> e2\<lparr>h_in_cache := False, h_refs := 0\<rparr>)) t2 (E - {a})"
      "counts_ok (h2(a \<mapsto> e2\<lparr>h_in_cache := False, h_refs := 0\<rparr>)) (E - {a}) held'"
      "meta_only (owned E held') h1 (h2(a \<mapsto> e2\<lparr>h_in_cache := False, h_refs := 0\<rparr>))"
      "owned (E - {a}) held' = owned E held' - {a}"
      using detach_spec [OF l1 [folded own'] t1 n1 evict(2) r(3) e1(1)] .
    let ?h3 = "h2(a \<mapsto> e2\<lparr>h_in_cache := False, h_refs := 0\<rparr>)"
    let ?c = "c\<lparr>lc_table := t2, lc_usage := lc_usage c - ch ?h a\<rparr>"
    have m: "meta_only (insert ?d ?O) ?h ?h3"
      using agree_mono [OF agree_trans [OF m1 d(9)], of "insert ?d ?O"] own' by auto
    have xs: "set xs = {b \<in> E - {a}. held' b = 0}" using D(2) evict by (auto simp: held')
    have i: "cache_inv ?h3 ?c xs (E - {a}) held'" "dead ?h3 a"
      using drop_inv [OF d(6) [unfolded own'] a fin d(7,8) d(10) [unfolded own'] xs D(5) m] .
    note f = drop_free [OF i _ m]
    have "lru_release w c a = Some (w\<lparr>heap := ?h3(a := None), freed := freed w @ [call_of ?h a]\<rparr>, ?c)"
      using nz un r(2) e1 d(1-5) f(1) d(10) own' a evict by (simp add: lru_release_def unref_def)
    with that [OF this] f(2-4) d(10) own' a nz r(1) evict show ?thesis by (simp add: same_members_def)
  next
    case append
    have r: "\<not> releases c E held a" "n = 1" "held' a = 0" using append n(2) h' by (auto simp: releases_def)
    obtain h2 where h2: "lru_append h1 ?d a = Some h2" "links_ok h2 ?d (xs @ [a]) ?O" "links_only (insert ?d ?O) h1 h2"
      using relink_spec [OF l1 a(1,2)] .
    have m: "meta_only (insert ?d ?O) ?h h2" using agree_trans [OF m1 links_meta [OF h2(3)]] by simp
    have "lru_release w c a = Some (w\<lparr>heap := h2\<rparr>, c)"
      using nz un r(2) e1 h2(1) append by (simp add: lru_release_def)
    moreover have "cache_inv h2 c (xs @ [a]) E held'"
      using h2(2) own append D(2,5) r(3) counts_ok_links [OF n1 h2(3)] meta_only_views(1) [OF m]
        table_rep_links [OF t1 h2(3,2)] by (auto simp: cache_inv_def owned_def held')
    ultimately show ?thesis
      using that [of "w\<lparr>heap := h2\<rparr>" c] r(1) append keeps_meta [OF m] own by (simp add: tidy_def)
  next
    case keep
    then have r: "\<not> releases c E held a" "n \<noteq> 0" "a \<in> E \<Longrightarrow> n \<noteq> 1" "held' a > 0" 
      using n(2) h' by (auto simp: releases_def)
    have "lru_release w c a = Some (w\<lparr>heap := h1\<rparr>, c)"
      using nz un e1 r(2,3) un1 by (auto simp: lru_release_def word_unat_eq_iff)
    moreover have "set xs = {b \<in> E. held' b = 0}" using D(2) keep by (auto simp: held')
    then have "cache_inv h1 c xs E held'"
      using l1 t1 n1 own keep D(5) meta_only_views(1) [OF m1] by (simp add: cache_inv_def)
    ultimately show ?thesis
      using that [of "w\<lparr>heap := h1\<rparr>" c] r(1) keep keeps_meta [OF m1] own by (simp add: tidy_def)
  qed
qed

subsection \<open>An entry that leaves the table\<close>

lemma unlink_if:
  assumes l: "links_ok h d xs own" and a: "a \<in> own" and n: "n = 0 \<longleftrightarrow> a \<in> set xs"
  obtains h' where "n = 0 \<Longrightarrow> lru_remove h a = Some h'" "n \<noteq> 0 \<Longrightarrow> h' = h"
    "links_ok h' d (remove1 a xs) own" "links_only (insert d own) h h'"
proof (cases "n = 0")
  case True
  then obtain us vs where xs: "xs = us @ a # vs" using n by (metis split_list)
  have "distinct xs" using l by (simp add: links_ok_def dll_def)
  then have "remove1 a xs = us @ vs" using xs by (simp add: remove1_append)
  then show ?thesis using unlink_spec [OF l xs] that True by auto
next
  case False
  then have "remove1 a xs = xs" using n by (intro remove1_idem) simp
  then show ?thesis using that [of h] l False by simp
qed

lemma retire_insert:
  assumes l: "links_ok h d xs own" and a: "a \<in> own" and n: "unat (rf h a) = Suc n" "n = 0 \<longleftrightarrow> a \<in> set xs"
  obtains h1 h2 h3 e2 where "upd_cell h a (\<lambda>e. e\<lparr>h_in_cache := False\<rparr>) = Some h1"
    "unref h1 a = Some (n = 0, h2)" "h2 a = Some e2" "h_charge e2 = ch h a"
    "n = 0 \<Longrightarrow> lru_remove h2 a = Some h3" "n \<noteq> 0 \<Longrightarrow> h3 = h2" "retired h d xs own a h3"
proof -
  obtain e where e: "h a = Some e" using links_ok_nx(4) [OF l a] by blast
  define h1 where "h1 = h(a \<mapsto> e\<lparr>h_in_cache := False, h_refs := rf h a\<rparr>)"
  note v1 = ri_views [of h, OF e, where i = False and r = "rf h a", folded h1_def]
  have u1: "upd_cell h a (\<lambda>e. e\<lparr>h_in_cache := False\<rparr>) = Some h1"
    using e unfolding h1_def ri_in_cache [OF view_cell(4) [of h, OF e], symmetric] by simp
  obtain e1 where e1: "h1 a = Some e1" by (simp add: h1_def)
  define h2 where "h2 = h1(a \<mapsto> e1\<lparr>h_in_cache := False, h_refs := of_nat n\<rparr>)"
  note v2 = ri_views [of h1, OF e1, where i = False and r = "of_nat n", folded h2_def]
  have u2: "unref h1 a = Some (n = 0, h2)"
    using unref_view [of h1, OF e1, of n] n(1) by (simp add: v1 h2_def)
  obtain e2 where e2: "h2 a = Some e2" by (simp add: h2_def)
  have l1: "links_ok h1 d xs own" unfolding h1_def by (rule links_ok_ri [OF l e])
  have l2: "links_ok h2 d xs own" unfolding h2_def by (rule links_ok_ri [OF l1 e1])
  obtain h3 where h3: "n = 0 \<Longrightarrow> lru_remove h2 a = Some h3" "n \<noteq> 0 \<Longrightarrow> h3 = h2"
    "links_ok h3 d (remove1 a xs) own" "links_only (insert d own) h2 h3"
    using unlink_if [OF l2 a n(2)] by blast
  note v3 = links_only_views [OF h3(4)]
  have m2: "meta_only {a} h h2" using agree_trans [OF v1(9) v2(9)] by simp
  have m: "meta_only (insert d own) h h3"
    by (rule agree_mono [OF agree_trans [OF m2 links_meta [OF h3(4)]]]) (use a in auto)
  have "rf h a = of_nat (Suc n)" unfolding n(1) [symmetric] by simp
  then have "retired h d xs own a h3"
    using h3(3) m v1 v2 v3 agree_dom [OF h3(4)] by (auto simp: retired_def)
  moreover have "h_charge e2 = ch h a" using view_cell(6) [of h2, OF e2] meta_only_views(1) [OF m2] by simp
  ultimately show ?thesis using that u1 u2 e2 h3 by blast
qed

lemma retire_erase:
  assumes l: "links_ok h d xs own" and a: "a \<in> own" "ic h a" and n: "unat (rf h a) = Suc n" "n = 0 \<longleftrightarrow> a \<in> set xs"
  obtains h1 e1 h2 h3 where "unref h a = Some (n = 0, h1)" "h1 a = Some e1" "h_in_cache e1" "h_charge e1 = ch h a"
    "n = 0 \<Longrightarrow> lru_remove h1 a = Some h2" "n \<noteq> 0 \<Longrightarrow> h2 = h1"
    "upd_cell h2 a (\<lambda>e. e\<lparr>h_in_cache := False\<rparr>) = Some h3" "retired h d xs own a h3"
proof -
  obtain e where e: "h a = Some e" using links_ok_nx(4) [OF l a(1)] by blast
  define h1 where "h1 = h(a \<mapsto> e\<lparr>h_in_cache := True, h_refs := of_nat n\<rparr>)"
  note v1 = ri_views [of h, OF e, where i = True and r = "of_nat n", folded h1_def]
  have u1: "unref h a = Some (n = 0, h1)"
    using unref_view [of h, OF e n(1)] a(2) by (simp add: h1_def)
  obtain e1 where e1: "h1 a = Some e1" "h_in_cache e1" "h_charge e1 = ch h a"
    using view_cell(6) [of h, OF e] by (simp add: h1_def)
  have l1: "links_ok h1 d xs own" unfolding h1_def by (rule links_ok_ri [OF l e])
  obtain h2 where h2: "n = 0 \<Longrightarrow> lru_remove h1 a = Some h2" "n \<noteq> 0 \<Longrightarrow> h2 = h1"
    "links_ok h2 d (remove1 a xs) own" "links_only (insert d own) h1 h2"
    using unlink_if [OF l1 a(1) n(2)] by blast
  note v2 = links_only_views [OF h2(4)]
  obtain e2 where e2: "h2 a = Some e2" using e1(1) agree_dom [OF h2(4)] by (metis domD domI)
  define h3 where "h3 = h2(a \<mapsto> e2\<lparr>h_in_cache := False, h_refs := rf h2 a\<rparr>)"
  note v3 = ri_views [of h2, OF e2, where i = False and r = "rf h2 a", folded h3_def]
  have u3: "upd_cell h2 a (\<lambda>e. e\<lparr>h_in_cache := False\<rparr>) = Some h3"
    using e2 unfolding h3_def ri_in_cache [OF view_cell(4) [of h2, OF e2], symmetric] by simp
  have m: "meta_only (insert d own) h h3"
    by (rule agree_mono [OF agree_trans [OF agree_trans [OF v1(9) links_meta [OF h2(4)]] v3(9)]])
      (use a in auto)
  have "links_ok h3 d (remove1 a xs) own" unfolding h3_def by (rule links_ok_ri [OF h2(3) e2])
  moreover have "rf h a = of_nat (Suc n)" unfolding n(1) [symmetric] by simp
  ultimately have "retired h d xs own a h3"
    using m v1 v2 v3 agree_dom [OF h2(4)] by (auto simp: retired_def)
  with that u1 e1 h2 u3 show ?thesis by blast
qed

lemma retired_table:
  assumes "retired h d xs own a h'" "table_rep h t E" "E \<subseteq> own"
  shows "table_rep h' t E"
proof (rule table_rep_views [OF assms(2)])
  have l: "links_ok h' d (remove1 a xs) own" and m: "meta_only (insert d own) h h'"
    using assms(1) by (auto simp: retired_def)
  show "nx h' b \<noteq> b" if "b \<in> E" for b using links_ok_nx(1) [OF l] that assms(3) by blast
  show "kv h' = kv h" "ky h' = ky h" using meta_only_views [OF m] by auto
qed (use assms(1) in \<open>auto simp: retired_def\<close>)


lemma retired_counts:
  assumes "retired h d xs own a h'" "counts_except h a own E held" "a \<notin> E" "owned E held \<subseteq> own"
  shows "counts_ok h' E held"
proof -
  have r: "rf h' = (rf h)(a := rf h a - 1)" "ic h' = (ic h)(a := False)" "ky h' = ky h"
    using assms(1) meta_only_views by (auto simp: retired_def)
  have "rf h a \<noteq> 0" using assms(2) by (auto simp: counts_except_def)
  then have "unat (rf h a - 1) = held a"
    using assms(2) by (simp add: unat_minus_one counts_except_def)
  moreover have "finite (owned E held)" using assms(2,4) finite_subset by (auto simp: counts_except_def)
  ultimately show ?thesis
    using assms(2-4) unfolding counts_ok_def counts_except_def r by auto
qed

lemma retired_inv:
  assumes r: "retired h (lc_lru c) xs own a h'" and n: "counts_except h a own E' held'"
    and t: "table_rep h t' E'" and a: "a \<in> own" "a \<notin> E'"
    and own: "owned E' held' = (if held' a = 0 then own - {a} else own)"
    and xs: "set (remove1 a xs) = {b \<in> E'. held' b = 0}" and u: "lc_usage c = (\<Sum>b \<in> own. ch h b)"
  shows "held' a = 0 \<Longrightarrow>
      cache_inv h' (c\<lparr>lc_table := t', lc_usage := lc_usage c - ch h a\<rparr>) (remove1 a xs) E' held' \<and> dead h' a"
    and "held' a > 0 \<Longrightarrow> cache_inv h' (c\<lparr>lc_table := t'\<rparr>) (remove1 a xs) E' held'"
proof -
  have sub: "owned E' held' \<subseteq> own" "E' \<subseteq> own" and fin: "finite own"
    using own n by (auto simp: owned_def counts_except_def split: if_splits)
  have l: "links_ok h' (lc_lru c) (remove1 a xs) own" and m: "meta_only (insert (lc_lru c) own) h h'"
    using r by (auto simp: retired_def)
  have ax: "a \<notin> set (remove1 a xs)" using xs a(2) by auto
  note t' = retired_table [OF r t sub(2)] and n' = retired_counts [OF r n a(2) sub(1)]
  show "cache_inv h' (c\<lparr>lc_table := t', lc_usage := lc_usage c - ch h a\<rparr>) (remove1 a xs) E' held' \<and> dead h' a"
    if "held' a = 0"
    using drop_inv [OF l a(1) ax fin t' n' _ xs u m] own that by simp
  show "cache_inv h' (c\<lparr>lc_table := t'\<rparr>) (remove1 a xs) E' held'" if "held' a > 0"
    using l t' n' xs u own that meta_only_views(1) [OF m] by (simp add: cache_inv_def)
qed

subsection \<open>erase\<close>

lemma lru_erase_spec:
  assumes inv: "cache_inv (heap w) c xs E held" and key: "ck_valid key"
  obtains a w' c' where "lru_erase w c key hash = Some (w', c')" "same_members c c'"
    "is_entry (heap w) E (hash, ck_bytes key) a"
    "freed w' = freed w @ (if a \<noteq> 0 \<and> held a = 0 then [call_of (heap w) a] else [])"
    "cache_inv (heap w') c' (remove1 a xs) (E - {a}) held"
    "keeps (insert (lc_lru c) (owned E held)) (heap w) (heap w')"
    "tidy (heap w') (owned E held) (owned (E - {a}) held)"
proof -
  let ?h = "heap w" and ?d = "lc_lru c" and ?O = "owned E held"
  note D = cache_invD [OF inv]
  obtain a h1 t1 where h1: "table_remove ?h (lc_table c) key hash = Some (a, h1, t1)"
    "is_entry ?h E (hash, ck_bytes key) a" "table_rep h1 t1 (E - {a})" "hash_only E ?h h1"
    using tbl.remove_law [OF D(3) key] by blast
  note v1 = hash_only_views [OF h1(4)]
  have l1: "links_ok h1 ?d xs ?O" by (rule links_ok_hash [OF D(1) h1(4)])
  have m1: "meta_only (insert ?d ?O) ?h h1"
    by (rule agree_mono [OF hash_meta [OF h1(4)]]) (auto simp: owned_def)
  show ?thesis
  proof (cases "a = 0")
    case True
    have z: "remove1 0 xs = xs" "E - {0} = E" using D(2,7) by (auto simp: owned_def remove1_idem)
    have "cache_inv h1 (c\<lparr>lc_table := t1\<rparr>) xs E held"
      using l1 D(2,5) h1(3) counts_ok_hash [OF D(4) h1(4)] v1 True z by (simp add: cache_inv_def)
    then show ?thesis
      using that [of "w\<lparr>heap := h1\<rparr>" "c\<lparr>lc_table := t1\<rparr>" 0] True h1(1,2) z keeps_meta [OF m1]
      by (simp add: lru_erase_def same_members_def tidy_def)
  next
    case False
    then have aE: "a \<in> E" "a \<in> ?O" using h1(2) by (auto simp: is_entry_def owned_def)
    note na = counts_okD [OF D(4) aE(2)]
    have n: "ic h1 a" "unat (rf h1 a) = Suc (held a)" "held a = 0 \<longleftrightarrow> a \<in> set xs"
      using na aE(1) D(2) v1 by auto
    obtain h2 e2 h3 h4 where r: "unref h1 a = Some (held a = 0, h2)" "h2 a = Some e2" "h_in_cache e2"
      "h_charge e2 = ch h1 a" "held a = 0 \<Longrightarrow> lru_remove h2 a = Some h3" "held a \<noteq> 0 \<Longrightarrow> h3 = h2"
      "upd_cell h3 a (\<lambda>e. e\<lparr>h_in_cache := False\<rparr>) = Some h4" "retired h1 ?d xs ?O a h4"
      using retire_erase [OF l1 aE(2) n] by metis
    have ce: "counts_except h1 a ?O (E - {a}) held"
      using D(4) n(2) v1 by (auto simp: counts_except_def counts_ok_def)
    have u: "lc_usage c = (\<Sum>b \<in> ?O. ch h1 b)" using D(5) v1 by simp
    have own: "owned (E - {a}) held = (if held a = 0 then ?O - {a} else ?O)" by (auto simp: owned_def)
    have xs: "set (remove1 a xs) = {b \<in> E - {a}. held b = 0}" using D(2,6) by (auto simp: set_remove1_eq)
    have m: "meta_only (insert ?d ?O) ?h h4"
      using agree_trans [OF m1, of "insert ?d ?O" h4] r(8) by (simp add: retired_def)
    note i = retired_inv [OF r(8) ce h1(3) aE(2) _ own xs u, unfolded v1, simplified]
    show ?thesis
    proof (cases "held a = 0")
      case True
      have i': "cache_inv h4 (c\<lparr>lc_table := t1, lc_usage := lc_usage c - ch ?h a\<rparr>) (remove1 a xs) (E - {a}) held" "dead h4 a"
        using i(1) True by auto
      note f = drop_free [OF i' _ m]
      show ?thesis
        using that [of "w\<lparr>heap := h4(a := None), freed := freed w @ [call_of ?h a]\<rparr>"
            "c\<lparr>lc_table := t1, lc_usage := lc_usage c - ch ?h a\<rparr>" a]
          f own True links_ok_nx(3) [OF l1 aE(2)] aE False h1(1,2) r(1-5,7) v1
        by (simp add: lru_erase_def same_members_def)
    next
      case f: False
      then show ?thesis
        using that [of "w\<lparr>heap := h4\<rparr>" "c\<lparr>lc_table := t1\<rparr>" a] i(2) keeps_meta [OF m] False h1(1,2) r own
        by (simp add: lru_erase_def same_members_def tidy_def)
    qed
  qed
qed

subsection \<open>insert\<close>

lemma evict_pass_cong:
  assumes "\<And>x. x \<in> set xs \<Longrightarrow> el x = el' x \<and> chg x = chg' x"
  shows "evict_pass el chg cap charge u xs = evict_pass el' chg' cap charge u xs"
  using assms by (induction xs arbitrary: u) simp_all

lemma evict_pass_set:
  assumes "evict_pass el chg cap charge u xs = (ks, es, u')"
  shows "set xs = set ks \<union> set es"
proof -
  have "set xs = set (fst (evict_pass el chg cap charge u xs)) \<union>
      set (fst (snd (evict_pass el chg cap charge u xs)))"
    by (induction xs arbitrary: u) (simp_all add: Let_def case_prod_beta)
  with assms show ?thesis by simp
qed

lemma evict_plan_cong:
  assumes "\<And>x. x \<in> set xs \<Longrightarrow> prio x = prio' x \<and> chg x = chg' x"
  shows "evict_plan prio chg cap charge u xs = evict_plan prio' chg' cap charge u xs"
proof -
  obtain ks es v where p: "evict_pass (\<lambda>a. prio' a \<noteq> DURABLE) chg' cap charge u xs = (ks, es, v)"
    by (metis prod_cases3)
  have "evict_pass (\<lambda>a. prio a \<noteq> DURABLE) chg cap charge u xs = (ks, es, v)"
    unfolding p [symmetric] using assms by (intro evict_pass_cong) auto
  moreover have "evict_pass (\<lambda>_. True) chg cap charge v ks = evict_pass (\<lambda>_. True) chg' cap charge v ks"
    using assms evict_pass_set [OF p] by (intro evict_pass_cong) auto
  ultimately show ?thesis by (simp add: evict_plan_def p)
qed

lemma links_ok_grow:
  assumes "links_ok h d xs own" "a \<in> dom h" "a \<noteq> 0" "a \<noteq> d" "nx h a = 0" "pv h a = 0"
  shows "links_ok h d xs (insert a own)"
  using assms by (auto simp: links_ok_def)

lemma lc_usage_table: "c\<lparr>lc_usage := u, lc_table := t\<rparr> = c\<lparr>lc_table := t, lc_usage := u\<rparr>"
  by (cases c) simp

lemma insert_entry_spec:
  assumes inv: "cache_inv h c ks E held" and card: "card E < 2 ^ 31"
    and a: "a \<notin> insert (lc_lru c) (owned E held)" "a \<noteq> 0" "a \<in> dom h" "nx h a = 0" "pv h a = 0"
      "rf h a = 2" "ic h a" "ck_valid (ky h a)" "charge = ch h a"
    and held': "held' = held(a := 1)"
  obtains old h' c' where
    "insert_entry h c a charge l = Some (h', c', l @ (if old \<noteq> 0 \<and> held old = 0 then [old] else []))"
    "is_entry h E (kv h a) old" "same_members c c'"
    "cache_inv h' c' (remove1 old ks) (insert a (E - {old})) held'"
    "meta_only (insert (lc_lru c) (insert a (owned E held))) h h'" "old \<noteq> a"
    "old \<noteq> 0 \<and> held old = 0 \<longrightarrow> dead h' old"
proof -
  let ?d = "lc_lru c" and ?O = "owned E held"
  note D = cache_invD [OF inv]
  have fin: "finite ?O" using D(4) by (simp add: counts_ok_def)
  have ka: "keyed h a" "a \<notin> E" "held a = 0" using a by (auto simp: keyed_def owned_def)
  obtain old h2 t2 where h2: "table_insert h (lc_table c) a = Some (old, h2, t2)"
    "is_entry h E (kv h a) old" "table_rep h2 t2 (insert a (E - {old}))" "hash_only (insert a E) h h2"
    using tbl.insert_law [OF D(3) ka(2,1) card] by blast
  note v2 = hash_only_views [OF h2(4)]
  let ?c = "c\<lparr>lc_table := t2, lc_usage := lc_usage c + charge\<rparr>"
  have l2: "links_ok h2 ?d ks (insert a ?O)"
    by (rule links_ok_hash [OF links_ok_grow [OF D(1)] h2(4)]) (use a in auto)
  have m2: "meta_only (insert ?d (insert a ?O)) h h2"
    by (rule agree_mono [OF hash_meta [OF h2(4)]]) (auto simp: owned_def)
  have u2: "lc_usage ?c = (\<Sum>b \<in> insert a ?O. ch h2 b)"
    using fin a(1,9) D(5) v2 by (simp add: add.commute)
  have ae: "a \<noteq> old" using h2(2) ka(2) a(2) by (auto simp: is_entry_def split: if_splits)
  have held: "held' a = 1" "\<And>b. b \<noteq> a \<Longrightarrow> held' b = held b" by (auto simp: held')
  show ?thesis
  proof (cases "old = 0")
    case True
    have z: "E - {0} = E" "remove1 0 ks = ks" using D(2,7) by (auto simp: owned_def remove1_idem)
    have own: "owned (insert a E) held' = insert a ?O" by (auto simp: owned_def held')
    have "counts_ok h2 (insert a E) held'"
      using D(4) fin a ka own v2 by (auto simp: counts_ok_def held')
    moreover have "set ks = {b \<in> insert a E. held' b = 0}" using D(2) ka(2) by (auto simp: held')
    ultimately have "cache_inv h2 ?c ks (insert a E) held'"
      using l2 h2(3) u2 own True z by (simp add: cache_inv_def)
    then show ?thesis
      using that [of h2 ?c 0] h2(1,2) True z m2 a(2) same_membersI by (simp add: insert_entry_def)
  next
    case False
    then have oE: "old \<in> E" "old \<in> ?O" using h2(2) by (auto simp: is_entry_def owned_def)
    note no = counts_okD [OF D(4) oE(2)]
    have n: "unat (rf h2 old) = Suc (held old)" "held old = 0 \<longleftrightarrow> old \<in> set ks"
      using no oE D(2) v2 by auto
    obtain h3 h4 h5 e4 where r: "upd_cell h2 old (\<lambda>e. e\<lparr>h_in_cache := False\<rparr>) = Some h3"
      "unref h3 old = Some (held old = 0, h4)" "h4 old = Some e4" "h_charge e4 = ch h2 old"
      "held old = 0 \<Longrightarrow> lru_remove h4 old = Some h5" "held old \<noteq> 0 \<Longrightarrow> h5 = h4"
      "retired h2 ?d ks (insert a ?O) old h5"
      using retire_insert [OF l2 _ n] oE(2) by (metis insertI2)
    have ce: "counts_except h2 old (insert a ?O) (insert a (E - {old})) held'"
      unfolding counts_except_def
    proof (intro conjI ballI)
      show "unat (rf h2 old) = Suc (held' old)" using n(1) ae held by simp
      show "ck_valid (ky h2 b)" if "b \<in> insert a ?O" for b
        using that a(8) counts_okD(1) [OF D(4), of b] v2 by auto
      show "unat (rf h2 b) = held' b + of_bool (b \<in> insert a (E - {old}))"
        "ic h2 b = (b \<in> insert a (E - {old}))" if "b \<in> insert a ?O - {old}" for b
        using that a(6,7) counts_okD(2,3) [OF D(4), of b] held v2 by (cases "b = a"; simp)+
    qed (use fin in simp)
    have own: "owned (insert a (E - {old})) held' = (if held' old = 0 then insert a ?O - {old} else insert a ?O)"
      using ae oE by (auto simp: owned_def held')
    have xs: "set (remove1 old ks) = {b \<in> insert a (E - {old}). held' b = 0}"
      using D(2,6) ka(2) by (auto simp: set_remove1_eq held')
    have m: "meta_only (insert ?d (insert a ?O)) h h5"
      using agree_trans [OF m2, of "insert ?d (insert a ?O)" h5] r(7) by (simp add: retired_def)
    have r': "retired h2 (lc_lru ?c) ks (insert a ?O) old h5" using r(7) by simp
    have ot: "old \<in> insert a ?O" "old \<notin> insert a (E - {old})" using oE ae by auto
    note i = retired_inv [OF r' ce h2(3) ot own xs u2]
    have ho: "held' old = held old" using ae held by simp
    show ?thesis
    proof (cases "held old = 0")
      case True
      have "cache_inv h5 (?c\<lparr>lc_usage := lc_usage ?c - ch h2 old\<rparr>) (remove1 old ks) (insert a (E - {old})) held'"
        "dead h5 old" using i(1) True ho by auto
      then show ?thesis
        using that [of h5 "?c\<lparr>lc_usage := lc_usage ?c - ch h2 old\<rparr>" old] h2(1,2) False True r m ae
        by (simp add: insert_entry_def same_members_def)
    next
      case f: False
      then have "cache_inv h5 ?c (remove1 old ks) (insert a (E - {old})) held'"
        using i(2) ho by (simp add: lc_usage_table)
      then show ?thesis
        using that [of h5 ?c old] h2(1,2) False f r m ae by (simp add: insert_entry_def same_members_def)
    qed
  qed
qed


lemma lru_insert_spec:
  assumes inv: "cache_inv (heap w) c xs E held" and key: "ck_valid key"
    and a: "a \<noteq> 0" "heap w a = None" and card: "card E < 2 ^ 31"
    and plan: "evict_plan (pr (heap w)) (ch (heap w)) (lc_capacity c) charge (lc_usage c) xs = (ks, es, u)"
  obtains old w' c' where
    "lru_insert w c a junk key hash value charge deleter priority = Some (a, w', c')" "same_members c c'"
    "is_entry (heap w) (E - set es) (hash, ck_bytes key) old"
    "freed w' = freed w @ map (call_of (heap w)) (es @ (if old \<noteq> 0 \<and> held old = 0 then [old] else []))"
    "cache_inv (heap w') c' (remove1 old ks) (insert a (E - set es - {old})) (held(a := 1))"
    "keeps (insert (lc_lru c) (insert a (owned E held)))
       ((heap w)(a \<mapsto> new_handle junk key hash value charge deleter priority)) (heap w')"
    "tidy (heap w') (owned E held) (owned (insert a (E - set es - {old})) (held(a := 1)))"
proof -
  let ?d = "lc_lru c" and ?O = "owned E held" and ?n = "new_handle junk key hash value charge deleter priority"
  define h0 where "h0 = (heap w)(a \<mapsto> ?n)"
  note D = cache_invD [OF inv]
  have ao: "a \<notin> insert ?d ?O" using a(2) D(1) by (auto simp: links_ok_def dll_def)
  have same: "h0 b = heap w b" if "b \<noteq> a" for b using that by (simp add: h0_def)
  have inv0: "cache_inv h0 c xs E held" by (rule cache_inv_same [OF inv]) (use same ao in metis)
  have plan0: "evict_plan (pr h0) (ch h0) (lc_capacity c) charge (lc_usage c) xs = (ks, es, u)"
  proof -
    have "x \<noteq> a" if "x \<in> set xs" for x using ao that D(2) by (auto simp: owned_def)
    then show ?thesis unfolding plan [symmetric] by (intro evict_plan_cong) (simp add: h0_def)
  qed
  obtain h1 c1 where r1: "evict_from_lru h0 c charge = Some (h1, c1, es)" "evicted h0 c E held ks es h1 c1"
    using evict_from_lru_spec [OF inv0 plan0] by blast
  let ?E = "E - set es"
  have inv1: "cache_inv h1 c1 ks ?E held" and m1: "meta_only (insert ?d ?O) h0 h1" and sm: "same_members c c1"
    and es: "distinct es" "\<forall>b \<in> set es. dead h1 b \<and> b \<in> E \<and> held b = 0 \<and> b \<noteq> ?d"
    using r1(2) by (auto simp: evicted_def)
  have lru: "lc_lru c1 = ?d" by (rule same_membersD(3) [OF sm])
  have "h1 a = Some ?n" using agree_outside [OF m1 ao] by (simp add: h0_def)
  then have va: "a \<in> dom h1" "nx h1 a = 0" "pv h1 a = 0" "rf h1 a = 2" "ic h1 a" "ch h1 a = charge"
    "ky h1 a = \<lparr>ck_data = ck_bytes key, ck_size = ck_size key\<rparr>" "hs h1 a = hash"
    by (auto simp: nx_def pv_def rf_def ic_def ch_def ky_def hs_def new_handle_def)
  have kva: "ck_valid (ky h1 a)" "kv h1 a = (hash, ck_bytes key)"
    using key va(7,8) by (simp_all add: ck_valid_def ck_bytes_def kv_def)
  have finE: "finite E" using tbl.rep_finite [OF D(3)] .
  then have card1: "card ?E < 2 ^ 31" using card card_mono [of E ?E] by auto
  have a1: "a \<notin> insert (lc_lru c1) (owned ?E held)" using ao lru by (auto simp: owned_def)
  obtain old h2 c2 where r2:
    "insert_entry h1 c1 a charge es = Some (h2, c2, es @ (if old \<noteq> 0 \<and> held old = 0 then [old] else []))"
    "is_entry h1 ?E (kv h1 a) old" "same_members c1 c2"
    "cache_inv h2 c2 (remove1 old ks) (insert a (?E - {old})) (held(a := 1))"
    "meta_only (insert ?d (insert a (owned ?E held))) h1 h2" "old \<noteq> a"
    "old \<noteq> 0 \<and> held old = 0 \<longrightarrow> dead h2 old"
    using insert_entry_spec [OF inv1 card1 a1 a(1) va(1-5) kva(1) va(6) [symmetric] refl, of es, unfolded lru] .
  define fl where "fl = es @ (if old \<noteq> 0 \<and> held old = 0 then [old] else [])"
  have m: "meta_only (insert ?d (insert a ?O)) h0 h2"
    by (rule agree_mono [OF agree_trans [OF m1 r2(5)]]) (auto simp: owned_def)
  have oE: "old \<noteq> 0 \<Longrightarrow> old \<in> ?E" using r2(2) by (auto simp: is_entry_def split: if_splits)
  have flE: "b \<in> E \<and> held b = 0 \<and> b \<noteq> a \<and> b \<noteq> ?d \<and> b \<noteq> 0" if "b \<in> set fl" for b
  proof -
    have "b \<in> E" "held b = 0" using that es(2) oE by (auto simp: fl_def split: if_splits)
    moreover from this have "b \<in> ?O" by (simp add: owned_def)
    ultimately show ?thesis using ao links_ok_nx(2,3) [OF D(1), of b] by blast
  qed
  have dead2: "dead h2 b" if b: "b \<in> set es" for b
  proof -
    have "b \<notin> insert ?d (insert a (owned ?E held))" using b flE [of b] by (auto simp: fl_def owned_def)
    then show ?thesis using dead_same [of h2 b h1] agree_outside [OF r2(5)] es(2) b by blast
  qed
  have "distinct fl" "\<forall>b \<in> set fl. dead h2 b" using es(1) oE dead2 r2(7) by (auto simp: fl_def)
  moreover have "map (call_of h2) fl = map (call_of (heap w)) fl"
    using flE same meta_only_call [OF m] by (auto simp: call_of_def ky_def vl_def)
  ultimately have free: "free_all (w\<lparr>heap := h2\<rparr>) fl =
      Some (w\<lparr>heap := h2 |` (- set fl), freed := freed w @ map (call_of (heap w)) fl\<rparr>)"
    using free_all_spec [of fl "w\<lparr>heap := h2\<rparr>"] by simp
  have inv2: "cache_inv (h2 |` (- set fl)) c2 (remove1 old ks) (insert a (?E - {old})) (held(a := 1))"
  proof (rule cache_inv_same [OF r2(4)])
    fix b assume b: "b \<in> insert (lc_lru c2) (owned (insert a (?E - {old})) (held(a := 1)))"
    have lru2: "lc_lru c2 = ?d" using lru same_membersD(3) [OF r2(3)] by simp
    have "b \<notin> set fl"
    proof
      assume f: "b \<in> set fl"
      have "b \<in> ?E - {old}" using b flE [OF f] lru2 by (auto simp: owned_def)
      then show False using f by (auto simp: fl_def split: if_splits)
    qed
    then show "(h2 |` (- set fl)) b = h2 b" by simp
  qed
  have "keeps (insert ?d (insert a ?O)) h0 (h2 |` (- set fl))"
    by (rule keeps_free [OF keeps_meta [OF m]]) (use flE in \<open>auto simp: owned_def\<close>)
  moreover have "tidy (h2 |` (- set fl)) ?O (owned (insert a (?E - {old})) (held(a := 1)))"
    using D(7) by (cases "old = 0") (auto simp: tidy_def owned_def fl_def split: if_splits)
  moreover have "lru_insert w c a junk key hash value charge deleter priority =
      Some (a, w\<lparr>heap := h2 |` (- set fl), freed := freed w @ map (call_of (heap w)) fl\<rparr>, c2)"
    using a key r1(1) r2(1) free by (simp add: lru_insert_def h0_def fl_def)
  moreover have "is_entry (heap w) ?E (hash, ck_bytes key) old"
  proof -
    have "kv h1 b = kv (heap w) b" if "b \<in> ?E" for b
    proof -
      have "b \<noteq> a" using that ao by (auto simp: owned_def)
      then show ?thesis using same [of b] meta_only_views(6) [OF m1] by (simp add: kv_def hs_def ky_def)
    qed
    then show ?thesis using r2(2) kva(2) by (auto simp: is_entry_def image_iff split: if_splits)
  qed
  ultimately show ?thesis
    using that inv2 same_members_trans [OF sm r2(3)] by (simp add: h0_def fl_def)
qed

subsection \<open>Construction\<close>

lemma lru_cache_new_spec:
  assumes "d \<noteq> 0" "heap w d = None"
  obtains w' c where "lru_cache_new w d junk = Some (w', c)" "cache_inv (heap w') c [] {} (\<lambda>_. 0)"
    "lc_lru c = d" "lc_capacity c = 0" "freed w' = freed w"
    "heap w' = (heap w)(d \<mapsto> junk\<lparr>h_next := d, h_prev := d\<rparr>)"
proof -
  let ?h = "(heap w)(d \<mapsto> junk\<lparr>h_next := d, h_prev := d\<rparr>)"
  obtain t where t: "table_new ?h = Some (?h, t)" "table_rep ?h t {}"
    using table_new_spec [of ?h] by blast
  let ?c = "\<lparr>lc_capacity = 0, lc_usage = 0, lc_last_id = 0, lc_lru = d, lc_table = t,
      lc_lookup_count = 0, lc_hit_count = 0\<rparr>"
  have "cache_inv ?h ?c [] {} (\<lambda>_. 0)"
    using t(2) assms by (simp add: cache_inv_def links_ok_def dll_def counts_ok_def owned_def)
  with t(1) assms that [of "w\<lparr>heap := ?h\<rparr>" ?c] show ?thesis by (simp add: lru_cache_new_def)
qed

end
