(* ===== verification/ShardedCache.thy ===== *)
theory ShardedCache
  imports LruOps
begin

text \<open>
  The sharded cache (class ShardedLRUCache of src/modules/lru_cache/lru_cache.hh and
  lru_cache.cc): an array of shards that share one heap; a key goes to the shard that the
  top bits of its hash name.  Each shard has its own mutex, so an operation on one shard
  is one step; prune, set\_capacity and get\_memory\_usage visit the shards one after the
  other.
\<close>

record sharded_cache =
  sc_shards :: "lru_cache list"
  sc_last_id :: u64
  sc_capacity :: u64

definition kNumShardBits :: nat where "kNumShardBits = 5"

definition kNumShards :: nat where "kNumShards = 2 ^ kNumShardBits"

definition hash_slice :: "cache_key \<Rightarrow> u32 option" where
  "hash_slice s = ck_hash s 0"

definition shard_index :: "u32 \<Rightarrow> nat" where
  "shard_index hash = unat (drop_bit (32 - kNumShardBits) hash)"

text \<open>The shard at index i of the array; an index out of range is a fault.\<close>

definition shard_at :: "sharded_cache \<Rightarrow> nat \<Rightarrow> lru_cache option" where
  "shard_at s i = (if i < length (sc_shards s) then Some (sc_shards s ! i) else None)"

definition set_shard :: "sharded_cache \<Rightarrow> nat \<Rightarrow> lru_cache \<Rightarrow> sharded_cache" where
  "set_shard s i c = s\<lparr>sc_shards := (sc_shards s)[i := c]\<rparr>"

text \<open>The loops over the shards, by the indices that are left.\<close>

fun set_capacity_at :: "'v world \<Rightarrow> sharded_cache \<Rightarrow> u64 \<Rightarrow> nat list \<Rightarrow> ('v world \<times> sharded_cache) option" where
  "set_capacity_at w s per_shard [] = Some (w, s)"
| "set_capacity_at w s per_shard (i # is) =
     do { c \<leftarrow> shard_at s i;
          (w, c) \<leftarrow> lru_set_capacity w c per_shard;
          set_capacity_at w (set_shard s i c) per_shard is }"

fun prune_at :: "'v world \<Rightarrow> sharded_cache \<Rightarrow> 32 word \<Rightarrow> nat list \<Rightarrow> (32 word \<times> 'v world \<times> sharded_cache) option" where
  "prune_at w s num_prune [] = Some (num_prune, w, s)"
| "prune_at w s num_prune (i # is) =
     do { c \<leftarrow> shard_at s i;
          (n, w, c) \<leftarrow> lru_prune w c;
          prune_at w (set_shard s i c) (num_prune + n) is }"

fun total_usage :: "u64 \<Rightarrow> lru_cache list \<Rightarrow> u64" where
  "total_usage acc [] = acc"
| "total_usage acc (c # cs) = total_usage (acc + lc_usage c) cs"

definition per_shard_of :: "u64 \<Rightarrow> u64" where
  "per_shard_of capacity = (capacity + (of_nat kNumShards - 1)) div of_nat kNumShards"

text \<open>The members \_shards are constructed first, their dummy heads at the addresses ds.\<close>

fun new_shards :: "'v world \<Rightarrow> addr list \<Rightarrow> 'v lru_handle \<Rightarrow> ('v world \<times> lru_cache list) option" where
  "new_shards w [] junk = Some (w, [])"
| "new_shards w (d # ds) junk =
     do { (w, c) \<leftarrow> lru_cache_new w d junk;
          (w, cs) \<leftarrow> new_shards w ds junk;
          Some (w, c # cs) }"

definition sharded_new :: "'v world \<Rightarrow> addr list \<Rightarrow> 'v lru_handle \<Rightarrow> u64 \<Rightarrow> ('v world \<times> sharded_cache) option" where
  "sharded_new w ds junk capacity =
     do { guard (length ds = kNumShards);
          (w, cs) \<leftarrow> new_shards w ds junk;
          set_capacity_at w \<lparr>sc_shards = cs, sc_last_id = 0, sc_capacity = capacity\<rparr>
            (per_shard_of capacity) [0..<kNumShards] }"

definition sharded_set_capacity :: "'v world \<Rightarrow> sharded_cache \<Rightarrow> u64 \<Rightarrow> ('v world \<times> sharded_cache) option" where
  "sharded_set_capacity w s capacity =
     do { (w, s) \<leftarrow> set_capacity_at w s (per_shard_of capacity) [0..<kNumShards];
          Some (w, s\<lparr>sc_capacity := capacity\<rparr>) }"

definition sharded_insert ::
  "'v world \<Rightarrow> sharded_cache \<Rightarrow> addr \<Rightarrow> addr \<Rightarrow> cache_key \<Rightarrow> 'v \<Rightarrow> u64 \<Rightarrow> nat \<Rightarrow> CachePriority \<Rightarrow>
     (addr \<times> 'v world \<times> sharded_cache) option" where
  "sharded_insert w s a junk key value charge deleter priority =
     do { hash \<leftarrow> hash_slice key;
          c \<leftarrow> shard_at s (shard_index hash);
          (a, w, c) \<leftarrow> lru_insert w c a junk key hash value charge deleter priority;
          Some (a, w, set_shard s (shard_index hash) c) }"

definition sharded_lookup ::
  "'v world \<Rightarrow> sharded_cache \<Rightarrow> cache_key \<Rightarrow> (addr \<times> 'v world \<times> sharded_cache) option" where
  "sharded_lookup w s key =
     do { hash \<leftarrow> hash_slice key;
          c \<leftarrow> shard_at s (shard_index hash);
          (a, w, c) \<leftarrow> lru_lookup w c key hash;
          Some (a, w, set_shard s (shard_index hash) c) }"

definition sharded_release :: "'v world \<Rightarrow> sharded_cache \<Rightarrow> addr \<Rightarrow> ('v world \<times> sharded_cache) option" where
  "sharded_release w s a =
     do { e \<leftarrow> heap w a;
          c \<leftarrow> shard_at s (shard_index (h_hash e));
          (w, c) \<leftarrow> lru_release w c a;
          Some (w, set_shard s (shard_index (h_hash e)) c) }"

definition sharded_erase :: "'v world \<Rightarrow> sharded_cache \<Rightarrow> cache_key \<Rightarrow> ('v world \<times> sharded_cache) option" where
  "sharded_erase w s key =
     do { hash \<leftarrow> hash_slice key;
          c \<leftarrow> shard_at s (shard_index hash);
          (w, c) \<leftarrow> lru_erase w c key hash;
          Some (w, set_shard s (shard_index hash) c) }"

definition sharded_value :: "'v world \<Rightarrow> addr \<Rightarrow> 'v option" where
  "sharded_value w a = map_option h_value (heap w a)"

definition sharded_value_charge :: "'v world \<Rightarrow> addr \<Rightarrow> ('v \<times> u64) option" where
  "sharded_value_charge w a = map_option (\<lambda>e. (h_value e, h_charge e)) (heap w a)"

definition sharded_new_id :: "sharded_cache \<Rightarrow> u64 \<times> sharded_cache" where
  "sharded_new_id s = (sc_last_id s + 1, s\<lparr>sc_last_id := sc_last_id s + 1\<rparr>)"

definition sharded_prune :: "'v world \<Rightarrow> sharded_cache \<Rightarrow> ('v world \<times> sharded_cache) option" where
  "sharded_prune w s =
     do { (_, w, s) \<leftarrow> prune_at w s 0 [0..<kNumShards]; Some (w, s) }"

definition sharded_memory_usage :: "sharded_cache \<Rightarrow> u64" where
  "sharded_memory_usage s = total_usage 0 (sc_shards s)"

section \<open>Invariant\<close>

text \<open>The ghost state of one shard, and the part of the heap it has to itself.\<close>

record ghost =
  g_list :: "addr list"
  g_entries :: "addr set"
  g_held :: "addr \<Rightarrow> nat"

definition shard_inv :: "'v lru_heap \<Rightarrow> lru_cache \<Rightarrow> ghost \<Rightarrow> bool" where
  "shard_inv h c g \<longleftrightarrow> cache_inv h c (g_list g) (g_entries g) (g_held g)"

definition g_own :: "ghost \<Rightarrow> addr set" where
  "g_own g = owned (g_entries g) (g_held g)"

definition area :: "lru_cache \<Rightarrow> ghost \<Rightarrow> addr set" where
  "area c g = insert (lc_lru c) (g_own g)"

definition shards_inv ::
  "(('a \<rightharpoonup> 'b) \<Rightarrow> 'c \<Rightarrow> 'g \<Rightarrow> bool) \<Rightarrow> ('c \<Rightarrow> 'g \<Rightarrow> 'a set) \<Rightarrow> ('a \<rightharpoonup> 'b) \<Rightarrow> 'c list \<Rightarrow> 'g list \<Rightarrow> bool" where
  "shards_inv ok ar h cs gs \<longleftrightarrow>
     length gs = length cs \<and> (\<forall>i < length cs. ok h (cs ! i) (gs ! i)) \<and>
     (\<forall>i < length cs. \<forall>j < length cs. i \<noteq> j \<longrightarrow> ar (cs ! i) (gs ! i) \<inter> ar (cs ! j) (gs ! j) = {})"

text \<open>
  The whole cache: 32 shards side by side, each with handles of its own hashes only.  Every
  allocated cell is the dummy head of a shard, an entry of a table or a handle that some
  client holds: nothing leaks.
\<close>

definition sharded_inv :: "'v lru_heap \<Rightarrow> sharded_cache \<Rightarrow> ghost list \<Rightarrow> bool" where
  "sharded_inv h s gs \<longleftrightarrow>
     length (sc_shards s) = kNumShards \<and> shards_inv shard_inv area h (sc_shards s) gs \<and>
     (\<forall>i < kNumShards. \<forall>a \<in> g_own (gs ! i). shard_index (hs h a) = i) \<and>
     dom h = (\<Union>i < kNumShards. area (sc_shards s ! i) (gs ! i))"

text \<open>The references the clients hold in total.\<close>

definition total_held :: "ghost list \<Rightarrow> addr \<Rightarrow> nat" where
  "total_held gs a = sum_list (map (\<lambda>g. g_held g a) gs)"

text \<open>What a lookup of a key finds: the entry of the shard of its hash, or nullptr.\<close>

definition sharded_entry :: "'v lru_heap \<Rightarrow> ghost list \<Rightarrow> cache_key \<Rightarrow> addr \<Rightarrow> bool" where
  "sharded_entry h gs key a \<longleftrightarrow>
     (\<exists>hash. hash_slice key = Some hash \<and>
        is_entry h (g_entries (gs ! shard_index hash)) (hash, ck_bytes key) a)"

definition put_ghost :: "ghost list \<Rightarrow> nat \<Rightarrow> addr list \<Rightarrow> addr set \<Rightarrow> (addr \<Rightarrow> nat) \<Rightarrow> ghost list" where
  "put_ghost gs i xs E held = gs[i := \<lparr>g_list = xs, g_entries = E, g_held = held\<rparr>]"

text \<open>What the loops over the shards keep: the references the clients hold, and the entries only shrink.\<close>

definition shrunk :: "ghost list \<Rightarrow> ghost list \<Rightarrow> bool" where
  "shrunk gs gs' \<longleftrightarrow> length gs' = length gs \<and>
     (\<forall>i < length gs. g_held (gs' ! i) = g_held (gs ! i) \<and> g_entries (gs' ! i) \<subseteq> g_entries (gs ! i))"

definition no_ghost :: ghost where
  "no_ghost = \<lparr>g_list = [], g_entries = {}, g_held = (\<lambda>_. 0)\<rparr>"

section \<open>Shards side by side\<close>

text \<open>
  What makes an array of shards work: the invariant of a shard depends on its own part of
  the heap only.  An operation on one shard that stays in that part, up to freshly
  allocated cells, keeps the invariants of all shards.
\<close>

locale framed_shards =
  fixes ok :: "('a \<rightharpoonup> 'b) \<Rightarrow> 'c \<Rightarrow> 'g \<Rightarrow> bool" and ar :: "'c \<Rightarrow> 'g \<Rightarrow> 'a set"
  assumes frame: "ok h c g \<Longrightarrow> (\<And>a. a \<in> ar c g \<Longrightarrow> h' a = h a) \<Longrightarrow> ok h' c g"
    and ar_dom: "ok h c g \<Longrightarrow> ar c g \<subseteq> dom h"
begin

lemma shard_step:
  assumes all: "shards_inv ok ar h cs gs" and i: "i < length cs"
    and new: "ok h' c' g'" "ar c' g' \<subseteq> ar (cs ! i) (gs ! i) \<union> F" "F \<inter> dom h = {}"
    and keep: "\<And>a. a \<notin> ar (cs ! i) (gs ! i) \<union> F \<Longrightarrow> h' a = h a"
  shows "shards_inv ok ar h' (cs[i := c']) (gs[i := g'])"
proof -
  have len: "length gs = length cs" and inv: "\<And>j. j < length cs \<Longrightarrow> ok h (cs ! j) (gs ! j)"
    and disj: "\<And>j k. j < length cs \<Longrightarrow> k < length cs \<Longrightarrow> j \<noteq> k \<Longrightarrow>
      ar (cs ! j) (gs ! j) \<inter> ar (cs ! k) (gs ! k) = {}"
    using all by (auto simp: shards_inv_def)
  have out: "ar (cs ! j) (gs ! j) \<inter> (ar (cs ! i) (gs ! i) \<union> F) = {}" if "j < length cs" "j \<noteq> i" for j
    using disj [OF that(1) i that(2)] ar_dom [OF inv [OF that(1)]] new(3) by blast
  have "ok h' (cs ! j) (gs ! j)" if "j < length cs" "j \<noteq> i" for j
    by (rule frame [OF inv [OF that(1)]]) (use out [OF that] keep in blast)
  then have inv': "ok h' (cs[i := c'] ! j) (gs[i := g'] ! j)" if "j < length cs" for j
    using that new(1) i len by (cases "j = i") auto
  have "ar (cs[i := c'] ! j) (gs[i := g'] ! j) \<inter> ar (cs[i := c'] ! k) (gs[i := g'] ! k) = {}"
    if "j < length cs" "k < length cs" "j \<noteq> k" for j k
  proof -
    consider "j = i" | "k = i" | "j \<noteq> i" "k \<noteq> i" by blast
    then show ?thesis
      using that disj out new(2) i len by cases (simp; blast)+
  qed
  with inv' len show ?thesis by (simp add: shards_inv_def)
qed

lemma shard_frame:
  assumes "shards_inv ok ar h cs gs" "\<And>i a. i < length cs \<Longrightarrow> a \<in> ar (cs ! i) (gs ! i) \<Longrightarrow> h' a = h a"
  shows "shards_inv ok ar h' cs gs"
  using assms frame [of h _ _ h'] by (simp add: shards_inv_def)

lemma shard_append:
  assumes all: "shards_inv ok ar h cs gs" and new: "ok h c g"
    and out: "\<And>i. i < length cs \<Longrightarrow> ar (cs ! i) (gs ! i) \<inter> ar c g = {}"
  shows "shards_inv ok ar h (c # cs) (g # gs)"
  using assms by (fastforce simp: shards_inv_def nth_Cons split: nat.splits)

end

interpretation lru_shards: framed_shards shard_inv area
proof
  fix h :: "'v lru_heap" and c g h'
  assume inv: "shard_inv h c g"
  then show "area c g \<subseteq> dom h"
    by (auto simp: shard_inv_def cache_inv_def links_ok_def dll_def area_def g_own_def)
  assume "\<And>a. a \<in> area c g \<Longrightarrow> h' a = h a"
  with inv show "shard_inv h' c g"
    unfolding shard_inv_def area_def g_own_def by (rule cache_inv_same)
qed

subsection \<open>One step of one shard\<close>

lemma shard_index_less: "shard_index hash < kNumShards"
proof -
  have "unat hash < 2 ^ 32" by (rule order.strict_trans2 [OF unsigned_less]) simp
  then show ?thesis
    unfolding shard_index_def kNumShards_def kNumShardBits_def unat_drop_bit_eq
    by (simp add: drop_bit_eq_div)
qed

lemma hash_slice_some: "ck_valid key \<Longrightarrow> \<exists>hash. hash_slice key = Some hash"
  by (simp add: hash_slice_def ck_hash_def ck_valid_def)

lemma keeps_meta_cell:
  assumes "keeps A h h'" "a \<in> dom h'"
  shows "a \<in> dom h" "strip_meta (the (h' a)) = strip_meta (the (h a))"
proof -
  obtain e' where e': "h' a = Some e'" using assms(2) by blast
  then obtain e where "h a = Some e" "strip_meta e' = strip_meta e" using assms(1) unfolding keeps_def by blast
  with e' show "a \<in> dom h" "strip_meta (the (h' a)) = strip_meta (the (h a))" by auto
qed

lemma keeps_views:
  assumes "keeps A h h'" "a \<in> dom h'"
  shows "hs h' a = hs h a" "ky h' a = ky h a" "vl h' a = vl h a" "ch h' a = ch h a" "pr h' a = pr h a"
    "kv h' a = kv h a" "h_deleter (the (h' a)) = h_deleter (the (h a))"
  using strip_meta_eq [OF keeps_meta_cell(2) [OF assms]]
  by (simp_all add: hs_def ky_def vl_def ch_def pr_def kv_def)

lemma shard_at_inv:
  assumes "sharded_inv h s gs" "i < kNumShards"
  shows "shard_at s i = Some (sc_shards s ! i)"
    "cache_inv h (sc_shards s ! i) (g_list (gs ! i)) (g_entries (gs ! i)) (g_held (gs ! i))"
    "length gs = kNumShards"
  using assms by (auto simp: sharded_inv_def shard_at_def shards_inv_def shard_inv_def)

lemma area_dom: "sharded_inv h s gs \<Longrightarrow> i < kNumShards \<Longrightarrow> area (sc_shards s ! i) (gs ! i) \<subseteq> dom h"
  using lru_shards.ar_dom [of h] by (auto simp: sharded_inv_def shards_inv_def)

lemma own_dom: "cache_inv h c xs E held \<Longrightarrow> owned E held \<subseteq> dom h"
  by (simp add: cache_inv_def links_ok_def)

lemma sharded_step:
  assumes inv: "sharded_inv h s gs" and i: "i < kNumShards"
    and new: "cache_inv h' c' xs E held" "lc_lru c' = lc_lru (sc_shards s ! i)"
      "owned E held \<subseteq> g_own (gs ! i) \<union> F"
    and F: "F \<inter> dom h = {}" "F \<subseteq> owned E held" "\<And>a. a \<notin> F \<Longrightarrow> h0 a = h a" "\<And>a. a \<in> F \<Longrightarrow> shard_index (hs h0 a) = i"
    and keep: "keeps (insert (lc_lru (sc_shards s ! i)) (F \<union> g_own (gs ! i))) h0 h'"
    and tidy: "tidy h' (g_own (gs ! i)) (owned E held)"
  shows "sharded_inv h' (set_shard s i c') (gs[i := \<lparr>g_list = xs, g_entries = E, g_held = held\<rparr>])"
proof -
  let ?g = "\<lparr>g_list = xs, g_entries = E, g_held = held\<rparr>" and ?cs = "sc_shards s"
  have len: "length ?cs = kNumShards" "length gs = kNumShards" and all: "shards_inv shard_inv area h ?cs gs"
    and own: "\<And>j a. j < kNumShards \<Longrightarrow> a \<in> g_own (gs ! j) \<Longrightarrow> shard_index (hs h a) = j"
    and dom: "dom h = (\<Union>i < kNumShards. area (?cs ! i) (gs ! i))"
    using inv by (auto simp: sharded_inv_def shards_inv_def)
  have out: "h' a = h a" if "a \<notin> area (?cs ! i) (gs ! i) \<union> F" for a
    using keep that F(3) [of a] by (simp add: keeps_def area_def)
  have ok: "shards_inv shard_inv area h' (?cs[i := c']) (gs[i := ?g])"
  proof (rule lru_shards.shard_step [OF all _ _ _ F(1) out])
    show "shard_inv h' c' ?g" using new(1) by (simp add: shard_inv_def)
    show "area c' ?g \<subseteq> area (?cs ! i) (gs ! i) \<union> F" using new(2,3) by (auto simp: area_def g_own_def)
  qed (use i len in auto)
  have ix: "shard_index (hs h' a) = j" if j: "j < kNumShards" "a \<in> g_own (gs[i := ?g] ! j)" for j a
  proof -
    have own': "g_own (gs[i := ?g] ! j) \<subseteq> dom h'"
      using lru_shards.ar_dom [of h'] ok j(1) len by (fastforce simp: shards_inv_def area_def)
    have "hs h' a = hs h0 a" using keeps_views(1) [OF keep] own' j(2) by blast
    moreover have "hs h0 a = hs h a" if "a \<notin> F" using F(3) [OF that] by (simp add: hs_def)
    moreover have "a \<notin> F" if "j \<noteq> i"
    proof -
      have "a \<in> area (?cs ! j) (gs ! j)" using j that by (simp add: area_def)
      then show ?thesis using area_dom [OF inv j(1)] F(1) by blast
    qed
    moreover have "a \<in> g_own (gs ! j)" if "a \<notin> F"
      using j new(3) that i len by (cases "j = i") (auto simp: g_own_def)
    ultimately show ?thesis using own [OF j(1), of a] F(4) [of a] by (metis)
  qed
  have "a \<in> (\<Union>j < kNumShards. area (?cs[i := c'] ! j) (gs[i := ?g] ! j))" if a: "a \<in> dom h'" for a
  proof (cases "a \<in> F \<union> area (?cs ! i) (gs ! i)")
    case True
    then have "a \<in> area c' ?g" using F(2) a tidy new(2) by (auto simp: area_def g_own_def tidy_def)
    then show ?thesis using i len by (intro UN_I [of i]) simp_all
  next
    case False
    then have "a \<in> dom h" using out [of a] a by (simp add: domIff)
    then obtain j where j: "j < kNumShards" "a \<in> area (?cs ! j) (gs ! j)" unfolding dom by blast
    moreover have "j \<noteq> i" using False j by blast
    ultimately show ?thesis by (intro UN_I [of j]) simp_all
  qed
  moreover have "area (?cs[i := c'] ! j) (gs[i := ?g] ! j) \<subseteq> dom h'" if "j < kNumShards" for j
    using lru_shards.ar_dom [of h'] ok that len by (simp add: shards_inv_def)
  ultimately have "dom h' = (\<Union>j < kNumShards. area (?cs[i := c'] ! j) (gs[i := ?g] ! j))" by blast
  with ix show ?thesis using ok len by (simp add: sharded_inv_def set_shard_def)
qed

lemma sharded_update:
  assumes inv: "sharded_inv h s gs" and i: "i < kNumShards"
    and new: "cache_inv h' c' xs E held" "lc_lru c' = lc_lru (sc_shards s ! i)"
      "owned E held \<subseteq> g_own (gs ! i)"
    and keep: "keeps (insert (lc_lru (sc_shards s ! i)) (g_own (gs ! i))) h h'"
    and tidy: "tidy h' (g_own (gs ! i)) (owned E held)"
  shows "sharded_inv h' (set_shard s i c') (gs[i := \<lparr>g_list = xs, g_entries = E, g_held = held\<rparr>])"
  using sharded_step [OF inv i new(1,2), of "{}" h] new(3) keep tidy by simp

subsection \<open>Operations on one shard\<close>

lemma own_index: "sharded_inv h s gs \<Longrightarrow> i < kNumShards \<Longrightarrow> a \<in> g_own (gs ! i) \<Longrightarrow> shard_index (hs h a) = i"
  by (simp add: sharded_inv_def)

lemma sharded_lookup_spec:
  assumes inv: "sharded_inv (heap w) s gs" and key: "hash_slice key = Some hash" "ck_valid key"
    and i: "i = shard_index hash" and held: "\<forall>a. g_held (gs ! i) a + 2 < 2 ^ 32"
  obtains a w' s' where "sharded_lookup w s key = Some (a, w', s')" "freed w' = freed w"
    "is_entry (heap w) (g_entries (gs ! i)) (hash, ck_bytes key) a"
    "sharded_inv (heap w') s' (put_ghost gs i (remove1 a (g_list (gs ! i))) (g_entries (gs ! i))
       ((g_held (gs ! i))(a := g_held (gs ! i) a + of_bool (a \<noteq> 0))))"
    "keeps (area (sc_shards s ! i) (gs ! i)) (heap w) (heap w')"
proof -
  let ?c = "sc_shards s ! i" and ?g = "gs ! i"
  have lt: "i < kNumShards" by (simp add: i shard_index_less)
  note at = shard_at_inv [OF inv lt]
  obtain a w' where r: "lru_lookup w ?c key hash = Some (a, w', ?c\<lparr>lc_lookup_count := lc_lookup_count ?c + 1,
      lc_hit_count := lc_hit_count ?c + of_bool (a \<noteq> 0)\<rparr>)"
    "is_entry (heap w) (g_entries ?g) (hash, ck_bytes key) a" "freed w' = freed w"
    "cache_inv (heap w') ?c (remove1 a (g_list ?g)) (g_entries ?g) ((g_held ?g)(a := g_held ?g a + of_bool (a \<noteq> 0)))"
    "keeps (insert (lc_lru ?c) (owned (g_entries ?g) (g_held ?g))) (heap w) (heap w')"
    using lru_lookup_spec [OF at(2) key(2), of hash] held by blast
  let ?c' = "?c\<lparr>lc_lookup_count := lc_lookup_count ?c + 1, lc_hit_count := lc_hit_count ?c + of_bool (a \<noteq> 0)\<rparr>"
  have "sharded_inv (heap w') (set_shard s i ?c') (put_ghost gs i (remove1 a (g_list ?g)) (g_entries ?g)
      ((g_held ?g)(a := g_held ?g a + of_bool (a \<noteq> 0))))"
    unfolding put_ghost_def
  proof (rule sharded_update [OF inv lt])
    show "cache_inv (heap w') ?c' (remove1 a (g_list ?g)) (g_entries ?g)
        ((g_held ?g)(a := g_held ?g a + of_bool (a \<noteq> 0)))" using r(4) by (simp add: cache_inv_def)
    show "owned (g_entries ?g) ((g_held ?g)(a := g_held ?g a + of_bool (a \<noteq> 0))) \<subseteq> g_own ?g"
      using r(2) by (auto simp: owned_def g_own_def is_entry_def split: if_splits)
    show "keeps (insert (lc_lru ?c) (g_own ?g)) (heap w) (heap w')" using r(5) by (simp add: g_own_def)
    show "tidy (heap w') (g_own ?g) (owned (g_entries ?g) ((g_held ?g)(a := g_held ?g a + of_bool (a \<noteq> 0))))"
      by (auto simp: tidy_def g_own_def owned_def)
  qed simp
  moreover have "sharded_lookup w s key = Some (a, w', set_shard s i ?c')"
    using key(1) at(1) r(1) by (simp add: sharded_lookup_def i)
  ultimately show ?thesis using that r(2,3,5) by (simp add: area_def g_own_def)
qed

lemma sharded_release_spec:
  assumes inv: "sharded_inv (heap w) s gs" and i: "i < kNumShards" and held: "g_held (gs ! i) a > 0"
    and rel: "rel = releases (sc_shards s ! i) (g_entries (gs ! i)) (g_held (gs ! i)) a"
  obtains w' s' xs' where "sharded_release w s a = Some (w', s')"
    "freed w' = freed w @ (if rel then [call_of (heap w) a] else [])"
    "sharded_inv (heap w') s' (put_ghost gs i xs' (if rel then g_entries (gs ! i) - {a} else g_entries (gs ! i))
       ((g_held (gs ! i))(a := g_held (gs ! i) a - 1)))"
    "keeps (area (sc_shards s ! i) (gs ! i)) (heap w) (heap w')"
proof -
  let ?c = "sc_shards s ! i" and ?g = "gs ! i"
  note at = shard_at_inv [OF inv i]
  have own: "a \<in> owned (g_entries ?g) (g_held ?g)" using held by (simp add: owned_def)
  obtain e where e: "heap w a = Some e" using own_dom [OF at(2)] own by blast
  have ix: "shard_index (h_hash e) = i"
    using own_index [OF inv i, of a] own e by (simp add: g_own_def hs_def)
  obtain xs' E' held' where ghost: "E' = (if rel then g_entries ?g - {a} else g_entries ?g)"
    "held' = (g_held ?g)(a := g_held ?g a - 1)" 
    "xs' = (if g_held ?g a = 1 \<and> a \<in> g_entries ?g \<and> \<not> rel then g_list ?g @ [a] else g_list ?g)" by blast
  obtain w' c' where r: "lru_release w ?c a = Some (w', c')" "same_members ?c c'"
    "freed w' = freed w @ (if rel then [call_of (heap w) a] else [])"
    "cache_inv (heap w') c' xs' E' held'"
    "keeps (insert (lc_lru ?c) (owned (g_entries ?g) (g_held ?g))) (heap w) (heap w')"
    "tidy (heap w') (owned (g_entries ?g) (g_held ?g)) (owned E' held')"
    using lru_release_spec [OF at(2) held refl] unfolding ghost rel by blast
  have "sharded_inv (heap w') (set_shard s i c') (put_ghost gs i xs' E' held')"
    unfolding put_ghost_def
  proof (rule sharded_update [OF inv i r(4) same_membersD(3) [OF r(2)]])
    show "owned E' held' \<subseteq> g_own ?g"
      using held by (auto simp: ghost owned_def g_own_def split: if_splits)
  qed (use r(5,6) in \<open>simp_all add: g_own_def\<close>)
  moreover have "sharded_release w s a = Some (w', set_shard s i c')"
    using e at(1) r(1) by (simp add: sharded_release_def ix)
  ultimately show ?thesis using that r(3,5) by (simp add: area_def g_own_def ghost)
qed

lemma sharded_erase_spec:
  assumes inv: "sharded_inv (heap w) s gs" and key: "hash_slice key = Some hash" "ck_valid key"
    and i: "i = shard_index hash"
  obtains a w' s' where "sharded_erase w s key = Some (w', s')"
    "is_entry (heap w) (g_entries (gs ! i)) (hash, ck_bytes key) a"
    "freed w' = freed w @ (if a \<noteq> 0 \<and> g_held (gs ! i) a = 0 then [call_of (heap w) a] else [])"
    "sharded_inv (heap w') s' (put_ghost gs i (remove1 a (g_list (gs ! i))) (g_entries (gs ! i) - {a}) (g_held (gs ! i)))"
    "keeps (area (sc_shards s ! i) (gs ! i)) (heap w) (heap w')"
proof -
  let ?c = "sc_shards s ! i" and ?g = "gs ! i"
  have lt: "i < kNumShards" by (simp add: i shard_index_less)
  note at = shard_at_inv [OF inv lt]
  obtain a w' c' where r: "lru_erase w ?c key hash = Some (w', c')" "same_members ?c c'"
    "is_entry (heap w) (g_entries ?g) (hash, ck_bytes key) a"
    "freed w' = freed w @ (if a \<noteq> 0 \<and> g_held ?g a = 0 then [call_of (heap w) a] else [])"
    "cache_inv (heap w') c' (remove1 a (g_list ?g)) (g_entries ?g - {a}) (g_held ?g)"
    "keeps (insert (lc_lru ?c) (owned (g_entries ?g) (g_held ?g))) (heap w) (heap w')"
    "tidy (heap w') (owned (g_entries ?g) (g_held ?g)) (owned (g_entries ?g - {a}) (g_held ?g))"
    by (rule lru_erase_spec [OF at(2) key(2)])
  have "sharded_inv (heap w') (set_shard s i c')
      (put_ghost gs i (remove1 a (g_list ?g)) (g_entries ?g - {a}) (g_held ?g))"
    unfolding put_ghost_def
    by (rule sharded_update [OF inv lt r(5) same_membersD(3) [OF r(2)]])
      (use r(6,7) in \<open>auto simp: g_own_def owned_def\<close>)
  moreover have "sharded_erase w s key = Some (w', set_shard s i c')"
    using key(1) at(1) r(1) by (simp add: sharded_erase_def i)
  ultimately show ?thesis using that r(3,4,6) by (simp add: area_def g_own_def)
qed

lemma sharded_insert_spec:
  assumes inv: "sharded_inv (heap w) s gs" and key: "hash_slice key = Some hash" "ck_valid key"
    and i: "i = shard_index hash" and a: "a \<noteq> 0" "heap w a = None" and card: "card (g_entries (gs ! i)) < 2 ^ 31"
    and plan: "evict_plan (pr (heap w)) (ch (heap w)) (lc_capacity (sc_shards s ! i)) charge
      (lc_usage (sc_shards s ! i)) (g_list (gs ! i)) = (ks, es, u)"
  obtains old w' s' where
    "sharded_insert w s a junk key value charge deleter priority = Some (a, w', s')"
    "is_entry (heap w) (g_entries (gs ! i) - set es) (hash, ck_bytes key) old"
    "freed w' = freed w @ map (call_of (heap w)) (es @ (if old \<noteq> 0 \<and> g_held (gs ! i) old = 0 then [old] else []))"
    "sharded_inv (heap w') s' (put_ghost gs i (remove1 old ks) (insert a (g_entries (gs ! i) - set es - {old}))
       ((g_held (gs ! i))(a := 1)))"
    "keeps (insert a (area (sc_shards s ! i) (gs ! i)))
       ((heap w)(a \<mapsto> new_handle junk key hash value charge deleter priority)) (heap w')"
proof -
  let ?c = "sc_shards s ! i" and ?g = "gs ! i" and ?n = "new_handle junk key hash value charge deleter priority"
  have lt: "i < kNumShards" by (simp add: i shard_index_less)
  note at = shard_at_inv [OF inv lt]
  obtain old w' c' where r: "lru_insert w ?c a junk key hash value charge deleter priority = Some (a, w', c')"
    "same_members ?c c'" "is_entry (heap w) (g_entries ?g - set es) (hash, ck_bytes key) old"
    "freed w' = freed w @ map (call_of (heap w)) (es @ (if old \<noteq> 0 \<and> g_held ?g old = 0 then [old] else []))"
    "cache_inv (heap w') c' (remove1 old ks) (insert a (g_entries ?g - set es - {old})) ((g_held ?g)(a := 1))"
    "keeps (insert (lc_lru ?c) (insert a (owned (g_entries ?g) (g_held ?g)))) ((heap w)(a \<mapsto> ?n)) (heap w')"
    "tidy (heap w') (owned (g_entries ?g) (g_held ?g)) (owned (insert a (g_entries ?g - set es - {old})) ((g_held ?g)(a := 1)))"
    by (rule lru_insert_spec [OF at(2) key(2) a card plan])
  have "sharded_inv (heap w') (set_shard s i c') (put_ghost gs i (remove1 old ks)
      (insert a (g_entries ?g - set es - {old})) ((g_held ?g)(a := 1)))"
    unfolding put_ghost_def
  proof (rule sharded_step [OF inv lt r(5) same_membersD(3) [OF r(2)], where F = "{a}" and ?h0.0 = "(heap w)(a \<mapsto> ?n)"])
    show "shard_index (hs ((heap w)(a \<mapsto> ?n)) b) = i" if "b \<in> {a}" for b
      using that by (simp add: hs_def new_handle_def i)
    show "tidy (heap w') (g_own ?g) (owned (insert a (g_entries ?g - set es - {old})) ((g_held ?g)(a := 1)))"
      using r(7) by (simp add: g_own_def)
  qed (use r(6) a(2) in \<open>auto simp: g_own_def owned_def split: if_splits\<close>)
  moreover have "sharded_insert w s a junk key value charge deleter priority = Some (a, w', set_shard s i c')"
    using key(1) at(1) r(1) by (simp add: sharded_insert_def i)
  ultimately show ?thesis using that r(3,4,6) by (simp add: area_def g_own_def insert_commute)
qed

subsection \<open>Loops over the shards\<close>

lemma shrunk_refl: "shrunk gs gs" by (simp add: shrunk_def)

lemma shrunk_trans: "shrunk gs gs1 \<Longrightarrow> shrunk gs1 gs2 \<Longrightarrow> shrunk gs gs2"
  by (fastforce simp: shrunk_def)

lemma shrunk_put: "E \<subseteq> g_entries (gs ! i) \<Longrightarrow> shrunk gs (put_ghost gs i xs E (g_held (gs ! i)))"
  by (cases "i < length gs") (auto simp: shrunk_def put_ghost_def nth_list_update)

lemma keeps_mono: "keeps A h h' \<Longrightarrow> A \<subseteq> B \<Longrightarrow> keeps B h h'"
  by (auto simp: keeps_def)

lemma keeps_trans:
  assumes "keeps A h h1" "keeps A h1 h2"
  shows "keeps A h h2"
  unfolding keeps_def
proof (intro conjI allI impI)
  show "h2 a = h a" if "a \<notin> A" for a using assms that by (simp add: keeps_def)
  show "\<exists>e. h a = Some e \<and> strip_meta e' = strip_meta e" if "h2 a = Some e'" for a e'
    using assms that unfolding keeps_def by metis
qed

lemma evict_pass_fits:
  "evict_pass el chg capacity charge usage xs = (ks, es, u) \<Longrightarrow>
     u + charge \<le> capacity \<or> (\<forall>x \<in> set ks. \<not> el x)"
  by (induction xs arbitrary: usage ks es u) (fastforce simp: not_less split: if_splits prod.splits)+

lemma evict_plan_fits:
  assumes "evict_plan prio chg capacity charge usage xs = (ks, es, u)"
  shows "u + charge \<le> capacity \<or> ks = []"
  using assms evict_pass_fits [of "\<lambda>_. True" chg capacity charge _ _ ks _ u]
  by (fastforce simp: evict_plan_def split: prod.splits)

lemma prune_at_spec:
  assumes "sharded_inv (heap w) s gs" "set is \<subseteq> {..<kNumShards}" "distinct is"
  shows "\<exists>n' w' s' gs'. prune_at w s n is = Some (n', w', s') \<and> sharded_inv (heap w') s' gs' \<and> shrunk gs gs' \<and>
    (\<forall>i \<in> set is. g_list (gs' ! i) = []) \<and> (\<forall>i. i \<notin> set is \<longrightarrow> gs' ! i = gs ! i) \<and> keeps UNIV (heap w) (heap w')"
  using assms
proof (induction "is" arbitrary: w s gs n)
  case Nil
  then show ?case using shrunk_refl by (fastforce simp: keeps_def)
next
  case (Cons i "is")
  let ?c = "sc_shards s ! i" and ?g = "gs ! i"
  have i: "i < kNumShards" using Cons.prems by simp
  note inv = Cons.prems(1) and at = shard_at_inv [OF Cons.prems(1) i]
  obtain w1 c1 where r: "lru_prune w ?c = Some (of_nat (length (g_list ?g)), w1, c1)"
    "cache_inv (heap w1) c1 [] (g_entries ?g - set (g_list ?g)) (g_held ?g)" "same_members ?c c1"
    "keeps (insert (lc_lru ?c) (owned (g_entries ?g) (g_held ?g))) (heap w) (heap w1)"
    "tidy (heap w1) (owned (g_entries ?g) (g_held ?g)) (owned (g_entries ?g - set (g_list ?g)) (g_held ?g))"
    by (rule lru_prune_spec [OF at(2)])
  let ?gs = "put_ghost gs i [] (g_entries ?g - set (g_list ?g)) (g_held ?g)"
  have inv1: "sharded_inv (heap w1) (set_shard s i c1) ?gs"
    unfolding put_ghost_def by (rule sharded_update [OF inv i r(2) same_membersD(3) [OF r(3)]])
      (use r(4,5) in \<open>auto simp: g_own_def owned_def\<close>)
  obtain n' w' s' gs' where IH: "prune_at w1 (set_shard s i c1) (n + of_nat (length (g_list ?g))) is = Some (n', w', s')"
    "sharded_inv (heap w') s' gs'" "shrunk ?gs gs'" "\<forall>i \<in> set is. g_list (gs' ! i) = []"
    "\<forall>i. i \<notin> set is \<longrightarrow> gs' ! i = ?gs ! i" "keeps UNIV (heap w1) (heap w')"
    using Cons.IH [OF inv1, of "n + of_nat (length (g_list ?g))"] Cons.prems by auto
  have sh: "shrunk gs gs'" by (rule shrunk_trans [OF shrunk_put IH(3)]) auto
  have k: "keeps UNIV (heap w) (heap w')" by (rule keeps_trans [OF keeps_mono [OF r(4)] IH(6)]) simp
  have "g_list (gs' ! j) = []" if "j \<in> set (i # is)" for j
    using IH(4,5) that Cons.prems(3) i at(3) by (auto simp: put_ghost_def)
  moreover have "gs' ! j = gs ! j" if "j \<notin> set (i # is)" for j
    using IH(5) that by (auto simp: put_ghost_def)
  ultimately show ?case using IH(1,2) sh k at(1) r(1) by auto
qed

lemma sharded_prune_spec:
  assumes "sharded_inv (heap w) s gs"
  obtains w' s' gs' where "sharded_prune w s = Some (w', s')" "sharded_inv (heap w') s' gs'" "shrunk gs gs'"
    "\<forall>i < kNumShards. g_list (gs' ! i) = []" "keeps UNIV (heap w) (heap w')"
proof -
  have up: "set [0..<kNumShards] \<subseteq> {..<kNumShards}" "distinct [0..<kNumShards]" by auto
  obtain n' w' s' gs' where "prune_at w s 0 [0..<kNumShards] = Some (n', w', s')" "sharded_inv (heap w') s' gs'"
    "shrunk gs gs'" "\<forall>i < kNumShards. g_list (gs' ! i) = []" "keeps UNIV (heap w) (heap w')"
    using prune_at_spec [OF assms up, of 0] by auto
  then show ?thesis using that by (simp add: sharded_prune_def)
qed

lemma set_capacity_at_spec:
  assumes "sharded_inv (heap w) s gs" "set is \<subseteq> {..<kNumShards}" "distinct is"
  shows "\<exists>w' s' gs'. set_capacity_at w s cap is = Some (w', s') \<and> sharded_inv (heap w') s' gs' \<and> shrunk gs gs' \<and>
    (\<forall>i \<in> set is. lc_capacity (sc_shards s' ! i) = cap \<and>
       (lc_usage (sc_shards s' ! i) \<le> cap \<or> g_list (gs' ! i) = [])) \<and>
    (\<forall>i. i \<notin> set is \<longrightarrow> gs' ! i = gs ! i \<and> sc_shards s' ! i = sc_shards s ! i) \<and>
    sc_last_id s' = sc_last_id s \<and> sc_capacity s' = sc_capacity s \<and> keeps UNIV (heap w) (heap w')"
  using assms
proof (induction "is" arbitrary: w s gs)
  case Nil
  then show ?case using shrunk_refl by (fastforce simp: keeps_def)
next
  case (Cons i "is")
  let ?c = "sc_shards s ! i" and ?g = "gs ! i"
  have i: "i < kNumShards" using Cons.prems by simp
  note inv = Cons.prems(1) and at = shard_at_inv [OF Cons.prems(1) i]
  obtain ks es u where plan: "evict_plan (pr (heap w)) (ch (heap w)) cap 0 (lc_usage ?c) (g_list ?g) = (ks, es, u)"
    by (rule prod_cases3)
  obtain w1 c1 where r: "lru_set_capacity w ?c cap = Some (w1, c1)"
    "cache_inv (heap w1) c1 ks (g_entries ?g - set es) (g_held ?g)" "same_members (?c\<lparr>lc_capacity := cap\<rparr>) c1"
    "lc_usage c1 = u" "keeps (insert (lc_lru ?c) (owned (g_entries ?g) (g_held ?g))) (heap w) (heap w1)"
    "tidy (heap w1) (owned (g_entries ?g) (g_held ?g)) (owned (g_entries ?g - set es) (g_held ?g))"
    by (rule lru_set_capacity_spec [OF at(2) plan])
  note m = same_membersD [OF r(3), simplified]
  let ?gs = "put_ghost gs i ks (g_entries ?g - set es) (g_held ?g)"
  have inv1: "sharded_inv (heap w1) (set_shard s i c1) ?gs"
    unfolding put_ghost_def by (rule sharded_update [OF inv i r(2) m(3)])
      (use r(5,6) in \<open>auto simp: g_own_def owned_def\<close>)
  obtain w' s' gs' where IH: "set_capacity_at w1 (set_shard s i c1) cap is = Some (w', s')"
    "sharded_inv (heap w') s' gs'" "shrunk ?gs gs'"
    "\<forall>i \<in> set is. lc_capacity (sc_shards s' ! i) = cap \<and> (lc_usage (sc_shards s' ! i) \<le> cap \<or> g_list (gs' ! i) = [])"
    "\<forall>i'. i' \<notin> set is \<longrightarrow> gs' ! i' = ?gs ! i' \<and> sc_shards s' ! i' = sc_shards (set_shard s i c1) ! i'"
    "sc_last_id s' = sc_last_id s" "sc_capacity s' = sc_capacity s" "keeps UNIV (heap w1) (heap w')"
    using Cons.IH [OF inv1] Cons.prems by (auto simp: set_shard_def)
  have sh: "shrunk gs gs'" by (rule shrunk_trans [OF shrunk_put IH(3)]) auto
  have k: "keeps UNIV (heap w) (heap w')" by (rule keeps_trans [OF keeps_mono [OF r(5)] IH(8)]) simp
  have len: "length (sc_shards s) = kNumShards" using inv by (simp add: sharded_inv_def)
  have "lc_capacity (sc_shards s' ! j) = cap \<and> (lc_usage (sc_shards s' ! j) \<le> cap \<or> g_list (gs' ! j) = [])"
    if "j \<in> set (i # is)" for j
    using IH(4,5) that Cons.prems(3) i at(3) len m(1) r(4) evict_plan_fits [OF plan]
    by (auto simp: put_ghost_def set_shard_def)
  moreover have "gs' ! j = gs ! j \<and> sc_shards s' ! j = sc_shards s ! j" if "j \<notin> set (i # is)" for j
    using IH(5) that by (auto simp: put_ghost_def set_shard_def)
  ultimately show ?case using IH(1,2,6,7) sh k at(1) r(1) by auto
qed

lemma sharded_set_capacity_spec:
  assumes "sharded_inv (heap w) s gs"
  obtains w' s' gs' where "sharded_set_capacity w s cap = Some (w', s')" "sharded_inv (heap w') s' gs'" "shrunk gs gs'"
    "\<forall>i < kNumShards. lc_capacity (sc_shards s' ! i) = per_shard_of cap \<and>
       (lc_usage (sc_shards s' ! i) \<le> per_shard_of cap \<or> g_list (gs' ! i) = [])"
    "sc_capacity s' = cap" "keeps UNIV (heap w) (heap w')"
proof -
  have up: "set [0..<kNumShards] \<subseteq> {..<kNumShards}" "distinct [0..<kNumShards]" by auto
  obtain w' s' gs' where r: "set_capacity_at w s (per_shard_of cap) [0..<kNumShards] = Some (w', s')"
    "sharded_inv (heap w') s' gs'" "shrunk gs gs'" "\<forall>i < kNumShards. lc_capacity (sc_shards s' ! i) = per_shard_of cap \<and>
       (lc_usage (sc_shards s' ! i) \<le> per_shard_of cap \<or> g_list (gs' ! i) = [])" "keeps UNIV (heap w) (heap w')"
    using set_capacity_at_spec [OF assms up, of "per_shard_of cap"] by auto
  then show ?thesis
    using that [of w' "s'\<lparr>sc_capacity := cap\<rparr>" gs'] by (simp add: sharded_set_capacity_def sharded_inv_def)
qed

subsection \<open>The constructor\<close>

lemma new_shards_spec:
  assumes "distinct ds" "0 \<notin> set ds" "\<forall>d \<in> set ds. heap w d = None"
  shows "\<exists>w' cs. new_shards w ds junk = Some (w', cs) \<and> map lc_lru cs = ds \<and> freed w' = freed w \<and>
    shards_inv shard_inv area (heap w') cs (replicate (length ds) no_ghost) \<and>
    (\<forall>a. a \<notin> set ds \<longrightarrow> heap w' a = heap w a)"
  using assms
proof (induction ds arbitrary: w)
  case Nil
  show ?case by (simp add: shards_inv_def)
next
  case (Cons d ds)
  have d: "d \<noteq> 0" "heap w d = None" using Cons.prems by auto
  obtain w1 c where r: "lru_cache_new w d junk = Some (w1, c)" "cache_inv (heap w1) c [] {} (\<lambda>_. 0)"
    "lc_lru c = d" "freed w1 = freed w" "heap w1 = (heap w)(d \<mapsto> junk\<lparr>h_next := d, h_prev := d\<rparr>)"
    by (rule lru_cache_new_spec [OF d])
  obtain w' cs where IH: "new_shards w1 ds junk = Some (w', cs)" "map lc_lru cs = ds" "freed w' = freed w1"
    "shards_inv shard_inv area (heap w') cs (replicate (length ds) no_ghost)"
    "\<forall>a. a \<notin> set ds \<longrightarrow> heap w' a = heap w1 a"
    using Cons.IH [of w1] Cons.prems r(5) by fastforce
  have len: "length cs = length ds" using IH(2) by (metis length_map)
  have area0: "area c' no_ghost = {lc_lru c'}" for c' by (simp add: area_def no_ghost_def g_own_def owned_def)
  have "shard_inv (heap w1) c no_ghost" using r(2) by (simp add: shard_inv_def no_ghost_def)
  then have c: "shard_inv (heap w') c no_ghost"
    by (rule lru_shards.frame) (use area0 IH(5) r(3) Cons.prems(1) in auto)
  have "lc_lru (cs ! i) \<noteq> d" if "i < length cs" for i
    using that IH(2) Cons.prems(1) by (metis distinct.simps(2) len nth_map nth_mem)
  then have "shards_inv shard_inv area (heap w') (c # cs) (no_ghost # replicate (length ds) no_ghost)"
    by (intro lru_shards.shard_append [OF IH(4) c]) (simp add: area0 r(3) len)
  then show ?case using r IH by simp
qed

lemma sharded_new_spec:
  assumes ds: "length ds = kNumShards" "distinct ds" "0 \<notin> set ds" and w: "heap w = Map.empty"
  obtains w' s gs where "sharded_new w ds junk capacity = Some (w', s)" "sharded_inv (heap w') s gs"
    "\<forall>a. total_held gs a = 0" "\<forall>i < kNumShards. g_entries (gs ! i) = {} \<and> lc_capacity (sc_shards s ! i) = per_shard_of capacity"
    "dom (heap w') \<subseteq> set ds"
proof -
  let ?gs = "replicate kNumShards no_ghost"
  obtain w1 cs where r: "new_shards w ds junk = Some (w1, cs)" "map lc_lru cs = ds"
    "shards_inv shard_inv area (heap w1) cs ?gs"
    "\<forall>a. a \<notin> set ds \<longrightarrow> heap w1 a = None"
    using new_shards_spec [OF ds(2,3), of w junk] ds(1) w by auto
  let ?s = "\<lparr>sc_shards = cs, sc_last_id = 0, sc_capacity = capacity\<rparr>"
  have own: "g_own (?gs ! i) = {}" if "i < kNumShards" for i
    using that by (simp add: no_ghost_def g_own_def owned_def)
  have len: "length cs = kNumShards" using r(2) ds(1) by (metis length_map)
  have ar: "area (cs ! i) (?gs ! i) = {ds ! i}" if "i < kNumShards" for i
    using own [OF that] that r(2) len by (auto simp: area_def)
  have "(\<Union>i < kNumShards. area (cs ! i) (?gs ! i)) \<subseteq> dom (heap w1)"
    using lru_shards.ar_dom [of "heap w1"] r(3) len by (auto simp: shards_inv_def)
  moreover have "dom (heap w1) \<subseteq> (\<Union>i < kNumShards. area (cs ! i) (?gs ! i))"
  proof
    fix a assume "a \<in> dom (heap w1)"
    then obtain i where "i < kNumShards" "ds ! i = a" using r(4) ds(1) by (metis domIff in_set_conv_nth)
    then show "a \<in> (\<Union>i < kNumShards. area (cs ! i) (?gs ! i))" using ar by (intro UN_I [of i]) simp_all
  qed
  ultimately have dom: "dom (heap w1) = (\<Union>i < kNumShards. area (cs ! i) (?gs ! i))" by blast
  have inv: "sharded_inv (heap w1) ?s ?gs"
    using r(2,3) ds(1) own dom by (auto simp: sharded_inv_def)
  have up: "set [0..<kNumShards] \<subseteq> {..<kNumShards}" "distinct [0..<kNumShards]" by auto
  obtain w' s gs where q: "set_capacity_at w1 ?s (per_shard_of capacity) [0..<kNumShards] = Some (w', s)"
    "sharded_inv (heap w') s gs" "shrunk ?gs gs" "\<forall>i < kNumShards. lc_capacity (sc_shards s ! i) = per_shard_of capacity"
    "keeps UNIV (heap w1) (heap w')"
    using set_capacity_at_spec [OF inv up, of "per_shard_of capacity"] by auto
  have len: "length gs = kNumShards" using q(3) by (simp add: shrunk_def)
  have g: "g_held (gs ! i) = (\<lambda>_. 0)" "g_entries (gs ! i) = {}" if "i < kNumShards" for i
    using q(3) that by (auto simp: shrunk_def no_ghost_def)
  have "total_held gs a = 0" for a
    using g(1) len unfolding total_held_def by (auto simp: in_set_conv_nth sum_list_eq_0_iff)
  moreover have "dom (heap w') \<subseteq> set ds" using keeps_meta_cell(1) [OF q(5)] r(4) by (metis domIff subsetI)
  ultimately show ?thesis using that [OF _ q(2)] g q(1,4) r(1) ds(1) by (simp add: sharded_new_def)
qed

subsection \<open>References of the clients\<close>

lemma total_held_put:
  assumes "i < length gs"
  shows "total_held (put_ghost gs i xs E held) a + g_held (gs ! i) a = total_held gs a + held a"
proof -
  have le: "g_held (gs ! i) a \<le> total_held gs a"
    using elem_le_sum_list [of i "map (\<lambda>g. g_held g a) gs"] assms by (simp add: total_held_def)
  then show ?thesis using assms by (simp add: total_held_def put_ghost_def map_update sum_list_update)
qed

lemma held_le_total: "i < length gs \<Longrightarrow> g_held (gs ! i) a \<le> total_held gs a"
  using elem_le_sum_list [of i "map (\<lambda>g. g_held g a) gs"] by (simp add: total_held_def)

lemma total_held_shrunk: "shrunk gs gs' \<Longrightarrow> total_held gs' a = total_held gs a"
  unfolding total_held_def shrunk_def by (intro arg_cong [of _ _ sum_list] nth_equalityI) auto

lemma total_held_pos: "total_held gs a > 0 \<Longrightarrow> \<exists>i < length gs. g_held (gs ! i) a > 0"
  unfolding total_held_def by (metis (no_types, lifting) bot_nat_0.not_eq_extremum in_set_conv_nth length_map nth_map sum_list_eq_0_iff)

lemma total_held_own:
  assumes inv: "sharded_inv h s gs" and i: "i < kNumShards" "a \<in> g_own (gs ! i)"
  shows "total_held gs a = g_held (gs ! i) a"
proof -
  have len: "length gs = kNumShards" using shard_at_inv(3) [OF inv i(1)] .
  have "g_held (gs ! j) a = 0" if j: "j < kNumShards" "j \<noteq> i" for j
    using own_index [OF inv j(1), of a] own_index [OF inv i] j(2) by (auto simp: g_own_def owned_def)
  then have "total_held (put_ghost gs i [] {} (\<lambda>_. 0)) a = 0"
    unfolding total_held_def using len i(1)
    by (auto simp: sum_list_eq_0_iff in_set_conv_nth put_ghost_def nth_list_update)
  then show ?thesis using total_held_put [of i gs "[]" "{}" "\<lambda>_. 0" a] i(1) len by simp
qed

end
