(* ===== verification/CacheClient.thy ===== *)
theory CacheClient
  imports "ShardedCache"
begin

text \<open>
  The sharded cache under any client: a client calls the operations one after the other and
  owns the references that insert and lookup return until it releases them.  The theorems
  hold for every sequence of calls that keeps to that protocol.
\<close>

datatype 'v client_op =
    Insert addr addr cache_key 'v u64 nat CachePriority
  | Lookup cache_key
  | Release addr
  | Erase cache_key
  | Prune
  | SetCapacity u64

record 'v client =
  cl_world :: "'v world"
  cl_cache :: sharded_cache
  cl_refs :: "addr list"

text \<open>
  The protocol: a new handle is at a fresh address, keys are readable, only references that
  are held are released, and the counters of a handle and of a table stay in range.
\<close>

fun client_legal :: "'v client_op \<Rightarrow> 'v client \<Rightarrow> bool" where
  "client_legal (Insert a junk key value charge deleter priority) st \<longleftrightarrow>
     a \<noteq> 0 \<and> heap (cl_world st) a = None \<and> ck_valid key \<and>
     list_all (\<lambda>c. unat (t_elems (lc_table c)) < 2 ^ 31) (sc_shards (cl_cache st))"
| "client_legal (Lookup key) st \<longleftrightarrow> ck_valid key \<and> length (cl_refs st) + 2 < 2 ^ 32"
| "client_legal (Release a) st \<longleftrightarrow> a \<in> set (cl_refs st)"
| "client_legal (Erase key) st \<longleftrightarrow> ck_valid key"
| "client_legal Prune st \<longleftrightarrow> True"
| "client_legal (SetCapacity capacity) st \<longleftrightarrow> True"

fun client_run :: "'v client_op \<Rightarrow> 'v client \<Rightarrow> 'v client option" where
  "client_run (Insert a junk key value charge deleter priority) st =
     do { (r, w, s) \<leftarrow> sharded_insert (cl_world st) (cl_cache st) a junk key value charge deleter priority;
          Some \<lparr>cl_world = w, cl_cache = s, cl_refs = r # cl_refs st\<rparr> }"
| "client_run (Lookup key) st =
     do { (r, w, s) \<leftarrow> sharded_lookup (cl_world st) (cl_cache st) key;
          Some \<lparr>cl_world = w, cl_cache = s, cl_refs = (if r = 0 then cl_refs st else r # cl_refs st)\<rparr> }"
| "client_run (Release a) st =
     do { (w, s) \<leftarrow> sharded_release (cl_world st) (cl_cache st) a;
          Some \<lparr>cl_world = w, cl_cache = s, cl_refs = remove1 a (cl_refs st)\<rparr> }"
| "client_run (Erase key) st =
     do { (w, s) \<leftarrow> sharded_erase (cl_world st) (cl_cache st) key;
          Some \<lparr>cl_world = w, cl_cache = s, cl_refs = cl_refs st\<rparr> }"
| "client_run Prune st =
     do { (w, s) \<leftarrow> sharded_prune (cl_world st) (cl_cache st);
          Some \<lparr>cl_world = w, cl_cache = s, cl_refs = cl_refs st\<rparr> }"
| "client_run (SetCapacity capacity) st =
     do { (w, s) \<leftarrow> sharded_set_capacity (cl_world st) (cl_cache st) capacity;
          Some \<lparr>cl_world = w, cl_cache = s, cl_refs = cl_refs st\<rparr> }"

definition client_new :: "addr list \<Rightarrow> 'v lru_handle \<Rightarrow> u64 \<Rightarrow> 'v client option" where
  "client_new ds junk capacity =
     do { (w, s) \<leftarrow> sharded_new \<lparr>heap = Map.empty, freed = []\<rparr> ds junk capacity;
          Some \<lparr>cl_world = w, cl_cache = s, cl_refs = []\<rparr> }"

text \<open>
  What the cache stands for: a map from keys to values that insert and erase update.  The
  cache may forget an entry, but what it finds is what the map holds.
\<close>

fun client_abs :: "'v client_op \<Rightarrow> (bytes \<rightharpoonup> 'v) \<Rightarrow> (bytes \<rightharpoonup> 'v)" where
  "client_abs (Insert a junk key value charge deleter priority) m = m(ck_bytes key \<mapsto> value)"
| "client_abs (Erase key) m = m(ck_bytes key := None)"
| "client_abs x m = m"

text \<open>
  The states a client can bring about, from a new cache whose dummy heads are at ds, each
  with the map that its calls describe.
\<close>

inductive reachable :: "'v client \<Rightarrow> (bytes \<rightharpoonup> 'v) \<Rightarrow> bool" where
  start: "distinct ds \<Longrightarrow> 0 \<notin> set ds \<Longrightarrow> client_new ds junk capacity = Some st \<Longrightarrow> reachable st Map.empty"
| step: "reachable st m \<Longrightarrow> client_legal x st \<Longrightarrow> client_run x st = Some st' \<Longrightarrow> reachable st' (client_abs x m)"

definition entries_of :: "ghost list \<Rightarrow> addr set" where
  "entries_of gs = {a. \<exists>i < kNumShards. a \<in> g_entries (gs ! i)}"

definition hashed :: "'v lru_heap \<Rightarrow> ghost list \<Rightarrow> bool" where
  "hashed h gs \<longleftrightarrow> (\<forall>a \<in> entries_of gs. hash_slice (ky h a) = Some (hs h a))"

definition coherent :: "'v lru_heap \<Rightarrow> ghost list \<Rightarrow> (bytes \<rightharpoonup> 'v) \<Rightarrow> bool" where
  "coherent h gs m \<longleftrightarrow> hashed h gs \<and> (\<forall>a \<in> entries_of gs. m (ck_bytes (ky h a)) = Some (vl h a))"

definition client_ghost :: "'v client \<Rightarrow> (bytes \<rightharpoonup> 'v) \<Rightarrow> ghost list \<Rightarrow> bool" where
  "client_ghost st m gs \<longleftrightarrow> sharded_inv (heap (cl_world st)) (cl_cache st) gs \<and>
     (\<forall>a. count_list (cl_refs st) a = total_held gs a) \<and> coherent (heap (cl_world st)) gs m"

definition client_inv :: "'v client \<Rightarrow> (bytes \<rightharpoonup> 'v) \<Rightarrow> bool" where
  "client_inv st m \<longleftrightarrow> (\<exists>gs. client_ghost st m gs)"

text \<open>What every step keeps of the handles that outlive it.\<close>

definition same_handles :: "'v client \<Rightarrow> 'v client \<Rightarrow> bool" where
  "same_handles st st' \<longleftrightarrow> (\<forall>a e e'. heap (cl_world st) a = Some e \<longrightarrow> heap (cl_world st') a = Some e' \<longrightarrow>
     strip_meta e' = strip_meta e)"

definition handles_of :: "'v lru_heap \<Rightarrow> sharded_cache \<Rightarrow> addr set" where
  "handles_of h s = dom h - lc_lru ` set (sc_shards s)"

definition demo_key :: cache_key where "demo_key = ck_of_string [107, 49]"

definition demo_insert :: "nat client_op" where
  "demo_insert = Insert 100 0 demo_key 7 10 0 NORMAL"

text \<open>A shard of capacity 12 with two entries of charge 5 that nobody holds, the older one DURABLE.\<close>

definition shard_heap :: "nat lru_heap" where
  "shard_heap =
     [1 \<mapsto> (demo_cell [])\<lparr>h_next := 3, h_prev := 4\<rparr>,
      3 \<mapsto> (demo_cell [65])\<lparr>h_next := 4, h_prev := 1, h_charge := 5, h_priority := DURABLE\<rparr>,
      4 \<mapsto> (demo_cell [66])\<lparr>h_next := 1, h_prev := 3, h_charge := 5, h_hash := 6\<rparr>]"

definition shard_demo :: lru_cache where
  "shard_demo = \<lparr>lc_capacity = 12, lc_usage = 10, lc_last_id = 0, lc_lru = 1,
     lc_table = \<lparr>t_length = 4, t_elems = 2, t_list = [0, 3, 4, 0]\<rparr>, lc_lookup_count = 0, lc_hit_count = 0\<rparr>"

section \<open>Entries and keys\<close>

lemma hash_slice_cong:
  assumes "ck_valid k" "ck_valid k'" "ck_bytes k = ck_bytes k'"
  shows "hash_slice k = hash_slice k'"
proof -
  have "unat (ck_size k) = unat (ck_size k')" using assms length_ck_bytes by metis
  then have "ck_size k = ck_size k'" by (simp only: word_unat_eq_iff)
  then show ?thesis using assms by (simp add: hash_slice_def ck_hash_def ck_valid_def ck_bytes_def)
qed

lemma entry_inv:
  assumes "sharded_inv h s gs" "b \<in> entries_of gs"
  obtains j where "j < kNumShards" "b \<in> g_entries (gs ! j)" "shard_index (hs h b) = j" "b \<in> dom h" "ck_valid (ky h b)"
proof -
  obtain j where j: "j < kNumShards" "b \<in> g_entries (gs ! j)" using assms(2) by (auto simp: entries_of_def)
  note at = cache_invD [OF shard_at_inv(2) [OF assms(1) j(1)]]
  have "keyed h b" using tbl.rep_keyed [OF at(3) j(2)] .
  moreover have "shard_index (hs h b) = j" using own_index [OF assms(1) j(1), of b] j(2) by (simp add: g_own_def owned_def)
  ultimately show ?thesis using that j by (simp add: keyed_def)
qed

text \<open>A key has at most one entry in the whole cache.\<close>

lemma key_entry_unique:
  assumes inv: "sharded_inv h s gs" and hs: "hashed h gs" and key: "hash_slice key = Some hash" "ck_valid key"
    and a: "is_entry h (g_entries (gs ! shard_index hash)) (hash, ck_bytes key) a"
    and b: "b \<in> entries_of gs" "ck_bytes (ky h b) = ck_bytes key"
  shows "b = a"
proof -
  obtain j where j: "j < kNumShards" "b \<in> g_entries (gs ! j)" "shard_index (hs h b) = j" "ck_valid (ky h b)"
    by (rule entry_inv [OF inv b(1)])
  have "hs h b = hash" using hs b(1) hash_slice_cong [OF j(4) key(2) b(2)] key(1) by (simp add: hashed_def)
  then have ix: "shard_index hash = j" and kv: "kv h b = (hash, ck_bytes key)" using j(3) b(2) by (simp_all add: kv_def)
  then have "a \<in> g_entries (gs ! j)" "kv h a = kv h b"
    using a j(2) by (cases "a = 0"; force simp: is_entry_def)+
  then show ?thesis
    using inj_onD [OF tbl.rep_inj [OF cache_invD(3) [OF shard_at_inv(2) [OF inv j(1)]]]] j(2) by metis
qed

lemma coherent_keep:
  assumes c: "coherent h gs m" and E: "entries_of gs' \<subseteq> entries_of gs"
    and k: "keeps A h h'" and inv: "sharded_inv h' s' gs'"
  shows "coherent h' gs' m"
proof -
  have "hs h' a = hs h a \<and> ky h' a = ky h a \<and> vl h' a = vl h a" if "a \<in> entries_of gs'" for a
    using keeps_views [OF k] entry_inv [OF inv that] by metis
  then show ?thesis using c E by (auto simp: coherent_def hashed_def)
qed

section \<open>Every step keeps the invariant\<close>

lemma table_rep_elems: "table_rep h t E \<Longrightarrow> card E = unat (t_elems t)"
  by (auto simp: table_rep_def table_ok_def table_core_def chains_ok_def distinct_card simp del: set_concat)

lemma client_ghostD:
  assumes "client_ghost st m gs"
  shows "sharded_inv (heap (cl_world st)) (cl_cache st) gs" "length gs = kNumShards"
    "length (sc_shards (cl_cache st)) = kNumShards" "\<And>a. count_list (cl_refs st) a = total_held gs a"
    "coherent (heap (cl_world st)) gs m" "hashed (heap (cl_world st)) gs"
  using assms by (auto simp: client_ghost_def sharded_inv_def shards_inv_def coherent_def)

lemma refs_own:
  assumes g: "client_ghost st m gs" and a: "a \<in> set (cl_refs st)"
  obtains i where "i < kNumShards" "g_held (gs ! i) a > 0"
proof -
  note D = client_ghostD [OF g]
  have "total_held gs a > 0" using a D(4) [of a] by (metis count_list_0_iff gr0I)
  then show ?thesis using total_held_pos [of gs a] that D(2) by auto
qed

lemma held_le_refs:
  assumes g: "client_ghost st m gs" and i: "i < kNumShards"
  shows "g_held (gs ! i) a \<le> length (cl_refs st)"
proof -
  note D = client_ghostD [OF g]
  have "g_held (gs ! i) a \<le> count_list (cl_refs st) a" using held_le_total [of i gs a] i D(2,4) by simp
  also have "count_list (cl_refs st) a \<le> length (cl_refs st)" by (rule count_le_length)
  finally show ?thesis .
qed

text \<open>The step of one shard on the references of the client.\<close>

lemma client_ghost_put:
  assumes g: "client_ghost st m gs" and i: "i < kNumShards"
    and inv: "sharded_inv (heap w') s' (put_ghost gs i xs E held)"
    and refs: "\<And>a. count_list rs a + g_held (gs ! i) a = count_list (cl_refs st) a + held a"
    and c: "coherent (heap w') (put_ghost gs i xs E held) m'"
  shows "client_ghost \<lparr>cl_world = w', cl_cache = s', cl_refs = rs\<rparr> m' (put_ghost gs i xs E held)"
proof -
  note D = client_ghostD [OF g]
  have "count_list rs a = total_held (put_ghost gs i xs E held) a" for a
    using total_held_put [of i gs xs E held a] refs [of a] D(2,4) i by simp
  then show ?thesis using inv c by (simp add: client_ghost_def)
qed

lemma entries_put:
  assumes "i < kNumShards" "length gs = kNumShards" "E \<subseteq> g_entries (gs ! i) \<union> F"
  shows "entries_of (put_ghost gs i xs E held) \<subseteq> entries_of gs \<union> F"
    and "b \<in> E \<Longrightarrow> b \<in> entries_of (put_ghost gs i xs E held)"
    and "g_entries (put_ghost gs i xs E held ! i) = E"
  using assms by (auto simp: entries_of_def put_ghost_def nth_list_update split: if_splits)

lemma same_handlesI:
  assumes "keeps A h (heap w')" "\<And>a. heap (cl_world st) a \<noteq> None \<Longrightarrow> h a = heap (cl_world st) a"
  shows "same_handles st \<lparr>cl_world = w', cl_cache = s', cl_refs = rs\<rparr>"
  unfolding same_handles_def client.simps using assms unfolding keeps_def by (metis option.distinct(1) option.inject)

lemma client_lookup:
  assumes g: "client_ghost st m gs" and legal: "client_legal (Lookup key) st" and h: "hash_slice key = Some hash"
  obtains a w' s' gs' where "sharded_lookup (cl_world st) (cl_cache st) key = Some (a, w', s')"
    "is_entry (heap (cl_world st)) (g_entries (gs ! shard_index hash)) (hash, ck_bytes key) a"
    "client_ghost \<lparr>cl_world = w', cl_cache = s', cl_refs = (if a = 0 then cl_refs st else a # cl_refs st)\<rparr> m gs'"
    "keeps UNIV (heap (cl_world st)) (heap w')"
proof -
  note D = client_ghostD [OF g]
  define i where i: "i = shard_index hash"
  have lt: "i < kNumShards" by (simp add: i shard_index_less)
  have held: "\<forall>a. g_held (gs ! i) a + 2 < 2 ^ 32" using held_le_refs [OF g lt] legal by (fastforce intro: le_less_trans)
  have v: "ck_valid key" using legal by simp
  obtain a w' s' where r: "sharded_lookup (cl_world st) (cl_cache st) key = Some (a, w', s')"
    "is_entry (heap (cl_world st)) (g_entries (gs ! i)) (hash, ck_bytes key) a"
    "sharded_inv (heap w') s' (put_ghost gs i (remove1 a (g_list (gs ! i))) (g_entries (gs ! i))
       ((g_held (gs ! i))(a := g_held (gs ! i) a + of_bool (a \<noteq> 0))))"
    "keeps (area (sc_shards (cl_cache st) ! i) (gs ! i)) (heap (cl_world st)) (heap w')"
    by (rule sharded_lookup_spec [OF D(1) h v i held])
  have "coherent (heap w') (put_ghost gs i (remove1 a (g_list (gs ! i))) (g_entries (gs ! i))
       ((g_held (gs ! i))(a := g_held (gs ! i) a + of_bool (a \<noteq> 0)))) m"
    by (rule coherent_keep [OF D(5) _ r(4,3)]) (use entries_put(1) [OF lt D(2), of _ "{}"] in auto)
  then have "client_ghost \<lparr>cl_world = w', cl_cache = s', cl_refs = (if a = 0 then cl_refs st else a # cl_refs st)\<rparr> m
      (put_ghost gs i (remove1 a (g_list (gs ! i))) (g_entries (gs ! i))
       ((g_held (gs ! i))(a := g_held (gs ! i) a + of_bool (a \<noteq> 0))))"
    by (intro client_ghost_put [OF g lt r(3)]) auto
  then show ?thesis using that r(1,2) keeps_mono [OF r(4)] by (auto simp: i)
qed

lemma client_release:
  assumes g: "client_ghost st m gs" and a: "a \<in> set (cl_refs st)"
  shows "\<exists>w' s' gs'. sharded_release (cl_world st) (cl_cache st) a = Some (w', s') \<and>
    client_ghost \<lparr>cl_world = w', cl_cache = s', cl_refs = remove1 a (cl_refs st)\<rparr> m gs' \<and>
    keeps UNIV (heap (cl_world st)) (heap w')"
proof -
  note D = client_ghostD [OF g]
  obtain i where i: "i < kNumShards" "g_held (gs ! i) a > 0" by (rule refs_own [OF g a])
  define rel where "rel = releases (sc_shards (cl_cache st) ! i) (g_entries (gs ! i)) (g_held (gs ! i)) a"
  let ?E = "if rel then g_entries (gs ! i) - {a} else g_entries (gs ! i)"
  let ?held = "(g_held (gs ! i))(a := g_held (gs ! i) a - 1)"
  obtain w' s' xs' where r: "sharded_release (cl_world st) (cl_cache st) a = Some (w', s')"
    "sharded_inv (heap w') s' (put_ghost gs i xs' ?E ?held)"
    "keeps (area (sc_shards (cl_cache st) ! i) (gs ! i)) (heap (cl_world st)) (heap w')"
    by (rule sharded_release_spec [OF D(1) i rel_def])
  have "entries_of (put_ghost gs i xs' ?E ?held) \<subseteq> entries_of gs"
    using entries_put(1) [OF i(1) D(2), of ?E "{}"] by auto
  then have c: "coherent (heap w') (put_ghost gs i xs' ?E ?held) m"
    by (rule coherent_keep [OF D(5) _ r(3,2)])
  have "count_list (remove1 a (cl_refs st)) b + g_held (gs ! i) b = count_list (cl_refs st) b + ?held b" for b
    using i(2) a count_list_0_iff [of "cl_refs st" a] by auto
  then show ?thesis using client_ghost_put [OF g i(1) r(2) _ c] r(1) keeps_mono [OF r(3)] by blast
qed

lemma client_erase:
  assumes g: "client_ghost st m gs" and v: "ck_valid key" and h: "hash_slice key = Some hash"
  obtains w' s' gs' where "sharded_erase (cl_world st) (cl_cache st) key = Some (w', s')"
    "client_ghost \<lparr>cl_world = w', cl_cache = s', cl_refs = cl_refs st\<rparr> (m(ck_bytes key := None)) gs'"
    "keeps UNIV (heap (cl_world st)) (heap w')"
proof -
  note D = client_ghostD [OF g]
  define i where i: "i = shard_index hash"
  have lt: "i < kNumShards" by (simp add: i shard_index_less)
  obtain a w' s' where r: "sharded_erase (cl_world st) (cl_cache st) key = Some (w', s')"
    "is_entry (heap (cl_world st)) (g_entries (gs ! i)) (hash, ck_bytes key) a"
    "sharded_inv (heap w') s' (put_ghost gs i (remove1 a (g_list (gs ! i))) (g_entries (gs ! i) - {a}) (g_held (gs ! i)))"
    "keeps (area (sc_shards (cl_cache st) ! i) (gs ! i)) (heap (cl_world st)) (heap w')"
    by (rule sharded_erase_spec [OF D(1) h v i])
  let ?gs = "put_ghost gs i (remove1 a (g_list (gs ! i))) (g_entries (gs ! i) - {a}) (g_held (gs ! i))"
  have E: "entries_of ?gs \<subseteq> entries_of gs" using entries_put(1) [OF lt D(2), of _ "{}"] by auto
  have c: "coherent (heap w') ?gs m" by (rule coherent_keep [OF D(5) E r(4,3)])
  have "ck_bytes (ky (heap w') b) \<noteq> ck_bytes key" if b: "b \<in> entries_of ?gs" for b
  proof
    assume e: "ck_bytes (ky (heap w') b) = ck_bytes key"
    obtain j where j: "j < kNumShards" "b \<in> g_entries (?gs ! j)" "shard_index (hs (heap w') b) = j" "b \<in> dom (heap w')"
      by (rule entry_inv [OF r(3) b])
    have "b = a" using key_entry_unique [OF D(1,6) h v r(2) [unfolded i]] E b e keeps_views(2) [OF r(4) j(4)] by auto
    then have ji: "j \<noteq> i" using j(2) lt D(2) by (auto simp: put_ghost_def)
    then have bj: "b \<in> g_entries (gs ! j)" using j(2) by (simp add: put_ghost_def)
    then have "shard_index (hs (heap (cl_world st)) b) = j" "b \<in> g_own (gs ! j)"
      using own_index [OF D(1) j(1), of b] by (simp_all add: g_own_def owned_def)
    moreover have "b \<noteq> 0"
      using tbl.rep_keyed [OF cache_invD(3) [OF shard_at_inv(2) [OF D(1) j(1)]] bj] by (simp add: keyed_def)
    then have "b \<in> g_own (gs ! i)" using r(2) \<open>b = a\<close> by (simp add: is_entry_def g_own_def owned_def)
    ultimately show False using own_index [OF D(1) lt, of b] ji by simp
  qed
  then have "coherent (heap w') ?gs (m(ck_bytes key := None))" using c by (simp add: coherent_def)
  then have "client_ghost \<lparr>cl_world = w', cl_cache = s', cl_refs = cl_refs st\<rparr> (m(ck_bytes key := None)) ?gs"
    by (intro client_ghost_put [OF g lt r(3)]) simp_all
  then show ?thesis using that r(1) keeps_mono [OF r(4)] by blast
qed

lemma client_insert:
  assumes g: "client_ghost st m gs" and legal: "client_legal (Insert a junk key value charge deleter priority) st"
    and h: "hash_slice key = Some hash"
  obtains w' s' gs' where
    "sharded_insert (cl_world st) (cl_cache st) a junk key value charge deleter priority = Some (a, w', s')"
    "client_ghost \<lparr>cl_world = w', cl_cache = s', cl_refs = a # cl_refs st\<rparr> (m(ck_bytes key \<mapsto> value)) gs'"
    "is_entry (heap w') (g_entries (gs' ! shard_index hash)) (hash, ck_bytes key) a"
    "keeps UNIV ((heap (cl_world st))(a \<mapsto> new_handle junk key hash value charge deleter priority)) (heap w')"
proof -
  note D = client_ghostD [OF g]
  have l: "a \<noteq> 0" "heap (cl_world st) a = None" "ck_valid key"
    "list_all (\<lambda>c. unat (t_elems (lc_table c)) < 2 ^ 31) (sc_shards (cl_cache st))"
    using legal by simp_all
  define i where i: "i = shard_index hash"
  have lt: "i < kNumShards" by (simp add: i shard_index_less)
  note at = shard_at_inv [OF D(1) lt]
  have card: "card (g_entries (gs ! i)) < 2 ^ 31"
    using table_rep_elems [OF cache_invD(3) [OF at(2)]] l(4) lt D(3) by (simp add: list_all_length)
  obtain ks es u where plan: "evict_plan (pr (heap (cl_world st))) (ch (heap (cl_world st)))
      (lc_capacity (sc_shards (cl_cache st) ! i)) charge (lc_usage (sc_shards (cl_cache st) ! i)) (g_list (gs ! i)) = (ks, es, u)"
    by (rule prod_cases3)
  define h0 where "h0 = (heap (cl_world st))(a \<mapsto> new_handle junk key hash value charge deleter priority)"
  obtain old w' s' where r: "sharded_insert (cl_world st) (cl_cache st) a junk key value charge deleter priority = Some (a, w', s')"
    "sharded_inv (heap w') s' (put_ghost gs i (remove1 old ks) (insert a (g_entries (gs ! i) - set es - {old}))
       ((g_held (gs ! i))(a := 1)))"
    "keeps (insert a (area (sc_shards (cl_cache st) ! i) (gs ! i))) h0 (heap w')"
    unfolding h0_def by (rule sharded_insert_spec [OF D(1) h l(3) i l(1,2) card plan])
  define E where "E = insert a (g_entries (gs ! i) - set es - {old})"
  let ?gs = "put_ghost gs i (remove1 old ks) E ((g_held (gs ! i))(a := 1))"
  note inv = r(2) [folded E_def]
  have aE: "a \<in> E" "E \<subseteq> g_entries (gs ! i) \<union> {a}" by (auto simp: E_def)
  have E: "entries_of ?gs \<subseteq> entries_of gs \<union> {a}" "a \<in> entries_of ?gs" "g_entries (?gs ! i) = E"
    by (fact entries_put(1) [OF lt D(2) aE(2)], fact entries_put(2) [OF lt D(2) aE(2,1)],
      fact entries_put(3) [OF lt D(2) aE(2)])
  have cell: "ck_bytes (ky h0 a) = ck_bytes key" "hash_slice (ky h0 a) = Some hash" "hs h0 a = hash" "vl h0 a = value"
    using h l(3) by (simp_all add: h0_def ky_def hs_def vl_def new_handle_def ck_bytes_def hash_slice_def ck_hash_def ck_valid_def min_def)
  have view: "hs (heap w') b = hs h0 b" "ky (heap w') b = ky h0 b" "vl (heap w') b = vl h0 b" if "b \<in> entries_of ?gs" for b
    using keeps_views(1-3) [OF r(3)] entry_inv [OF inv that] by metis+
  have same: "h0 b = heap (cl_world st) b" if "b \<noteq> a" for b using that by (simp add: h0_def)
  have old: "hs h0 b = hs (heap (cl_world st)) b" "ky h0 b = ky (heap (cl_world st)) b" "vl h0 b = vl (heap (cl_world st)) b"
    if "b \<noteq> a" for b using same [OF that] by (simp_all add: hs_def ky_def vl_def)
  have hashed: "hashed (heap w') ?gs"
    unfolding hashed_def using view old cell E(1) D(6) unfolding hashed_def by (metis UnE singletonD subsetD)
  have ent: "is_entry (heap w') (g_entries (?gs ! shard_index hash)) (hash, ck_bytes key) a"
    unfolding i [symmetric] using l(1) E(3) view [OF E(2)] cell aE by (simp add: is_entry_def kv_def)
  have "(m(ck_bytes key \<mapsto> value)) (ck_bytes (ky (heap w') b)) = Some (vl (heap w') b)" if b: "b \<in> entries_of ?gs" for b
  proof (cases "b = a")
    case True
    then show ?thesis using view [OF b] cell by simp
  next
    case False
    then have "ck_bytes (ky (heap w') b) \<noteq> ck_bytes key"
      using key_entry_unique [OF inv hashed h l(3) ent b] by blast
    then show ?thesis using view [OF b] old [OF False] D(5) E(1) b False by (auto simp: coherent_def)
  qed
  then have c: "coherent (heap w') ?gs (m(ck_bytes key \<mapsto> value))" using hashed by (simp add: coherent_def)
  have "g_held (gs ! i) a = 0" using own_dom [OF at(2)] l(2) by (force simp: owned_def)
  then have "client_ghost \<lparr>cl_world = w', cl_cache = s', cl_refs = a # cl_refs st\<rparr> (m(ck_bytes key \<mapsto> value)) ?gs"
    by (intro client_ghost_put [OF g lt inv _ c]) simp
  then show ?thesis using that r(1) ent keeps_mono [OF r(3)] by (simp add: h0_def)
qed

lemma client_shrunk:
  assumes g: "client_ghost st m gs" and inv: "sharded_inv (heap w') s' gs'" and sh: "shrunk gs gs'"
    and k: "keeps UNIV (heap (cl_world st)) (heap w')"
  shows "client_ghost \<lparr>cl_world = w', cl_cache = s', cl_refs = cl_refs st\<rparr> m gs'"
proof -
  note D = client_ghostD [OF g]
  have "entries_of gs' \<subseteq> entries_of gs" using sh D(2) by (auto simp: shrunk_def entries_of_def)
  then have "coherent (heap w') gs' m" by (rule coherent_keep [OF D(5) _ k inv])
  then show ?thesis using inv D(4) total_held_shrunk [OF sh] by (simp add: client_ghost_def)
qed

lemma client_prune:
  assumes g: "client_ghost st m gs"
  obtains w' s' gs' where "sharded_prune (cl_world st) (cl_cache st) = Some (w', s')"
    "client_ghost \<lparr>cl_world = w', cl_cache = s', cl_refs = cl_refs st\<rparr> m gs'"
    "\<forall>i < kNumShards. g_list (gs' ! i) = []" "keeps UNIV (heap (cl_world st)) (heap w')"
proof -
  obtain w' s' gs' where r: "sharded_prune (cl_world st) (cl_cache st) = Some (w', s')" "sharded_inv (heap w') s' gs'"
    "shrunk gs gs'" "\<forall>i < kNumShards. g_list (gs' ! i) = []" "keeps UNIV (heap (cl_world st)) (heap w')"
    by (rule sharded_prune_spec [OF client_ghostD(1) [OF g]])
  show ?thesis using that [OF r(1) client_shrunk [OF g r(2,3,5)] r(4,5)] .
qed

lemma client_set_capacity:
  assumes g: "client_ghost st m gs"
  obtains w' s' gs' where "sharded_set_capacity (cl_world st) (cl_cache st) capacity = Some (w', s')"
    "client_ghost \<lparr>cl_world = w', cl_cache = s', cl_refs = cl_refs st\<rparr> m gs'"
    "\<forall>i < kNumShards. lc_capacity (sc_shards s' ! i) = per_shard_of capacity \<and>
       (lc_usage (sc_shards s' ! i) \<le> per_shard_of capacity \<or> g_list (gs' ! i) = [])"
    "keeps UNIV (heap (cl_world st)) (heap w')"
proof -
  obtain w' s' gs' where r: "sharded_set_capacity (cl_world st) (cl_cache st) capacity = Some (w', s')"
    "sharded_inv (heap w') s' gs'" "shrunk gs gs'" "\<forall>i < kNumShards. lc_capacity (sc_shards s' ! i) = per_shard_of capacity \<and>
       (lc_usage (sc_shards s' ! i) \<le> per_shard_of capacity \<or> g_list (gs' ! i) = [])"
    "keeps UNIV (heap (cl_world st)) (heap w')"
    by (rule sharded_set_capacity_spec [OF client_ghostD(1) [OF g]])
  show ?thesis using that [OF r(1) client_shrunk [OF g r(2,3,5)] r(4,5)] .
qed

lemma client_stepI:
  assumes "client_run x st = Some \<lparr>cl_world = w', cl_cache = s', cl_refs = rs\<rparr>"
    "client_ghost \<lparr>cl_world = w', cl_cache = s', cl_refs = rs\<rparr> (client_abs x m) gs'"
    "keeps A h (heap w')" "\<And>a. heap (cl_world st) a \<noteq> None \<Longrightarrow> h a = heap (cl_world st) a"
  shows "\<exists>st'. client_run x st = Some st' \<and> client_inv st' (client_abs x m) \<and> same_handles st st'"
  using assms(1,2) same_handlesI [OF assms(3,4)] unfolding client_inv_def by blast

lemma client_step:
  assumes inv: "client_inv st m" and legal: "client_legal x st"
  shows "\<exists>st'. client_run x st = Some st' \<and> client_inv st' (client_abs x m) \<and> same_handles st st'"
proof -
  obtain gs where g: "client_ghost st m gs" using inv by (auto simp: client_inv_def)
  show ?thesis
  proof (cases x)
    case (Insert a junk key v charge deleter priority)
    obtain hash where h: "hash_slice key = Some hash" using hash_slice_some [of key] legal Insert by auto
    obtain w' s' gs' where r: "sharded_insert (cl_world st) (cl_cache st) a junk key v charge deleter priority = Some (a, w', s')"
      "client_ghost \<lparr>cl_world = w', cl_cache = s', cl_refs = a # cl_refs st\<rparr> (m(ck_bytes key \<mapsto> v)) gs'"
      "keeps UNIV ((heap (cl_world st))(a \<mapsto> new_handle junk key hash v charge deleter priority)) (heap w')"
      by (rule client_insert [OF g legal [unfolded Insert] h])
    show ?thesis by (rule client_stepI [OF _ _ r(3)]) (use r(1,2) legal Insert in auto)
  next
    case (Lookup key)
    obtain hash where h: "hash_slice key = Some hash" using hash_slice_some [of key] legal Lookup by auto
    obtain a w' s' gs' where r: "sharded_lookup (cl_world st) (cl_cache st) key = Some (a, w', s')"
      "client_ghost \<lparr>cl_world = w', cl_cache = s', cl_refs = (if a = 0 then cl_refs st else a # cl_refs st)\<rparr> m gs'"
      "keeps UNIV (heap (cl_world st)) (heap w')"
      by (rule client_lookup [OF g legal [unfolded Lookup] h])
    show ?thesis by (rule client_stepI [OF _ _ r(3)]) (use r(1,2) Lookup in auto)
  next
    case (Release a)
    then obtain w' s' gs' where r: "sharded_release (cl_world st) (cl_cache st) a = Some (w', s')"
      "client_ghost \<lparr>cl_world = w', cl_cache = s', cl_refs = remove1 a (cl_refs st)\<rparr> m gs'"
      "keeps UNIV (heap (cl_world st)) (heap w')"
      using client_release [OF g, of a] legal by auto
    show ?thesis by (rule client_stepI [OF _ _ r(3)]) (use r(1,2) Release in auto)
  next
    case (Erase key)
    then have v: "ck_valid key" using legal by simp
    obtain hash where h: "hash_slice key = Some hash" using hash_slice_some [OF v] by auto
    obtain w' s' gs' where r: "sharded_erase (cl_world st) (cl_cache st) key = Some (w', s')"
      "client_ghost \<lparr>cl_world = w', cl_cache = s', cl_refs = cl_refs st\<rparr> (m(ck_bytes key := None)) gs'"
      "keeps UNIV (heap (cl_world st)) (heap w')"
      by (rule client_erase [OF g v h])
    show ?thesis by (rule client_stepI [OF _ _ r(3)]) (use r(1,2) Erase in auto)
  next
    case Prune
    obtain w' s' gs' where r: "sharded_prune (cl_world st) (cl_cache st) = Some (w', s')"
      "client_ghost \<lparr>cl_world = w', cl_cache = s', cl_refs = cl_refs st\<rparr> m gs'"
      "keeps UNIV (heap (cl_world st)) (heap w')"
      by (rule client_prune [OF g])
    show ?thesis by (rule client_stepI [OF _ _ r(3)]) (use r(1,2) Prune in auto)
  next
    case (SetCapacity capacity)
    obtain w' s' gs' where r: "sharded_set_capacity (cl_world st) (cl_cache st) capacity = Some (w', s')"
      "client_ghost \<lparr>cl_world = w', cl_cache = s', cl_refs = cl_refs st\<rparr> m gs'"
      "keeps UNIV (heap (cl_world st)) (heap w')"
      by (rule client_set_capacity [OF g])
    show ?thesis by (rule client_stepI [OF _ _ r(3)]) (use r(1,2) SetCapacity in auto)
  qed
qed

lemma client_new_spec:
  assumes ds: "length ds = kNumShards" "distinct ds" "0 \<notin> set ds"
  obtains st gs where "client_new ds junk capacity = Some st" "client_ghost st Map.empty gs" "cl_refs st = []"
    "dom (heap (cl_world st)) \<subseteq> set ds" "entries_of gs = {}"
proof -
  obtain w' s gs where r: "sharded_new \<lparr>heap = Map.empty, freed = []\<rparr> ds junk capacity = Some (w', s)"
    "sharded_inv (heap w') s gs" "\<forall>a. total_held gs a = 0"
    "\<forall>i < kNumShards. g_entries (gs ! i) = {} \<and> lc_capacity (sc_shards s ! i) = per_shard_of capacity"
    "dom (heap w') \<subseteq> set ds"
    by (rule sharded_new_spec [OF ds, of "\<lparr>heap = Map.empty, freed = []\<rparr>"]) simp
  have e: "entries_of gs = {}" using r(4) by (auto simp: entries_of_def)
  then have "client_ghost \<lparr>cl_world = w', cl_cache = s, cl_refs = []\<rparr> Map.empty gs"
    using r(2,3) by (simp add: client_ghost_def coherent_def hashed_def)
  then show ?thesis using that r(1,5) e by (simp add: client_new_def)
qed

lemma client_new_length: "client_new ds junk capacity = Some st \<Longrightarrow> length ds = kNumShards"
  by (auto simp: client_new_def sharded_new_def bind_eq_Some_conv guard_def split: if_splits)

lemma reachable_inv: "reachable st m \<Longrightarrow> client_inv st m"
proof (induction rule: reachable.induct)
  case (start ds junk capacity st)
  obtain st' gs where "client_new ds junk capacity = Some st'" "client_ghost st' Map.empty gs"
    by (rule client_new_spec [OF client_new_length [OF start(3)] start(1,2)])
  then show ?case using start(3) by (auto simp: client_inv_def)
next
  case (step st m x st')
  then show ?case using client_step [OF step.IH step.hyps(2)] by auto
qed

section \<open>What a client can rely on\<close>

subsection \<open>Facts about one reachable state\<close>

lemma reachable_ghost:
  assumes "reachable st m"
  obtains gs where "client_ghost st m gs"
  using reachable_inv [OF assms] by (auto simp: client_inv_def)

lemma refs_dom:
  assumes "client_ghost st m gs" "a \<in> set (cl_refs st)"
  shows "a \<in> dom (heap (cl_world st))"
proof -
  obtain i where i: "i < kNumShards" "g_held (gs ! i) a > 0" by (rule refs_own [OF assms])
  then show ?thesis
    using own_dom [OF shard_at_inv(2) [OF client_ghostD(1) [OF assms(1)] i(1)]] by (auto simp: owned_def)
qed

lemma total_usage_sum: "total_usage acc cs = acc + sum_list (map lc_usage cs)"
  by (induction cs arbitrary: acc) (simp_all add: add.assoc)

lemma own_disjoint:
  assumes "sharded_inv h s gs" "i < kNumShards" "j < kNumShards" "i \<noteq> j"
  shows "g_own (gs ! i) \<inter> g_own (gs ! j) = {}"
  using own_index [OF assms(1,2)] own_index [OF assms(1,3)] assms(4) by blast

lemma handles_own:
  assumes inv: "sharded_inv h s gs"
  shows "handles_of h s = (\<Union>i < kNumShards. g_own (gs ! i))"
proof -
  have len: "length (sc_shards s) = kNumShards" and dom: "dom h = (\<Union>i < kNumShards. area (sc_shards s ! i) (gs ! i))"
    and sh: "shards_inv shard_inv area h (sc_shards s) gs" using inv by (simp_all add: sharded_inv_def)
  have lru: "lc_lru ` set (sc_shards s) = (\<lambda>i. lc_lru (sc_shards s ! i)) ` {..<kNumShards}"
    using len by (auto simp: set_conv_nth)
  have "lc_lru (sc_shards s ! i) \<notin> g_own (gs ! j)" if "i < kNumShards" "j < kNumShards" for i j
  proof (cases "i = j")
    case True
    then show ?thesis
      using cache_invD(1) [OF shard_at_inv(2) [OF inv that(2)]] by (simp add: links_ok_def g_own_def)
  next
    case False
    then have "area (sc_shards s ! i) (gs ! i) \<inter> area (sc_shards s ! j) (gs ! j) = {}"
      using sh that len by (simp add: shards_inv_def)
    then show ?thesis by (auto simp: area_def)
  qed
  then show ?thesis unfolding handles_of_def dom lru by (auto simp: area_def)
qed

lemma usage_own:
  assumes inv: "sharded_inv h s gs"
  shows "sharded_memory_usage s = (\<Sum>a \<in> handles_of h s. ch h a)"
proof -
  have len: "length (sc_shards s) = kNumShards" using inv by (simp add: sharded_inv_def)
  have u: "lc_usage (sc_shards s ! i) = (\<Sum>a \<in> g_own (gs ! i). ch h a)" "finite (g_own (gs ! i))" if "i < kNumShards" for i
    using cache_invD(4,5) [OF shard_at_inv(2) [OF inv that]] by (simp_all add: g_own_def counts_ok_def)
  have "sum_list (map lc_usage (sc_shards s)) = (\<Sum>i < kNumShards. lc_usage (sc_shards s ! i))"
    using len by (simp add: sum_list_sum_nth atLeast0LessThan)
  also have "\<dots> = (\<Sum>i < kNumShards. \<Sum>a \<in> g_own (gs ! i). ch h a)" using u(1) by simp
  also have "\<dots> = (\<Sum>a \<in> (\<Union>i < kNumShards. g_own (gs ! i)). ch h a)"
    by (rule sum.UNION_disjoint [symmetric]) (use u(2) own_disjoint [OF inv] in auto)
  finally show ?thesis by (simp add: sharded_memory_usage_def total_usage_sum handles_own [OF inv])
qed

lemma no_refs_held:
  assumes "client_ghost st m gs" "cl_refs st = []" "i < kNumShards"
  shows "g_held (gs ! i) a = 0"
  using held_le_refs [OF assms(1,3), of a] assms(2) by simp

subsection \<open>An initial client\<close>

lemma demo_key_ok: "ck_valid demo_key" "ck_bytes demo_key = [107, 49]"
  by (simp_all add: demo_key_def ck_of_string_def ck_valid_def ck_bytes_def)

text \<open>A new cache with dummy heads at 1 to 32: the first insert is legal, and so on.\<close>

lemma demo_reach:
  obtains st st1 :: "nat client" where "reachable st Map.empty" "cl_refs st = []" "client_legal demo_insert st"
    "client_run demo_insert st = Some st1" "reachable st1 [[107, 49] \<mapsto> 7]" "cl_refs st1 = [100]"
proof -
  let ?ds = "[1..<33] :: addr list"
  have ds: "length ?ds = kNumShards" "distinct ?ds" "0 \<notin> set ?ds"
    by (simp_all add: kNumShards_def kNumShardBits_def)
  obtain st :: "nat client" and gs where st: "client_new ?ds (demo_cell []) 1000 = Some st" "client_ghost st Map.empty gs"
    "cl_refs st = []" "dom (heap (cl_world st)) \<subseteq> set ?ds" "entries_of gs = {}"
    by (rule client_new_spec [OF ds])
  note D = client_ghostD [OF st(2)]
  have "unat (t_elems (lc_table (sc_shards (cl_cache st) ! i))) = 0" if "i < kNumShards" for i
  proof -
    have "g_entries (gs ! i) = {}" using st(5) that by (auto simp: entries_of_def)
    then show ?thesis using table_rep_elems [OF cache_invD(3) [OF shard_at_inv(2) [OF D(1) that]]] by simp
  qed
  then have l: "client_legal demo_insert st"
    using st(4) D(3) by (auto simp: demo_insert_def demo_key_ok list_all_length)
  have r: "reachable st Map.empty" by (rule start [OF ds(2,3) st(1)])
  obtain hash where h: "hash_slice demo_key = Some hash" using hash_slice_some [OF demo_key_ok(1)] by blast
  obtain w' s' where i: "sharded_insert (cl_world st) (cl_cache st) 100 0 demo_key 7 10 0 NORMAL = Some (100, w', s')"
    by (rule client_insert [OF st(2) l [unfolded demo_insert_def] h])
  then have run: "client_run demo_insert st = Some \<lparr>cl_world = w', cl_cache = s', cl_refs = [100]\<rparr>"
    using st(3) by (simp add: demo_insert_def)
  show ?thesis using that [OF r st(3) l run] step [OF r l run] by (simp add: demo_insert_def demo_key_ok)
qed

subsection \<open>Properties\<close>

text \<open>
  C1. Memory safety.  After any sequence of calls that keeps to the protocol, every further
  call that keeps to it returns: no null or dangling pointer is followed, no handle is freed
  twice, no assertion fails and no loop runs forever, and the invariant holds again.
\<close>

theorem cache_memory_safe:
  assumes "reachable st m" "client_legal x st"
  shows "\<exists>st'. client_run x st = Some st' \<and> client_inv st' (client_abs x m)"
  using client_step [OF reachable_inv [OF assms(1)] assms(2)] by blast

theorem cache_memory_safe_witness:
  "\<exists>(st :: nat client) m st'. reachable st m \<and> client_legal (Release 100) st \<and>
     client_run (Release 100) st = Some st' \<and> client_inv st' (client_abs (Release 100) m)"
proof -
  obtain st st1 :: "nat client" where s: "reachable st1 [[107, 49] \<mapsto> 7]" "cl_refs st1 = [100]" by (rule demo_reach)
  then have l: "client_legal (Release 100) st1" by simp
  show ?thesis using cache_memory_safe [OF s(1) l] s(1) l by blast
qed

text \<open>
  C2. Coherence: the cache refines a map.  A lookup finds either nothing or a handle with
  the value that the last insert of an equal key gave, not erased since; evictions, releases
  and changes of the capacity never make it return anything else.
\<close>

theorem cache_coherent:
  assumes "reachable st m" "client_legal (Lookup key) st"
  shows "\<exists>a w s. sharded_lookup (cl_world st) (cl_cache st) key = Some (a, w, s) \<and>
    (if a = 0 then w = cl_world st else sharded_value w a = m (ck_bytes key) \<and> m (ck_bytes key) \<noteq> None)"
proof -
  obtain gs where g: "client_ghost st m gs" by (rule reachable_ghost [OF assms(1)])
  note D = client_ghostD [OF g]
  obtain hash where h: "hash_slice key = Some hash" using hash_slice_some [of key] assms(2) by auto
  have v: "ck_valid key" using assms(2) by simp
  obtain a w s gs' where r: "sharded_lookup (cl_world st) (cl_cache st) key = Some (a, w, s)"
    "is_entry (heap (cl_world st)) (g_entries (gs ! shard_index hash)) (hash, ck_bytes key) a"
    "client_ghost \<lparr>cl_world = w, cl_cache = s, cl_refs = (if a = 0 then cl_refs st else a # cl_refs st)\<rparr> m gs'"
    "keeps UNIV (heap (cl_world st)) (heap w)"
    by (rule client_lookup [OF g assms(2) h])
  have "w = cl_world st" if "a = 0"
    using r(1) that h by (auto simp: sharded_lookup_def lru_lookup_def Let_def bind_eq_Some_conv split: if_splits prod.splits)
  moreover have "sharded_value w a = m (ck_bytes key) \<and> m (ck_bytes key) \<noteq> None" if "a \<noteq> 0"
  proof -
    have a: "a \<in> entries_of gs" "ck_bytes (ky (heap (cl_world st)) a) = ck_bytes key"
      using r(2) that shard_index_less by (auto simp: is_entry_def entries_of_def kv_def)
    have d: "a \<in> dom (heap w)" using refs_dom [OF r(3), of a] that by simp
    then have "sharded_value w a = Some (vl (heap w) a)" by (auto simp: sharded_value_def vl_def)
    then show ?thesis using keeps_views(3) [OF r(4) d] D(5) a by (auto simp: coherent_def)
  qed
  ultimately show ?thesis using r(1) by auto
qed

theorem cache_coherent_witness:
  "\<exists>(st :: nat client) m. reachable st m \<and> m (ck_bytes demo_key) = Some 7 \<and> client_legal (Lookup demo_key) st \<and>
     (\<exists>a w s. sharded_lookup (cl_world st) (cl_cache st) demo_key = Some (a, w, s) \<and>
       (if a = 0 then w = cl_world st else sharded_value w a = m (ck_bytes demo_key) \<and> m (ck_bytes demo_key) \<noteq> None))"
proof -
  obtain st st1 :: "nat client" where s: "reachable st1 [[107, 49] \<mapsto> 7]" "cl_refs st1 = [100]" by (rule demo_reach)
  then have l: "client_legal (Lookup demo_key) st1" by (simp add: demo_key_ok)
  have "[[107, 49] \<mapsto> 7] (ck_bytes demo_key) = Some (7 :: nat)" by (simp add: demo_key_ok)
  then show ?thesis using cache_coherent [OF s(1) l] s(1) l by blast
qed

text \<open>
  C3. A handle that a client holds stays: as long as the reference is not released, no call
  frees its cell or changes its value or charge, even when the entry is evicted, erased or
  replaced.
\<close>

theorem held_handles_survive:
  assumes "reachable st m" "client_legal x st" "client_run x st = Some st'"
    and "a \<in> set (cl_refs st)" "a \<in> set (cl_refs st')"
  shows "sharded_value_charge (cl_world st') a = sharded_value_charge (cl_world st) a \<and>
    sharded_value_charge (cl_world st) a \<noteq> None"
proof -
  have i: "client_inv st m" by (rule reachable_inv [OF assms(1)])
  have i': "client_inv st' (client_abs x m)" "same_handles st st'"
    using client_step [OF i assms(2)] assms(3) by auto
  obtain e e' where e: "heap (cl_world st) a = Some e" "heap (cl_world st') a = Some e'"
    using i i'(1) refs_dom assms(4,5) unfolding client_inv_def by blast
  then have "strip_meta e' = strip_meta e" using i'(2) unfolding same_handles_def by blast
  then show ?thesis using strip_meta_eq [of e' e] e by (simp add: sharded_value_charge_def)
qed

theorem held_handles_survive_witness:
  "\<exists>st st' :: nat client. 100 \<in> set (cl_refs st) \<and> client_run Prune st = Some st' \<and>
     sharded_value_charge (cl_world st') 100 = sharded_value_charge (cl_world st) 100 \<and>
     sharded_value_charge (cl_world st) 100 \<noteq> None"
proof -
  obtain st st1 :: "nat client" where s: "reachable st1 [[107, 49] \<mapsto> 7]" "cl_refs st1 = [100]" by (rule demo_reach)
  obtain st2 where r: "client_run Prune st1 = Some st2"
    using client_step [OF reachable_inv [OF s(1)], of Prune] by auto
  then have "cl_refs st2 = [100]" using s(2) by (auto simp: bind_eq_Some_conv)
  then have "sharded_value_charge (cl_world st2) 100 = sharded_value_charge (cl_world st1) 100 \<and>
      sharded_value_charge (cl_world st1) 100 \<noteq> None"
    using held_handles_survive [OF s(1) _ r, of 100] s(2) by simp
  moreover have "100 \<in> set (cl_refs st1)" using s(2) by simp
  ultimately show ?thesis using r by blast
qed

text \<open>
  C4. Insert, then look up: the lookup finds the handle that insert returned, with the
  inserted value and charge, whatever was evicted to make room for it.
\<close>

theorem insert_then_lookup:
  assumes "reachable st m" "client_legal (Insert a junk key v charge deleter priority) st"
    and run: "client_run (Insert a junk key v charge deleter priority) st = Some st1" and l: "client_legal (Lookup key) st1"
  shows "\<exists>st2. client_run (Lookup key) st1 = Some st2 \<and> cl_refs st2 = a # a # cl_refs st \<and>
    sharded_value_charge (cl_world st2) a = Some (v, charge)"
proof -
  obtain gs where g: "client_ghost st m gs" by (rule reachable_ghost [OF assms(1)])
  obtain hash where h: "hash_slice key = Some hash" using hash_slice_some [of key] l by auto
  obtain w1 s1 gs1 where r: "sharded_insert (cl_world st) (cl_cache st) a junk key v charge deleter priority = Some (a, w1, s1)"
    "client_ghost \<lparr>cl_world = w1, cl_cache = s1, cl_refs = a # cl_refs st\<rparr> (m(ck_bytes key \<mapsto> v)) gs1"
    "is_entry (heap w1) (g_entries (gs1 ! shard_index hash)) (hash, ck_bytes key) a"
    "keeps UNIV ((heap (cl_world st))(a \<mapsto> new_handle junk key hash v charge deleter priority)) (heap w1)"
    by (rule client_insert [OF g assms(2) h])
  have st1: "st1 = \<lparr>cl_world = w1, cl_cache = s1, cl_refs = a # cl_refs st\<rparr>" using run r(1) by simp
  note D = client_ghostD [OF r(2)]
  obtain b w2 s2 gs2 where q: "sharded_lookup w1 s1 key = Some (b, w2, s2)"
    "is_entry (heap w1) (g_entries (gs1 ! shard_index hash)) (hash, ck_bytes key) b"
    "client_ghost \<lparr>cl_world = w2, cl_cache = s2, cl_refs = (if b = 0 then a # cl_refs st else b # a # cl_refs st)\<rparr> (m(ck_bytes key \<mapsto> v)) gs2"
    "keeps UNIV (heap w1) (heap w2)"
    by (rule client_lookup [OF r(2) l [unfolded st1] h, unfolded client.simps])
  have a0: "a \<noteq> 0" and v: "ck_valid key" using assms(2) by simp_all
  have a: "a \<in> entries_of gs1" "ck_bytes (ky (heap w1) a) = ck_bytes key"
    using r(3) a0 shard_index_less by (auto simp: is_entry_def entries_of_def kv_def)
  have b: "b = a" using key_entry_unique [OF D(1,6) h v _ a(1)] q(2) a(2) by simp
  have d: "a \<in> dom (heap w2)" "a \<in> dom (heap w1)" using refs_dom [OF q(3), of a] refs_dom [OF r(2), of a] b a0 by auto
  then have "sharded_value_charge w2 a = Some (vl (heap w2) a, ch (heap w2) a)"
    by (auto simp: sharded_value_charge_def vl_def ch_def)
  also have "\<dots> = Some (v, charge)"
    using keeps_views(3,4) [OF q(4) d(1)] keeps_views(3,4) [OF r(4) d(2)] by (simp add: vl_def ch_def new_handle_def)
  finally show ?thesis using q(1) b a0 by (simp add: st1)
qed

theorem insert_then_lookup_witness:
  "\<exists>st st1 st2 :: nat client. client_run demo_insert st = Some st1 \<and> client_run (Lookup demo_key) st1 = Some st2 \<and>
     cl_refs st2 = [100, 100] \<and> sharded_value_charge (cl_world st2) 100 = Some (7, 10)"
proof -
  obtain st st1 :: "nat client" where s: "reachable st Map.empty" "cl_refs st = []" "client_legal demo_insert st"
    "client_run demo_insert st = Some st1" "cl_refs st1 = [100]" by (rule demo_reach)
  have l: "client_legal (Lookup demo_key) st1" using s(5) by (simp add: demo_key_ok)
  show ?thesis
    using insert_then_lookup [OF s(1) s(3) [unfolded demo_insert_def] s(4) [unfolded demo_insert_def] l]
    unfolding s(2) using s(4) by blast
qed

text \<open>
  C5. Erase, then look up: the lookup finds nothing and takes no reference.
\<close>

theorem erase_then_lookup:
  assumes "reachable st m" "client_legal (Erase key) st" "client_run (Erase key) st = Some st1"
    and l: "client_legal (Lookup key) st1"
  shows "\<exists>st2. client_run (Lookup key) st1 = Some st2 \<and> cl_refs st2 = cl_refs st \<and> cl_world st2 = cl_world st1"
proof -
  have r1: "reachable st1 (m(ck_bytes key := None))" using step [OF assms(1-3)] by simp
  obtain gs where g: "client_ghost st1 (m(ck_bytes key := None)) gs" by (rule reachable_ghost [OF r1])
  note D = client_ghostD [OF g]
  obtain hash where h: "hash_slice key = Some hash" using hash_slice_some [of key] l by auto
  obtain a w s where r: "sharded_lookup (cl_world st1) (cl_cache st1) key = Some (a, w, s)"
    "is_entry (heap (cl_world st1)) (g_entries (gs ! shard_index hash)) (hash, ck_bytes key) a"
    by (rule client_lookup [OF g l h])
  have "a = 0"
  proof (rule ccontr)
    assume "a \<noteq> 0"
    then have "a \<in> entries_of gs" "ck_bytes (ky (heap (cl_world st1)) a) = ck_bytes key"
      using r(2) shard_index_less by (auto simp: is_entry_def entries_of_def kv_def)
    then show False using D(5) by (auto simp: coherent_def)
  qed
  moreover have "cl_refs st1 = cl_refs st" using assms(3) by (auto simp: bind_eq_Some_conv)
  moreover have "w = cl_world st1"
    using r(1) \<open>a = 0\<close> h
    by (auto simp: sharded_lookup_def lru_lookup_def Let_def bind_eq_Some_conv split: if_splits prod.splits)
  ultimately show ?thesis using r(1) by simp
qed

theorem erase_then_lookup_witness:
  "\<exists>st st1 st2 :: nat client. client_run (Erase demo_key) st = Some st1 \<and>
     client_run (Lookup demo_key) st1 = Some st2 \<and> cl_refs st2 = [100]"
proof -
  obtain st st1 :: "nat client" where s: "reachable st1 [[107, 49] \<mapsto> 7]" "cl_refs st1 = [100]" by (rule demo_reach)
  have l: "client_legal (Erase demo_key) st1" by (simp add: demo_key_ok)
  obtain st2 where r: "client_run (Erase demo_key) st1 = Some st2"
    using client_step [OF reachable_inv [OF s(1)] l] by auto
  then have "cl_refs st2 = [100]" using s(2) by (auto simp: bind_eq_Some_conv)
  then have "client_legal (Lookup demo_key) st2" by (simp add: demo_key_ok)
  then show ?thesis using erase_then_lookup [OF s(1) l r] r s(2) by metis
qed

text \<open>
  C7. The accounting is exact: in every reachable state the memory usage that the cache
  reports is the sum of the charges of the handles that are allocated, modulo two to the 64.
\<close>

theorem usage_is_exact:
  assumes "reachable st m"
  shows "sharded_memory_usage (cl_cache st) =
    (\<Sum>a \<in> handles_of (heap (cl_world st)) (cl_cache st). ch (heap (cl_world st)) a)"
proof -
  obtain gs where g: "client_ghost st m gs" by (rule reachable_ghost [OF assms])
  show ?thesis by (rule usage_own [OF client_ghostD(1) [OF g]])
qed

theorem usage_is_exact_witness:
  "\<exists>st :: nat client. cl_refs st = [100] \<and> sharded_memory_usage (cl_cache st) =
     (\<Sum>a \<in> handles_of (heap (cl_world st)) (cl_cache st). ch (heap (cl_world st)) a)"
proof -
  obtain st st1 :: "nat client" where s: "reachable st1 [[107, 49] \<mapsto> 7]" "cl_refs st1 = [100]" by (rule demo_reach)
  then show ?thesis using usage_is_exact [OF s(1)] by blast
qed

text \<open>
  C8. Nothing leaks: when the clients have released every reference, prune frees every
  handle that was ever inserted, and only the dummy heads of the shards stay allocated.
\<close>

theorem prune_frees_all:
  assumes "reachable st m" "cl_refs st = []" "client_run Prune st = Some st'"
  shows "handles_of (heap (cl_world st')) (cl_cache st') = {} \<and> sharded_memory_usage (cl_cache st') = 0"
proof -
  obtain gs where g: "client_ghost st m gs" by (rule reachable_ghost [OF assms(1)])
  obtain w' s' gs' where r: "sharded_prune (cl_world st) (cl_cache st) = Some (w', s')"
    "client_ghost \<lparr>cl_world = w', cl_cache = s', cl_refs = cl_refs st\<rparr> m gs'" "\<forall>i < kNumShards. g_list (gs' ! i) = []"
    by (rule client_prune [OF g])
  have st': "st' = \<lparr>cl_world = w', cl_cache = s', cl_refs = cl_refs st\<rparr>" using assms(3) r(1) by simp
  note D = client_ghostD [OF r(2), unfolded client.simps]
  have "g_own (gs' ! i) = {}" if "i < kNumShards" for i
    using cache_invD(2) [OF shard_at_inv(2) [OF D(1) that]] r(3) that no_refs_held [OF r(2) _ that] assms(2)
    by (auto simp: g_own_def owned_def)
  then have "handles_of (heap w') s' = {}" by (auto simp: handles_own [OF D(1)])
  then show ?thesis using usage_own [OF D(1)] by (simp add: st')
qed

theorem prune_frees_all_witness:
  "\<exists>st1 st2 st3 :: nat client. client_run (Release 100) st1 = Some st2 \<and> client_run Prune st2 = Some st3 \<and>
     handles_of (heap (cl_world st3)) (cl_cache st3) = {} \<and> sharded_memory_usage (cl_cache st3) = 0"
proof -
  obtain st st1 :: "nat client" where s: "reachable st1 [[107, 49] \<mapsto> 7]" "cl_refs st1 = [100]" by (rule demo_reach)
  have l: "client_legal (Release 100) st1" using s(2) by simp
  obtain st2 where r: "client_run (Release 100) st1 = Some st2"
    using client_step [OF reachable_inv [OF s(1)] l] by auto
  then have e: "cl_refs st2 = []" using s(2) by (auto simp: bind_eq_Some_conv)
  note s2 = step [OF s(1) l r]
  obtain st3 where r3: "client_run Prune st2 = Some st3"
    using client_step [OF reachable_inv [OF s2], of Prune] by auto
  then show ?thesis using prune_frees_all [OF s2 e r3] r by blast
qed

text \<open>
  C9. The capacity is respected: after set\_capacity every shard is within its share, unless
  the clients hold references that keep it above.
\<close>

theorem set_capacity_fits:
  assumes "reachable st m" "cl_refs st = []" "client_run (SetCapacity capacity) st = Some st'" "c \<in> set (sc_shards (cl_cache st'))"
  shows "lc_capacity c = per_shard_of capacity \<and> lc_usage c \<le> lc_capacity c"
proof -
  obtain gs where g: "client_ghost st m gs" by (rule reachable_ghost [OF assms(1)])
  obtain w' s' gs' where r: "sharded_set_capacity (cl_world st) (cl_cache st) capacity = Some (w', s')"
    "client_ghost \<lparr>cl_world = w', cl_cache = s', cl_refs = cl_refs st\<rparr> m gs'"
    "\<forall>i < kNumShards. lc_capacity (sc_shards s' ! i) = per_shard_of capacity \<and>
       (lc_usage (sc_shards s' ! i) \<le> per_shard_of capacity \<or> g_list (gs' ! i) = [])"
    by (rule client_set_capacity [OF g])
  have st': "st' = \<lparr>cl_world = w', cl_cache = s', cl_refs = cl_refs st\<rparr>" using assms(3) r(1) by simp
  note D = client_ghostD [OF r(2), unfolded client.simps]
  obtain i where i: "i < kNumShards" "c = sc_shards s' ! i" using assms(4) D(3) st' by (auto simp: in_set_conv_nth)
  note inv = cache_invD [OF shard_at_inv(2) [OF D(1) i(1)]]
  have "lc_usage c = 0" if "g_list (gs' ! i) = []"
  proof -
    have "owned (g_entries (gs' ! i)) (g_held (gs' ! i)) = {}"
      using inv(2) that no_refs_held [OF r(2) _ i(1)] assms(2) by (auto simp: owned_def)
    then show ?thesis using inv(5) i(2) by simp
  qed
  then show ?thesis using r(3) i by auto
qed

theorem set_capacity_fits_witness:
  "\<exists>st st' :: nat client. reachable st [[107, 49] \<mapsto> 7] \<and> client_run (SetCapacity 64) st = Some st' \<and>
     (\<forall>c \<in> set (sc_shards (cl_cache st')). lc_capacity c = 2 \<and> lc_usage c \<le> lc_capacity c)"
proof -
  obtain st1 :: "nat client" where s1: "reachable st1 [[107, 49] \<mapsto> 7]" "cl_refs st1 = [100]"
    using demo_reach by metis
  then have l: "client_legal (Release 100) st1" by simp
  obtain st where r1: "client_run (Release 100) st1 = Some st"
    using client_step [OF reachable_inv [OF s1(1)] l] by blast
  have s: "reachable st [[107, 49] \<mapsto> 7]" "cl_refs st = []"
    using step [OF s1(1) l r1] r1 s1(2) by (auto split: bind_splits)
  obtain st2 where r: "client_run (SetCapacity 64) st = Some st2"
    using client_step [OF reachable_inv [OF s(1)], of "SetCapacity 64"] by auto
  have "per_shard_of 64 = 2" by (simp add: per_shard_of_def kNumShards_def kNumShardBits_def)
  then show ?thesis using set_capacity_fits [OF s r] r s(1) by metis
qed

subsection \<open>The eviction policy\<close>

lemma evict_pass_order:
  "evict_pass el chg capacity charge usage xs = (ks, es, u) \<Longrightarrow>
     filter el xs = es @ filter el ks \<and> filter (\<lambda>x. \<not> el x) xs = filter (\<lambda>x. \<not> el x) ks \<and> filter el es = es"
  by (induction xs arbitrary: usage ks es u) (fastforce split: if_splits prod.splits)+

lemma evict_plan_order:
  assumes "evict_plan prio chg capacity charge usage xs = (ks, es, u)"
  shows "filter (\<lambda>x. prio x \<noteq> DURABLE) xs = filter (\<lambda>x. prio x \<noteq> DURABLE) es @ filter (\<lambda>x. prio x \<noteq> DURABLE) ks"
    "filter (\<lambda>x. prio x = DURABLE) xs = filter (\<lambda>x. prio x = DURABLE) es @ filter (\<lambda>x. prio x = DURABLE) ks"
    "(\<exists>x \<in> set es. prio x = DURABLE) \<longrightarrow> (\<forall>x \<in> set ks. prio x = DURABLE)"
proof -
  obtain k1 e1 u1 e2 where p1: "evict_pass (\<lambda>a. prio a \<noteq> DURABLE) chg capacity charge usage xs = (k1, e1, u1)"
    and p2: "evict_pass (\<lambda>_. True) chg capacity charge u1 k1 = (ks, e2, u)" and es: "es = e1 @ e2"
    using assms by (auto simp: evict_plan_def Let_def split: prod.splits)
  have o1: "filter (\<lambda>x. prio x \<noteq> DURABLE) xs = e1 @ filter (\<lambda>x. prio x \<noteq> DURABLE) k1"
    "filter (\<lambda>x. prio x = DURABLE) xs = filter (\<lambda>x. prio x = DURABLE) k1" "filter (\<lambda>x. prio x \<noteq> DURABLE) e1 = e1"
    using evict_pass_order [OF p1] by simp_all
  have o2: "k1 = e2 @ ks" using evict_pass_order [OF p2] by simp
  have n: "filter (\<lambda>x. prio x = DURABLE) e1 = []" using o1(3) by (auto simp: filter_empty_conv filter_id_conv)
  show "filter (\<lambda>x. prio x \<noteq> DURABLE) xs = filter (\<lambda>x. prio x \<noteq> DURABLE) es @ filter (\<lambda>x. prio x \<noteq> DURABLE) ks"
    "filter (\<lambda>x. prio x = DURABLE) xs = filter (\<lambda>x. prio x = DURABLE) es @ filter (\<lambda>x. prio x = DURABLE) ks"
    using o1 o2 es n by simp_all
  have "\<forall>x \<in> set k1. prio x = DURABLE" if "\<not> u1 + charge \<le> capacity"
    using evict_pass_fits [OF p1] that by blast
  moreover have "e2 = []" if "u1 + charge \<le> capacity" using p2 that by (cases k1) (auto simp: not_less [symmetric])
  ultimately show "(\<exists>x \<in> set es. prio x = DURABLE) \<longrightarrow> (\<forall>x \<in> set ks. prio x = DURABLE)"
    using o2 es n by (cases "u1 + charge \<le> capacity") (auto simp: filter_empty_conv)
qed

lemma evict_pass_needed:
  "evict_pass el chg capacity charge usage xs = (ks, es, u) \<Longrightarrow>
     u = usage - (\<Sum>x\<leftarrow>es. chg x) \<and> (\<forall>i < length es. capacity < usage - (\<Sum>x\<leftarrow>take i es. chg x) + charge)"
proof (induction xs arbitrary: usage ks es u)
  case (Cons x xs)
  show ?case
  proof (cases "capacity < usage + charge \<and> el x")
    case True
    then obtain es' where *: "evict_pass el chg capacity charge (usage - chg x) xs = (ks, es', u)" "es = x # es'"
      using Cons.prems by (auto split: prod.splits)
    show ?thesis
      using Cons.IH [OF *(1)] True unfolding *(2)
      by (auto simp: less_Suc_eq_0_disj diff_diff_eq [symmetric])
  qed (use Cons in \<open>auto split: if_splits prod.splits\<close>)
qed simp

lemma evict_plan_needed:
  assumes "evict_plan prio chg capacity charge usage xs = (ks, es, u)"
  shows "u = usage - (\<Sum>x\<leftarrow>es. chg x)"
    "\<forall>i < length es. capacity < usage - (\<Sum>x\<leftarrow>take i es. chg x) + charge"
proof -
  obtain k1 e1 u1 e2 where p1: "evict_pass (\<lambda>a. prio a \<noteq> DURABLE) chg capacity charge usage xs = (k1, e1, u1)"
    and p2: "evict_pass (\<lambda>_. True) chg capacity charge u1 k1 = (ks, e2, u)" and es: "es = e1 @ e2"
    using assms by (auto simp: evict_plan_def Let_def split: prod.splits)
  note n1 = evict_pass_needed [OF p1] and n2 = evict_pass_needed [OF p2]
  show "u = usage - (\<Sum>x\<leftarrow>es. chg x)" using n1 n2 es by (simp add: diff_diff_eq)
  show "\<forall>i < length es. capacity < usage - (\<Sum>x\<leftarrow>take i es. chg x) + charge"
  proof (intro allI impI)
    fix i assume i: "i < length es"
    show "capacity < usage - (\<Sum>x\<leftarrow>take i es. chg x) + charge"
    proof (cases "i < length e1")
      case True
      then show ?thesis using n1 es by simp
    next
      case False
      then have "i - length e1 < length e2" using i es by simp
      then have "capacity < u1 - (\<Sum>x\<leftarrow>take (i - length e1) e2. chg x) + charge" using n2 by blast
      then show ?thesis using n1 es False by (simp add: diff_diff_eq)
    qed
  qed
qed

lemma shard_demo_inv: "cache_inv shard_heap shard_demo [3, 4] {3, 4} (\<lambda>_. 0)"
proof -
  have "table_ok shard_heap (lc_table shard_demo) [[], [3], [4], []]"
    by (auto simp: table_ok_def table_core_def chains_ok_def shard_demo_def shard_heap_def demo_cell_def All_less_Suc
        keyed_def nx_def ky_def kv_def hs_def nh_def ck_valid_def ck_bytes_def bucket_of_def intro!: exI [of _ 2])
  then have "table_rep shard_heap (lc_table shard_demo) {3, 4}"
    unfolding table_rep_def by (intro exI [of _ "[[], [3], [4], []]"]) auto
  moreover have "links_ok shard_heap (lc_lru shard_demo) [3, 4] (owned {3, 4} (\<lambda>_. 0))"
    by (simp add: links_ok_def owned_def dll_def shard_demo_def shard_heap_def demo_cell_def nx_def pv_def)
  moreover have "counts_ok shard_heap {3, 4} (\<lambda>_. 0)"
    by (simp add: counts_ok_def owned_def shard_heap_def demo_cell_def ky_def ck_valid_def rf_def ic_def)
  moreover have "lc_usage shard_demo = (\<Sum>a \<in> owned {3, 4} (\<lambda>_. 0). ch shard_heap a)"
    by (simp add: owned_def shard_demo_def shard_heap_def ch_def)
  ultimately show ?thesis by (auto simp: cache_inv_def)
qed


end
