(* ===== verification/CacheManager.thy ===== *)
theory CacheManager
  imports CacheClient
begin

text \<open>
  The query cache on top of the sharded cache (src/modules/lru_cache/cache_manager.hh and
  cache_manager.cc).  Its two operations are compositions of operations of the sharded
  cache: populate inserts, prunes when the usage is above the capacity, and releases; probe
  looks up, copies the value and releases.  Chunks and columns are held by shared pointers; the
  model has the pointees, so it covers values without null pointers, whose columns nobody
  changes while they are cached.
\<close>

record Column =
  col_data :: bytes

definition column_size :: "Column \<Rightarrow> u64" where
  "column_size c = of_nat (length (col_data c))"

record Chunk =
  chk_columns :: "Column list"

fun bytes_usage_from :: "u64 \<Rightarrow> Column list \<Rightarrow> u64" where
  "bytes_usage_from n [] = n"
| "bytes_usage_from n (c # cs) = bytes_usage_from (n + column_size c) cs"

definition append_column :: "Chunk \<Rightarrow> Column \<Rightarrow> Chunk" where
  "append_column k c = k\<lparr>chk_columns := chk_columns k @ [c]\<rparr>"

definition bytes_usage :: "Chunk \<Rightarrow> u64" where
  "bytes_usage k = bytes_usage_from 0 (chk_columns k)"

record CacheValue =
  cv_latest_hit_time :: "64 word"
  cv_hit_count :: "64 word"
  cv_populate_time :: "64 word"
  cv_version :: "64 word"
  cv_result :: "Chunk list"

fun value_size_from :: "u64 \<Rightarrow> Chunk list \<Rightarrow> u64" where
  "value_size_from n [] = n"
| "value_size_from n (k # ks) = value_size_from (n + bytes_usage k) ks"

definition cache_value_size :: "CacheValue \<Rightarrow> u64" where
  "cache_value_size v = value_size_from 0 (cv_result v)"

datatype Status = Ok | InternalError | NotFound

text \<open>The function delete\_cache\_entry, as the deleter that a handle records.\<close>

definition delete_cache_entry :: nat where "delete_cache_entry = 0"

definition cm_populate ::
  "CacheValue world \<Rightarrow> sharded_cache \<Rightarrow> addr \<Rightarrow> addr \<Rightarrow> bytes \<Rightarrow> CacheValue \<Rightarrow> (Status \<times> CacheValue world \<times> sharded_cache) option" where
  "cm_populate w s a junk key v =
     do { (handle, w, s) \<leftarrow> sharded_insert w s a junk (ck_of_string key) v (cache_value_size v) delete_cache_entry NORMAL;
          (w, s) \<leftarrow> (if sharded_memory_usage s > sc_capacity s then sharded_prune w s else Some (w, s));
          let status = (if handle \<noteq> 0 then Ok else InternalError);
          (w, s) \<leftarrow> sharded_release w s handle;
          Some (status, w, s) }"

definition cm_probe ::
  "CacheValue world \<Rightarrow> sharded_cache \<Rightarrow> bytes \<Rightarrow> ((Status + CacheValue) \<times> CacheValue world \<times> sharded_cache) option" where
  "cm_probe w s key =
     do { (handle, w, s) \<leftarrow> sharded_lookup w s (ck_of_string key);
          if handle = 0 then Some (Inl NotFound, w, s)
          else do { v \<leftarrow> sharded_value w handle;
                    (w, s) \<leftarrow> sharded_release w s handle;
                    Some (Inr v, w, s) } }"

definition cm_memory_usage :: "sharded_cache \<Rightarrow> u64" where
  "cm_memory_usage s = sharded_memory_usage s"

definition cm_capacity :: "sharded_cache \<Rightarrow> u64" where
  "cm_capacity s = sc_capacity s"

text \<open>
  The manager between two calls holds no reference of its own.  Its states are those that
  populate and probe bring about, each with the values the calls stored last.
\<close>

definition cm_fresh :: "CacheValue world \<Rightarrow> sharded_cache \<Rightarrow> addr \<Rightarrow> bytes \<Rightarrow> bool" where
  "cm_fresh w s a key \<longleftrightarrow> a \<noteq> 0 \<and> heap w a = None \<and> length key < 2 ^ 64 \<and>
     list_all (\<lambda>c. unat (t_elems (lc_table c)) < 2 ^ 31) (sc_shards s)"

inductive cm_reachable :: "CacheValue world \<Rightarrow> sharded_cache \<Rightarrow> (bytes \<rightharpoonup> CacheValue) \<Rightarrow> bool" where
  cm_start: "distinct ds \<Longrightarrow> 0 \<notin> set ds \<Longrightarrow> sharded_new \<lparr>heap = Map.empty, freed = []\<rparr> ds junk capacity = Some (w, s) \<Longrightarrow>
    cm_reachable w s Map.empty"
| cm_populate_step: "cm_reachable w s m \<Longrightarrow> cm_fresh w s a key \<Longrightarrow> cm_populate w s a junk key v = Some (r, w', s') \<Longrightarrow>
    cm_reachable w' s' (m(key \<mapsto> v))"
| cm_probe_step: "cm_reachable w s m \<Longrightarrow> length key < 2 ^ 64 \<Longrightarrow> cm_probe w s key = Some (r, w', s') \<Longrightarrow>
    cm_reachable w' s' m"

section \<open>The manager is a client of the sharded cache\<close>

abbreviation idle :: "CacheValue world \<Rightarrow> sharded_cache \<Rightarrow> CacheValue client" where
  "idle w s \<equiv> \<lparr>cl_world = w, cl_cache = s, cl_refs = []\<rparr>"

lemma ck_of_string_ok: "length key < 2 ^ 64 \<Longrightarrow> ck_valid (ck_of_string key)" "length key < 2 ^ 64 \<Longrightarrow> ck_bytes (ck_of_string key) = key"
  by (simp_all add: ck_valid_def ck_bytes_def ck_of_string_def unat_of_nat)

lemma cm_populate_run:
  assumes r: "reachable (idle w s) m" and fresh: "cm_fresh w s a key"
  obtains w' s' where "cm_populate w s a junk key v = Some (Ok, w', s')" "reachable (idle w' s') (m(key \<mapsto> v))"
proof -
  let ?x = "Insert a junk (ck_of_string key) v (cache_value_size v) delete_cache_entry NORMAL"
  have f: "a \<noteq> 0" "length key < 2 ^ 64" using fresh by (simp_all add: cm_fresh_def)
  note k = ck_of_string_ok [OF f(2)]
  have l1: "client_legal ?x (idle w s)" using fresh k by (simp add: cm_fresh_def)
  obtain gs where g: "client_ghost (idle w s) m gs" by (rule reachable_ghost [OF r])
  obtain hash where h: "hash_slice (ck_of_string key) = Some hash" using hash_slice_some [OF k(1)] by blast
  obtain w1 s1 where r1: "sharded_insert w s a junk (ck_of_string key) v (cache_value_size v) delete_cache_entry NORMAL = Some (a, w1, s1)"
    by (rule client_insert [OF g l1 h, unfolded client.simps])
  have q1: "reachable \<lparr>cl_world = w1, cl_cache = s1, cl_refs = [a]\<rparr> (m(key \<mapsto> v))"
    using step [OF r l1] r1 k by simp
  obtain w2 s2 where r2: "(if sharded_memory_usage s1 > sc_capacity s1 then sharded_prune w1 s1 else Some (w1, s1)) = Some (w2, s2)"
    "reachable \<lparr>cl_world = w2, cl_cache = s2, cl_refs = [a]\<rparr> (m(key \<mapsto> v))"
  proof (cases "sharded_memory_usage s1 > sc_capacity s1")
    case True
    obtain st where "client_run Prune \<lparr>cl_world = w1, cl_cache = s1, cl_refs = [a]\<rparr> = Some st"
      using client_step [OF reachable_inv [OF q1], of Prune] by auto
    then show ?thesis using that step [OF q1, of Prune] True by (auto simp: bind_eq_Some_conv)
  next
    case False
    then show ?thesis using that q1 by simp
  qed
  have l3: "client_legal (Release a) \<lparr>cl_world = w2, cl_cache = s2, cl_refs = [a]\<rparr>" by simp
  obtain st where "client_run (Release a) \<lparr>cl_world = w2, cl_cache = s2, cl_refs = [a]\<rparr> = Some st"
    using client_step [OF reachable_inv [OF r2(2)] l3] by auto
  then obtain w3 s3 where r3: "sharded_release w2 s2 a = Some (w3, s3)" "reachable (idle w3 s3) (m(key \<mapsto> v))"
    using step [OF r2(2) l3] by (auto simp: bind_eq_Some_conv)
  show ?thesis using that r1 r2(1) r3 f(1) by (simp add: cm_populate_def)
qed

lemma cm_probe_run:
  assumes r: "reachable (idle w s) m" and len: "length key < 2 ^ 64"
  obtains res w' s' where "cm_probe w s key = Some (res, w', s')" "reachable (idle w' s') m"
    "case res of Inl e \<Rightarrow> e = NotFound | Inr v \<Rightarrow> m key = Some v"
proof -
  note k = ck_of_string_ok [OF len]
  have l: "client_legal (Lookup (ck_of_string key)) (idle w s)" using k by simp
  obtain gs where g: "client_ghost (idle w s) m gs" by (rule reachable_ghost [OF r])
  obtain hash where h: "hash_slice (ck_of_string key) = Some hash" using hash_slice_some [OF k(1)] by blast
  obtain a w1 s1 gs1 where q: "sharded_lookup w s (ck_of_string key) = Some (a, w1, s1)"
    "is_entry (heap w) (g_entries (gs ! shard_index hash)) (hash, key) a" "keeps UNIV (heap w) (heap w1)"
    "client_ghost \<lparr>cl_world = w1, cl_cache = s1, cl_refs = (if a = 0 then [] else [a])\<rparr> m gs1"
    by (rule client_lookup [OF g l h, unfolded client.simps k])
  show ?thesis
  proof (cases "a = 0")
    case True
    then show ?thesis using that [of "Inl NotFound" w1 s1] q(1) step [OF r l] by (simp add: cm_probe_def)
  next
    case False
    have q1: "reachable \<lparr>cl_world = w1, cl_cache = s1, cl_refs = [a]\<rparr> m" using step [OF r l] q(1) False by simp
    have l3: "client_legal (Release a) \<lparr>cl_world = w1, cl_cache = s1, cl_refs = [a]\<rparr>" by simp
    obtain st where "client_run (Release a) \<lparr>cl_world = w1, cl_cache = s1, cl_refs = [a]\<rparr> = Some st"
      using client_step [OF reachable_inv [OF q1] l3] by auto
    then obtain w2 s2 where r2: "sharded_release w1 s1 a = Some (w2, s2)" "reachable (idle w2 s2) m"
      using step [OF q1 l3] by (auto simp: bind_eq_Some_conv)
    have a: "a \<in> entries_of gs" "ck_bytes (ky (heap w) a) = key"
      using q(2) False shard_index_less by (auto simp: is_entry_def entries_of_def kv_def)
    have d: "a \<in> dom (heap w1)" using refs_dom [OF q(4), of a] False by simp
    then have "sharded_value w1 a = Some (vl (heap w1) a)" by (auto simp: sharded_value_def vl_def)
    moreover have "m key = Some (vl (heap w1) a)"
      using keeps_views(3) [OF q(3) d] client_ghostD(5) [OF g, unfolded client.simps] a by (auto simp: coherent_def)
    ultimately show ?thesis using that [of "Inr (vl (heap w1) a)" w2 s2] q(1) False r2 by (simp add: cm_probe_def)
  qed
qed

lemma cm_reachable_client: "cm_reachable w s m \<Longrightarrow> reachable (idle w s) m"
proof (induction rule: cm_reachable.induct)
  case (cm_start ds junk capacity w s)
  then have "client_new ds junk capacity = Some (idle w s)" by (simp add: client_new_def)
  then show ?case by (rule start [OF cm_start(1,2)])
next
  case (cm_populate_step w s m a key junk v r w' s')
  obtain w1 s1 where "cm_populate w s a junk key v = Some (Ok, w1, s1)" "reachable (idle w1 s1) (m(key \<mapsto> v))"
    by (rule cm_populate_run [OF cm_populate_step.IH cm_populate_step.hyps(2)])
  then show ?case using cm_populate_step.hyps(3) by (simp add: fun_upd_def)
next
  case (cm_probe_step w s m key r w' s')
  obtain res w1 s1 where "cm_probe w s key = Some (res, w1, s1)" "reachable (idle w1 s1) m"
    by (rule cm_probe_run [OF cm_probe_step.IH cm_probe_step.hyps(2)])
  then show ?case using cm_probe_step.hyps(3) by simp
qed

section \<open>Properties\<close>

text \<open>
  C10. The query cache answers every call: populate returns OkStatus, probe returns either
  NotFound or the value that the last populate of that key stored, and neither call leaks a
  reference to a handle.
\<close>

theorem query_cache_correct:
  assumes "cm_reachable w s m" "cm_fresh w s a key"
  shows "(\<exists>w' s'. cm_populate w s a junk key v = Some (Ok, w', s') \<and> reachable (idle w' s') (m(key \<mapsto> v))) \<and>
    (\<exists>r w' s'. cm_probe w s key = Some (r, w', s') \<and> (r = Inl NotFound \<or> (\<exists>v. r = Inr v \<and> m key = Some v)) \<and>
       reachable (idle w' s') m)"
proof -
  note r = cm_reachable_client [OF assms(1)]
  have len: "length key < 2 ^ 64" using assms(2) by (simp add: cm_fresh_def)
  obtain w1 s1 where 1: "cm_populate w s a junk key v = Some (Ok, w1, s1)" "reachable (idle w1 s1) (m(key \<mapsto> v))"
    by (rule cm_populate_run [OF r assms(2)])
  obtain res w2 s2 where 2: "cm_probe w s key = Some (res, w2, s2)" "reachable (idle w2 s2) m"
    "case res of Inl e \<Rightarrow> e = NotFound | Inr v \<Rightarrow> m key = Some v"
    by (rule cm_probe_run [OF r len])
  then have "res = Inl NotFound \<or> (\<exists>v. res = Inr v \<and> m key = Some v)" by (cases res) auto
  with 1 2(1,2) show ?thesis by blast
qed

lemma cm_demo:
  obtains w s where "cm_reachable w s Map.empty" "cm_fresh w s 100 [107]"
proof -
  let ?ds = "[1..<33] :: addr list"
  have ds: "length ?ds = kNumShards" "distinct ?ds" "0 \<notin> set ?ds"
    by (simp_all add: kNumShards_def kNumShardBits_def)
  obtain w s gs where r: "sharded_new \<lparr>heap = Map.empty, freed = []\<rparr> ?ds
      (new_handle 0 (ck_of_string []) 0 \<lparr>cv_latest_hit_time = 0, cv_hit_count = 0, cv_populate_time = 0, cv_version = 0, cv_result = []\<rparr>
         0 0 NORMAL) 1000 = Some (w, s)" "sharded_inv (heap w) s gs"
    "\<forall>i < kNumShards. g_entries (gs ! i) = {} \<and> lc_capacity (sc_shards s ! i) = per_shard_of 1000"
    "dom (heap w) \<subseteq> set ?ds"
    by (rule sharded_new_spec [OF ds, of "\<lparr>heap = Map.empty, freed = []\<rparr>"]) simp
  have "unat (t_elems (lc_table (sc_shards s ! i))) = 0" if "i < kNumShards" for i
    using table_rep_elems [OF cache_invD(3) [OF shard_at_inv(2) [OF r(2) that]]] r(3) that by simp
  moreover have "length (sc_shards s) = kNumShards" using r(2) by (simp add: sharded_inv_def)
  moreover have "100 \<notin> dom (heap w)" using r(4) by auto
  ultimately have "cm_fresh w s 100 [107]" by (simp add: cm_fresh_def list_all_length domIff)
  then show ?thesis using that cm_start [OF ds(2,3) r(1)] by blast
qed

theorem query_cache_correct_witness:
  "\<exists>w s w' s'. cm_reachable w s Map.empty \<and> cm_populate w s 100 0 [107]
     \<lparr>cv_latest_hit_time = 1, cv_hit_count = 2, cv_populate_time = 3, cv_version = 4, cv_result = []\<rparr> = Some (Ok, w', s')"
proof -
  obtain w s where r: "cm_reachable w s Map.empty" "cm_fresh w s 100 [107]" by (rule cm_demo)
  then show ?thesis using query_cache_correct [OF r] by blast
qed

end
