(* ===== verification/RawMemory.thy ===== *)
theory RawMemory
  imports Prelude
begin

text \<open>
  A byte-addressed memory for the code that copies with unaligned and vector instructions:
  addresses are naturals, an access to an address that is not mapped is a fault, and so is
  a misaligned access of an instruction that demands alignment.
\<close>

type_synonym mem = "nat \<rightharpoonup> 8 word"

definition load :: "nat \<Rightarrow> mem \<Rightarrow> nat \<Rightarrow> bytes option" where
  "load n m a = those (map m [a..<a + n])"

definition put_bytes :: "mem \<Rightarrow> nat \<Rightarrow> bytes \<Rightarrow> mem" where
  "put_bytes m a bs = (\<lambda>x. if a \<le> x \<and> x < a + length bs then Some (bs ! (x - a)) else m x)"

definition store :: "mem \<Rightarrow> nat \<Rightarrow> bytes \<Rightarrow> mem option" where
  "store m a bs = do { _ \<leftarrow> load (length bs) m a; Some (put_bytes m a bs) }"

text \<open>Instructions that need an address that is a multiple of the width.\<close>

definition load_aligned :: "nat \<Rightarrow> mem \<Rightarrow> nat \<Rightarrow> bytes option" where
  "load_aligned n m a = do { guard (a mod n = 0); load n m a }"

definition store_aligned :: "nat \<Rightarrow> mem \<Rightarrow> nat \<Rightarrow> bytes \<Rightarrow> mem option" where
  "store_aligned n m a bs = do { guard (a mod n = 0); store m a bs }"

text \<open>
  The loop \<^verbatim>\<open>for (; size >= B; size -= B) { blk; src += B; dst += B; }\<close>; it yields the memory
  and the final dst, src and size.
\<close>

function chunk_loop ::
  "(mem \<Rightarrow> nat \<Rightarrow> nat \<Rightarrow> mem option) \<Rightarrow> nat \<Rightarrow> mem \<Rightarrow> nat \<Rightarrow> nat \<Rightarrow> nat \<Rightarrow> (mem \<times> nat \<times> nat \<times> nat) option" where
  "chunk_loop blk B m dst src n =
     (if 0 < B \<and> B \<le> n
      then do { m \<leftarrow> blk m dst src; chunk_loop blk B m (dst + B) (src + B) (n - B) }
      else Some (m, dst, src, n))"
  by pat_completeness auto
termination by (relation "measure (\<lambda>(blk, B, m, dst, src, n). n)") auto

declare chunk_loop.simps [simp del]

text \<open>
  The statements of a jump table that copies a few bytes: each copies one scalar or vector
  that starts the given number of bytes before the ends of the two regions.
\<close>

datatype move =
    Copy8 nat | Copy16 nat | Copy32 nat | Copy64 nat
  | Vec16 nat | Vec32 nat | Vec64 nat | Vec128 nat | Vec256 nat

fun move_off :: "move \<Rightarrow> nat" where
  "move_off (Copy8 k) = k" | "move_off (Copy16 k) = k" | "move_off (Copy32 k) = k" | "move_off (Copy64 k) = k"
| "move_off (Vec16 k) = k" | "move_off (Vec32 k) = k" | "move_off (Vec64 k) = k" | "move_off (Vec128 k) = k"
| "move_off (Vec256 k) = k"

fun move_width :: "move \<Rightarrow> nat" where
  "move_width (Copy8 k) = 1" | "move_width (Copy16 k) = 2" | "move_width (Copy32 k) = 4" | "move_width (Copy64 k) = 8"
| "move_width (Vec16 k) = 16" | "move_width (Vec32 k) = 32" | "move_width (Vec64 k) = 64" | "move_width (Vec128 k) = 128"
| "move_width (Vec256 k) = 256"

text \<open>
  A switch: groups of labelled statements, each ended by a break.  Control falls through
  from a label to the labels behind it in the group.
\<close>

type_synonym switch_cases = "(nat \<times> move list) list list"

fun group_stmts :: "(nat \<times> move list) list \<Rightarrow> nat \<Rightarrow> move list option" where
  "group_stmts [] n = None"
| "group_stmts ((l, ss) # g) n = (if n = l then Some (ss @ concat (map snd g)) else group_stmts g n)"

fun switch_stmts :: "switch_cases \<Rightarrow> nat \<Rightarrow> move list" where
  "switch_stmts [] n = []"
| "switch_stmts (g # gs) n = (case group_stmts g n of Some ss \<Rightarrow> ss | None \<Rightarrow> switch_stmts gs n)"

fun run_moves :: "(move \<Rightarrow> mem \<Rightarrow> nat \<Rightarrow> nat \<Rightarrow> mem option) \<Rightarrow> move list \<Rightarrow> mem \<Rightarrow> nat \<Rightarrow> nat \<Rightarrow> mem option" where
  "run_moves exec [] m dd ss = Some m"
| "run_moves exec (mv # mvs) m dd ss = do { m \<leftarrow> exec mv m dd ss; run_moves exec mvs m dd ss }"

text \<open>
  The moves copy n bytes when r of them are left: each starts within what is copied and
  reaches at least as far, and the last one reaches the end.
\<close>

fun covers :: "nat \<Rightarrow> nat \<Rightarrow> nat \<Rightarrow> move list \<Rightarrow> bool" where
  "covers lim n r [] \<longleftrightarrow> r = 0"
| "covers lim n r (mv # mvs) \<longleftrightarrow>
     move_width mv \<le> lim \<and> r \<le> move_off mv \<and> move_off mv \<le> n \<and> move_width mv \<le> move_off mv \<and>
     move_off mv - move_width mv \<le> r \<and> covers lim n (move_off mv - move_width mv) mvs"

definition mapped :: "mem \<Rightarrow> nat \<Rightarrow> nat \<Rightarrow> bool" where
  "mapped m a n \<longleftrightarrow> (\<forall>x. a \<le> x \<and> x < a + n \<longrightarrow> m x \<noteq> None)"

definition bytes_at :: "mem \<Rightarrow> nat \<Rightarrow> nat \<Rightarrow> bytes" where
  "bytes_at m a n = map (\<lambda>x. the (m x)) [a..<a + n]"

definition apart :: "nat \<Rightarrow> nat \<Rightarrow> nat \<Rightarrow> bool" where
  "apart d s n \<longleftrightarrow> d + n \<le> s \<or> s + n \<le> d"

definition copied :: "mem \<Rightarrow> nat \<Rightarrow> nat \<Rightarrow> nat \<Rightarrow> mem" where
  "copied m d s n = put_bytes m d (bytes_at m s n)"

fun group_covers :: "nat \<Rightarrow> (nat \<times> move list) list \<Rightarrow> bool" where
  "group_covers lim [] \<longleftrightarrow> True"
| "group_covers lim ((l, ss) # g) \<longleftrightarrow> covers lim l l (ss @ concat (map snd g)) \<and> group_covers lim g"

section \<open>Loads and stores\<close>

lemma length_bytes_at [simp]: "length (bytes_at m a n) = n"
  by (simp add: bytes_at_def)

lemma those_some: "list_all (\<lambda>x. x \<noteq> None) xs \<Longrightarrow> those xs = Some (map the xs)"
  by (induction xs) auto

lemma load_some: "mapped m a n \<Longrightarrow> load n m a = Some (bytes_at m a n)"
  using those_some [of "map m [a..<a + n]"] by (auto simp: load_def mapped_def bytes_at_def list_all_iff)

lemma store_some: "mapped m a (length bs) \<Longrightarrow> store m a bs = Some (put_bytes m a bs)"
  by (simp add: store_def load_some)

lemma mapped_put [simp]: "mapped m a n \<Longrightarrow> mapped (put_bytes m b bs) a n"
  by (simp add: mapped_def put_bytes_def)

lemma mapped_part: "mapped m a n \<Longrightarrow> a \<le> b \<Longrightarrow> b + k \<le> a + n \<Longrightarrow> mapped m b k"
  by (simp add: mapped_def)

lemma put_append:
  "b = a + length xs \<Longrightarrow> put_bytes (put_bytes m a xs) b ys = put_bytes m a (xs @ ys)"
  by (rule ext) (auto simp: put_bytes_def nth_append)

lemma bytes_at_append: "b = a + n \<Longrightarrow> bytes_at m a n @ bytes_at m b k = bytes_at m a (n + k)"
  using upt_add_eq_append [of a "a + n" k] by (simp add: bytes_at_def add.assoc)

lemma bytes_at_cong: "(\<And>x. a \<le> x \<Longrightarrow> x < a + n \<Longrightarrow> m' x = m x) \<Longrightarrow> bytes_at m' a n = bytes_at m a n"
  by (simp add: bytes_at_def)

lemma copied_at:
  "copied m d s n x = (if d \<le> x \<and> x < d + n then Some (the (m (s + (x - d)))) else m x)"
  by (auto simp: copied_def put_bytes_def bytes_at_def)

lemma copied_eq:
  assumes "mapped m s n"
  shows "copied m d s n = (\<lambda>x. if d \<le> x \<and> x < d + n then m (s + (x - d)) else m x)"
proof (rule ext)
  fix x
  have "\<exists>y. m (s + (x - d)) = Some y" if "d \<le> x" "x < d + n"
    using assms that unfolding mapped_def by (metis le_add1 less_diff_conv2 nat_add_left_cancel_less add.commute not_None_eq)
  then show "copied m d s n x = (if d \<le> x \<and> x < d + n then m (s + (x - d)) else m x)"
    by (auto simp: copied_at)
qed

lemma copied_mapped [simp]: "mapped m a k \<Longrightarrow> mapped (copied m d s n) a k"
  by (simp add: copied_def)

lemma copied_0 [simp]: "copied m d s 0 = m"
  by (rule ext) (auto simp: copied_at)

text \<open>A part that starts in what has been copied already extends it.\<close>

lemma copied_extend:
  assumes "apart d s n" "p \<le> k" "k \<le> n" "k \<le> p + w" "p + w \<le> n"
  shows "copied (copied m d s k) (d + p) (s + p) w = copied m d s (p + w)"
proof (rule ext)
  fix x
  have src: "copied m d s k y = m y" if "s \<le> y" "y < s + n" for y
    using that assms by (auto simp: copied_at apart_def)
  show "copied (copied m d s k) (d + p) (s + p) w x = copied m d s (p + w) x"
  proof (cases "d + p \<le> x \<and> x < d + p + w")
    case True
    then have "copied m d s k (s + p + (x - (d + p))) = m (s + (x - d))"
      using src [of "s + p + (x - (d + p))"] assms by auto
    then show ?thesis using True by (simp add: copied_at [of "copied m d s k"] copied_at [of m d s "p + w"])
  next
    case False
    then show ?thesis using assms by (auto simp: copied_at)
  qed
qed

lemma group_covers_stmts:
  "group_covers lim g \<Longrightarrow> group_stmts g n = (if n \<in> set (map fst g) then Some ss else None) \<Longrightarrow>
     n \<in> set (map fst g) \<Longrightarrow> covers lim n n ss"
  by (induction g n rule: group_stmts.induct) (auto split: if_splits simp del: list.set_map)

lemma group_stmts_some: "n \<in> set (map fst g) \<Longrightarrow> \<exists>ss. group_stmts g n = Some ss"
  by (induction g n rule: group_stmts.induct) auto

lemma group_stmts_none: "n \<notin> set (map fst g) \<Longrightarrow> group_stmts g n = None"
  by (induction g n rule: group_stmts.induct) auto

lemma switch_covers:
  "list_all (group_covers lim) cs \<Longrightarrow> n \<in> set (concat (map (map fst) cs)) \<Longrightarrow> covers lim n n (switch_stmts cs n)"
proof (induction cs)
  case (Cons g cs)
  show ?case
  proof (cases "n \<in> set (map fst g)")
    case True
    then obtain ss where "group_stmts g n = Some ss" using group_stmts_some by blast
    then show ?thesis using group_covers_stmts [of lim g n ss] True Cons.prems by simp
  next
    case False
    then show ?thesis using group_stmts_none [OF False] Cons by simp
  qed
qed simp

section \<open>Alignment\<close>

lemma aligned_add: "a mod w = 0 \<Longrightarrow> i mod w = 0 \<Longrightarrow> (a + i) mod w = 0" for a i w :: nat
  by (simp add: mod_add_eq [symmetric])

lemma padding_aligns:
  fixes d w :: nat
  assumes "0 < w"
  shows "(w - d mod w) mod w < w" "(d + (w - d mod w) mod w) mod w = 0"
proof -
  show "(w - d mod w) mod w < w" using assms by simp
  show "(d + (w - d mod w) mod w) mod w = 0"
  proof (cases "d mod w = 0")
    case False
    have r: "d mod w < w" using assms by simp
    then have "(w - d mod w) mod w = w - d mod w" using False by simp
    moreover have "d + (w - d mod w) = w * (d div w) + w" using r mult_div_mod_eq [of w d] by linarith
    ultimately show ?thesis by simp
  qed simp
qed

section \<open>Blocks\<close>

text \<open>
  A block of B bytes that is copied as a whole, at addresses that meet the demands of its
  instructions.  The loop over such blocks copies all of them and leaves the remainder.
\<close>

locale block_copy =
  fixes blk :: "mem \<Rightarrow> nat \<Rightarrow> nat \<Rightarrow> mem option" and B :: nat and fit :: "nat \<Rightarrow> nat \<Rightarrow> bool"
  assumes pos: "0 < B"
    and blk_copies: "mapped m s B \<Longrightarrow> mapped m d B \<Longrightarrow> fit d s \<Longrightarrow> blk m d s = Some (copied m d s B)"
    and fit_next: "fit d s \<Longrightarrow> fit (d + B) (s + B)"
begin

lemma loop_copies:
  assumes "mapped m src n" "mapped m dst n" "apart dst src n" "fit dst src"
  shows "chunk_loop blk B m dst src n =
    Some (copied m dst src (n - n mod B), dst + (n - n mod B), src + (n - n mod B), n mod B)"
  using assms
proof (induction n arbitrary: m dst src rule: less_induct)
  case (less n)
  show ?case
  proof (cases "B \<le> n")
    case False
    then show ?thesis by (subst chunk_loop.simps) simp
  next
    case True
    let ?m = "copied m dst src B"
    have r: "(n - B) mod B = n mod B" using True by (simp add: le_mod_geq)
    then have le: "n mod B \<le> n - B" by (metis mod_less_eq_dividend)
    have q: "n - B - (n - B) mod B + B = n - n mod B" "(n - B) mod B = n mod B"
      using True le r by simp_all
    have mp: "mapped m (src + B) (n - B)" "mapped m (dst + B) (n - B)" "mapped m src B" "mapped m dst B"
      using True by (auto intro: mapped_part [OF less.prems(1)] mapped_part [OF less.prems(2)])
    have IH: "chunk_loop blk B ?m (dst + B) (src + B) (n - B) =
        Some (copied ?m (dst + B) (src + B) (n - B - (n - B) mod B), dst + B + (n - B - (n - B) mod B),
          src + B + (n - B - (n - B) mod B), (n - B) mod B)"
      by (rule less.IH) (use less.prems(3,4) mp(1,2) True pos fit_next in \<open>auto simp: apart_def\<close>)
    have "n - n mod B \<le> n" "B \<le> n - n mod B"
      using True le by simp_all
    then have "copied ?m (dst + B) (src + B) (n - B - (n - B) mod B) = copied m dst src (n - n mod B)"
      using copied_extend [OF less.prems(3), of B B "n - B - (n - B) mod B" m] True q by (simp add: add.commute)
    moreover have "blk m dst src = Some ?m"
      using blk_copies [OF mp(3,4)] less.prems(4) by simp
    ultimately show ?thesis
      using True pos IH q by (subst chunk_loop.simps) (simp add: add.assoc add.commute [of B])
  qed
qed

end

text \<open>
  The jump table: when every move copies its bytes, a list of moves that covers the region
  copies the region.
\<close>

locale mover =
  fixes exec :: "move \<Rightarrow> mem \<Rightarrow> nat \<Rightarrow> nat \<Rightarrow> mem option" and lim :: nat
  assumes move_copies: "move_width mv \<le> lim \<Longrightarrow> move_width mv \<le> move_off mv \<Longrightarrow>
    mapped m (ss - move_off mv) (move_width mv) \<Longrightarrow> mapped m (dd - move_off mv) (move_width mv) \<Longrightarrow>
    exec mv m dd ss = Some (copied m (dd - move_off mv) (ss - move_off mv) (move_width mv))"
begin

lemma moves_copy:
  assumes "covers lim n r mvs" "mapped m src n" "mapped m dst n" "apart dst src n" "r \<le> n"
  shows "run_moves exec mvs (copied m dst src (n - r)) (dst + n) (src + n) = Some (copied m dst src n)"
  using assms
proof (induction mvs arbitrary: r)
  case Nil
  then show ?case by simp
next
  case (Cons mv mvs)
  let ?k = "move_off mv" and ?w = "move_width mv"
  have c: "?w \<le> lim" "r \<le> ?k" "?k \<le> n" "?w \<le> ?k" "?k - ?w \<le> r" "covers lim n (?k - ?w) mvs" using Cons.prems by simp_all
  have a: "src + n - ?k = src + (n - ?k)" "dst + n - ?k = dst + (n - ?k)" "n - ?k + ?w = n - (?k - ?w)" using c by simp_all
  have mp: "mapped m (src + n - ?k) ?w" "mapped m (dst + n - ?k) ?w"
    using c by (auto intro: mapped_part [OF Cons.prems(2)]) (auto intro: mapped_part [OF Cons.prems(3)])
  have "exec mv (copied m dst src (n - r)) (dst + n) (src + n) =
      Some (copied (copied m dst src (n - r)) (dst + (n - ?k)) (src + (n - ?k)) ?w)"
    unfolding a(1,2) [symmetric]
    by (rule move_copies [OF c(1,4) copied_mapped [OF mp(1)] copied_mapped [OF mp(2)]])
  also have "copied (copied m dst src (n - r)) (dst + (n - ?k)) (src + (n - ?k)) ?w = copied m dst src (n - (?k - ?w))"
    using copied_extend [OF Cons.prems(4), of "n - ?k" "n - r" ?w m] c a(3) Cons.prems(5) by simp
  finally show ?case using Cons.IH [OF c(6) Cons.prems(2-4)] c(3) by simp
qed

lemma moves_copy_all:
  assumes "covers lim n n mvs" "mapped m src n" "mapped m dst n" "apart dst src n"
  shows "run_moves exec mvs m (dst + n) (src + n) = Some (copied m dst src n)"
  using moves_copy [OF assms] by simp

end

end
