(* ===== verification/FastMemcpy.thy ===== *)
theory FastMemcpy
  imports RawMemory
begin

text \<open>
  The SSE2 memory copy of include/clickhouse/FastMemcpy.h: a jump table of 129 cases for
  small sizes (memcpy\_tiny), and a main routine (memcpy\_fast) that aligns the destination,
  copies blocks of 128 bytes with aligned or streaming stores, and leaves the rest to the
  table.  Prefetches and fences do not change the memory and are left out.
\<close>

section \<open>Vector copies\<close>

definition memcpy_sse2_16 :: "mem \<Rightarrow> nat \<Rightarrow> nat \<Rightarrow> mem option" where
  "memcpy_sse2_16 m dst src =
     do { c0 \<leftarrow> load 16 m (src + 0);
          store m (dst + 0) c0 }"

definition memcpy_sse2_32 :: "mem \<Rightarrow> nat \<Rightarrow> nat \<Rightarrow> mem option" where
  "memcpy_sse2_32 m dst src =
     do { c0 \<leftarrow> load 16 m (src + 0);
          c1 \<leftarrow> load 16 m (src + 16);
          m \<leftarrow> store m (dst + 0) c0;
          store m (dst + 16) c1 }"

definition memcpy_sse2_64 :: "mem \<Rightarrow> nat \<Rightarrow> nat \<Rightarrow> mem option" where
  "memcpy_sse2_64 m dst src =
     do { c0 \<leftarrow> load 16 m (src + 0);
          c1 \<leftarrow> load 16 m (src + 16);
          c2 \<leftarrow> load 16 m (src + 32);
          c3 \<leftarrow> load 16 m (src + 48);
          m \<leftarrow> store m (dst + 0) c0;
          m \<leftarrow> store m (dst + 16) c1;
          m \<leftarrow> store m (dst + 32) c2;
          store m (dst + 48) c3 }"

definition memcpy_sse2_128 :: "mem \<Rightarrow> nat \<Rightarrow> nat \<Rightarrow> mem option" where
  "memcpy_sse2_128 m dst src =
     do { c0 \<leftarrow> load 16 m (src + 0);
          c1 \<leftarrow> load 16 m (src + 16);
          c2 \<leftarrow> load 16 m (src + 32);
          c3 \<leftarrow> load 16 m (src + 48);
          c4 \<leftarrow> load 16 m (src + 64);
          c5 \<leftarrow> load 16 m (src + 80);
          c6 \<leftarrow> load 16 m (src + 96);
          c7 \<leftarrow> load 16 m (src + 112);
          m \<leftarrow> store m (dst + 0) c0;
          m \<leftarrow> store m (dst + 16) c1;
          m \<leftarrow> store m (dst + 32) c2;
          m \<leftarrow> store m (dst + 48) c3;
          m \<leftarrow> store m (dst + 64) c4;
          m \<leftarrow> store m (dst + 80) c5;
          m \<leftarrow> store m (dst + 96) c6;
          store m (dst + 112) c7 }"

section \<open>The jump table\<close>

definition sse2_cases_0_15 :: "switch_cases" where
  "sse2_cases_0_15 =
    [[(64, [Vec64 64]), (0, [])],
     [(65, [Vec64 65]), (1, [Copy8 1])],
     [(66, [Vec64 66]), (2, [Copy16 2])],
     [(67, [Vec64 67]), (3, [Copy16 3, Copy8 1])],
     [(68, [Vec64 68]), (4, [Copy32 4])],
     [(69, [Vec64 69]), (5, [Copy32 5, Copy8 1])],
     [(70, [Vec64 70]), (6, [Copy32 6, Copy16 2])],
     [(71, [Vec64 71]), (7, [Copy32 7, Copy32 4])],
     [(72, [Vec64 72]), (8, [Copy64 8])],
     [(73, [Vec64 73]), (9, [Copy64 9, Copy8 1])],
     [(74, [Vec64 74]), (10, [Copy64 10, Copy16 2])],
     [(75, [Vec64 75]), (11, [Copy64 11, Copy32 4])],
     [(76, [Vec64 76]), (12, [Copy64 12, Copy32 4])],
     [(77, [Vec64 77]), (13, [Copy64 13, Copy32 5, Copy8 1])],
     [(78, [Vec64 78]), (14, [Copy64 14, Copy64 8])],
     [(79, [Vec64 79]), (15, [Copy64 15, Copy64 8])]]"

definition sse2_cases_16_31 :: "switch_cases" where
  "sse2_cases_16_31 =
    [[(80, [Vec64 80]), (16, [Vec16 16])],
     [(81, [Vec64 81]), (17, [Vec16 17, Copy8 1])],
     [(82, [Vec64 82]), (18, [Vec16 18, Copy16 2])],
     [(83, [Vec64 83]), (19, [Vec16 19, Copy16 3, Copy8 1])],
     [(84, [Vec64 84]), (20, [Vec16 20, Copy32 4])],
     [(85, [Vec64 85]), (21, [Vec16 21, Copy32 5, Copy8 1])],
     [(86, [Vec64 86]), (22, [Vec16 22, Copy32 6, Copy16 2])],
     [(87, [Vec64 87]), (23, [Vec16 23, Copy32 7, Copy32 4])],
     [(88, [Vec64 88]), (24, [Vec16 24, Vec16 16])],
     [(89, [Vec64 89]), (25, [Vec16 25, Vec16 16])],
     [(90, [Vec64 90]), (26, [Vec16 26, Vec16 16])],
     [(91, [Vec64 91]), (27, [Vec16 27, Vec16 16])],
     [(92, [Vec64 92]), (28, [Vec16 28, Vec16 16])],
     [(93, [Vec64 93]), (29, [Vec16 29, Vec16 16])],
     [(94, [Vec64 94]), (30, [Vec16 30, Vec16 16])],
     [(95, [Vec64 95]), (31, [Vec16 31, Vec16 16])]]"

definition sse2_cases_32_47 :: "switch_cases" where
  "sse2_cases_32_47 =
    [[(96, [Vec64 96]), (32, [Vec32 32])],
     [(97, [Vec64 97]), (33, [Vec32 33, Copy8 1])],
     [(98, [Vec64 98]), (34, [Vec32 34, Copy16 2])],
     [(99, [Vec64 99]), (35, [Vec32 35, Copy16 3, Copy8 1])],
     [(100, [Vec64 100]), (36, [Vec32 36, Copy32 4])],
     [(101, [Vec64 101]), (37, [Vec32 37, Copy32 5, Copy8 1])],
     [(102, [Vec64 102]), (38, [Vec32 38, Copy32 6, Copy16 2])],
     [(103, [Vec64 103]), (39, [Vec32 39, Copy32 7, Copy32 4])],
     [(104, [Vec64 104]), (40, [Vec32 40, Copy64 8])],
     [(105, [Vec64 105]), (41, [Vec32 41, Copy64 9, Copy8 1])],
     [(106, [Vec64 106]), (42, [Vec32 42, Copy64 10, Copy16 2])],
     [(107, [Vec64 107]), (43, [Vec32 43, Copy64 11, Copy32 4])],
     [(108, [Vec64 108]), (44, [Vec32 44, Copy64 12, Copy32 4])],
     [(109, [Vec64 109]), (45, [Vec32 45, Copy64 13, Copy32 5, Copy8 1])],
     [(110, [Vec64 110]), (46, [Vec32 46, Copy64 14, Copy64 8])],
     [(111, [Vec64 111]), (47, [Vec32 47, Copy64 15, Copy64 8])]]"

definition sse2_cases_48_63 :: "switch_cases" where
  "sse2_cases_48_63 =
    [[(112, [Vec64 112]), (48, [Vec32 48, Vec16 16])],
     [(113, [Vec64 113]), (49, [Vec32 49, Vec16 17, Copy8 1])],
     [(114, [Vec64 114]), (50, [Vec32 50, Vec16 18, Copy16 2])],
     [(115, [Vec64 115]), (51, [Vec32 51, Vec16 19, Copy16 3, Copy8 1])],
     [(116, [Vec64 116]), (52, [Vec32 52, Vec16 20, Copy32 4])],
     [(117, [Vec64 117]), (53, [Vec32 53, Vec16 21, Copy32 5, Copy8 1])],
     [(118, [Vec64 118]), (54, [Vec32 54, Vec16 22, Copy32 6, Copy16 2])],
     [(119, [Vec64 119]), (55, [Vec32 55, Vec16 23, Copy32 7, Copy32 4])],
     [(120, [Vec64 120]), (56, [Vec32 56, Vec16 24, Vec16 16])],
     [(121, [Vec64 121]), (57, [Vec32 57, Vec16 25, Vec16 16])],
     [(122, [Vec64 122]), (58, [Vec32 58, Vec16 26, Vec16 16])],
     [(123, [Vec64 123]), (59, [Vec32 59, Vec16 27, Vec16 16])],
     [(124, [Vec64 124]), (60, [Vec32 60, Vec16 28, Vec16 16])],
     [(125, [Vec64 125]), (61, [Vec32 61, Vec16 29, Vec16 16])],
     [(126, [Vec64 126]), (62, [Vec32 62, Vec16 30, Vec16 16])],
     [(127, [Vec64 127]), (63, [Vec32 63, Vec16 31, Vec16 16])]]"

definition sse2_cases :: switch_cases where
  "sse2_cases = sse2_cases_0_15 @ sse2_cases_16_31 @ sse2_cases_32_47 @ sse2_cases_48_63 @ [[(128, [Vec128 128])]]"

fun sse2_move :: "move \<Rightarrow> mem \<Rightarrow> nat \<Rightarrow> nat \<Rightarrow> mem option" where
  "sse2_move (Copy8 k) m dd ss = do { c \<leftarrow> load 1 m (ss - k); store m (dd - k) c }"
| "sse2_move (Copy16 k) m dd ss = do { c \<leftarrow> load 2 m (ss - k); store m (dd - k) c }"
| "sse2_move (Copy32 k) m dd ss = do { c \<leftarrow> load 4 m (ss - k); store m (dd - k) c }"
| "sse2_move (Copy64 k) m dd ss = do { c \<leftarrow> load 8 m (ss - k); store m (dd - k) c }"
| "sse2_move (Vec16 k) m dd ss = memcpy_sse2_16 m (dd - k) (ss - k)"
| "sse2_move (Vec32 k) m dd ss = memcpy_sse2_32 m (dd - k) (ss - k)"
| "sse2_move (Vec64 k) m dd ss = memcpy_sse2_64 m (dd - k) (ss - k)"
| "sse2_move (Vec128 k) m dd ss = memcpy_sse2_128 m (dd - k) (ss - k)"
| "sse2_move (Vec256 k) m dd ss = None"

definition memcpy_tiny :: "mem \<Rightarrow> nat \<Rightarrow> nat \<Rightarrow> nat \<Rightarrow> (nat \<times> mem) option" where
  "memcpy_tiny m dst src n =
     (let dd = dst + n; ss = src + n
      in do { m \<leftarrow> run_moves sse2_move (switch_stmts sse2_cases n) m dd ss; Some (dst, m) })"

section \<open>The main routine\<close>

definition cachesize :: nat where "cachesize = 0x200000"

definition medium_block :: "mem \<Rightarrow> nat \<Rightarrow> nat \<Rightarrow> mem option" where
  "medium_block m dst src =
     do { c0 \<leftarrow> load 16 m (src + 0);
          c1 \<leftarrow> load 16 m (src + 16);
          c2 \<leftarrow> load 16 m (src + 32);
          c3 \<leftarrow> load 16 m (src + 48);
          c4 \<leftarrow> load 16 m (src + 64);
          c5 \<leftarrow> load 16 m (src + 80);
          c6 \<leftarrow> load 16 m (src + 96);
          c7 \<leftarrow> load 16 m (src + 112);
          m \<leftarrow> store_aligned 16 m (dst + 0) c0;
          m \<leftarrow> store_aligned 16 m (dst + 16) c1;
          m \<leftarrow> store_aligned 16 m (dst + 32) c2;
          m \<leftarrow> store_aligned 16 m (dst + 48) c3;
          m \<leftarrow> store_aligned 16 m (dst + 64) c4;
          m \<leftarrow> store_aligned 16 m (dst + 80) c5;
          m \<leftarrow> store_aligned 16 m (dst + 96) c6;
          store_aligned 16 m (dst + 112) c7 }"

definition big_block_aligned :: "mem \<Rightarrow> nat \<Rightarrow> nat \<Rightarrow> mem option" where
  "big_block_aligned m dst src =
     do { c0 \<leftarrow> load_aligned 16 m (src + 0);
          c1 \<leftarrow> load_aligned 16 m (src + 16);
          c2 \<leftarrow> load_aligned 16 m (src + 32);
          c3 \<leftarrow> load_aligned 16 m (src + 48);
          c4 \<leftarrow> load_aligned 16 m (src + 64);
          c5 \<leftarrow> load_aligned 16 m (src + 80);
          c6 \<leftarrow> load_aligned 16 m (src + 96);
          c7 \<leftarrow> load_aligned 16 m (src + 112);
          m \<leftarrow> store_aligned 16 m (dst + 0) c0;
          m \<leftarrow> store_aligned 16 m (dst + 16) c1;
          m \<leftarrow> store_aligned 16 m (dst + 32) c2;
          m \<leftarrow> store_aligned 16 m (dst + 48) c3;
          m \<leftarrow> store_aligned 16 m (dst + 64) c4;
          m \<leftarrow> store_aligned 16 m (dst + 80) c5;
          m \<leftarrow> store_aligned 16 m (dst + 96) c6;
          store_aligned 16 m (dst + 112) c7 }"

definition big_block_unaligned :: "mem \<Rightarrow> nat \<Rightarrow> nat \<Rightarrow> mem option" where
  "big_block_unaligned m dst src =
     do { c0 \<leftarrow> load 16 m (src + 0);
          c1 \<leftarrow> load 16 m (src + 16);
          c2 \<leftarrow> load 16 m (src + 32);
          c3 \<leftarrow> load 16 m (src + 48);
          c4 \<leftarrow> load 16 m (src + 64);
          c5 \<leftarrow> load 16 m (src + 80);
          c6 \<leftarrow> load 16 m (src + 96);
          c7 \<leftarrow> load 16 m (src + 112);
          m \<leftarrow> store_aligned 16 m (dst + 0) c0;
          m \<leftarrow> store_aligned 16 m (dst + 16) c1;
          m \<leftarrow> store_aligned 16 m (dst + 32) c2;
          m \<leftarrow> store_aligned 16 m (dst + 48) c3;
          m \<leftarrow> store_aligned 16 m (dst + 64) c4;
          m \<leftarrow> store_aligned 16 m (dst + 80) c5;
          m \<leftarrow> store_aligned 16 m (dst + 96) c6;
          store_aligned 16 m (dst + 112) c7 }"

definition memcpy_fast :: "mem \<Rightarrow> nat \<Rightarrow> nat \<Rightarrow> nat \<Rightarrow> (nat \<times> mem) option" where
  "memcpy_fast m destination source n =
     (let dst = destination; src = source
      in if n \<le> 128 then memcpy_tiny m dst src n
         else let padding = (16 - dst mod 16) mod 16
           in do { (m, dst, src, n) \<leftarrow>
                     (if padding > 0
                      then do { head \<leftarrow> load 16 m src; m \<leftarrow> store m dst head;
                                Some (m, dst + padding, src + padding, n - padding) }
                      else Some (m, dst, src, n));
                   (m, dst, src, n) \<leftarrow>
                     (if n \<le> cachesize then chunk_loop medium_block 128 m dst src n
                      else if src mod 16 = 0 then chunk_loop big_block_aligned 128 m dst src n
                      else chunk_loop big_block_unaligned 128 m dst src n);
                   (_, m) \<leftarrow> memcpy_tiny m dst src n;
                   Some (destination, m) })"

section \<open>Blocks and moves copy their bytes\<close>

lemmas vec_simps = load_some store_some put_append bytes_at_append load_aligned_def store_aligned_def

lemma sse2_vectors:
  shows "mapped m s 16 \<Longrightarrow> mapped m d 16 \<Longrightarrow> memcpy_sse2_16 m d s = Some (copied m d s 16)"
    and "mapped m s 32 \<Longrightarrow> mapped m d 32 \<Longrightarrow> memcpy_sse2_32 m d s = Some (copied m d s 32)"
    and "mapped m s 64 \<Longrightarrow> mapped m d 64 \<Longrightarrow> memcpy_sse2_64 m d s = Some (copied m d s 64)"
    and "mapped m s 128 \<Longrightarrow> mapped m d 128 \<Longrightarrow> memcpy_sse2_128 m d s = Some (copied m d s 128)"
proof -
  show "memcpy_sse2_16 m d s = Some (copied m d s 16)" if a: "mapped m s 16" "mapped m d 16"
    using a by (simp add: memcpy_sse2_16_def vec_simps mapped_part [OF a(1)] mapped_part [OF a(2)] copied_def)
  show "memcpy_sse2_32 m d s = Some (copied m d s 32)" if a: "mapped m s 32" "mapped m d 32"
    using a by (simp add: memcpy_sse2_32_def vec_simps mapped_part [OF a(1)] mapped_part [OF a(2)] copied_def)
  show "memcpy_sse2_64 m d s = Some (copied m d s 64)" if a: "mapped m s 64" "mapped m d 64"
    using a by (simp add: memcpy_sse2_64_def vec_simps mapped_part [OF a(1)] mapped_part [OF a(2)] copied_def)
  show "memcpy_sse2_128 m d s = Some (copied m d s 128)" if a: "mapped m s 128" "mapped m d 128"
    using a by (simp add: memcpy_sse2_128_def vec_simps mapped_part [OF a(1)] mapped_part [OF a(2)] copied_def)
qed

interpretation sse2_tiny: mover sse2_move 128
proof
  fix mv m ss dd
  assume "move_width mv \<le> 128" "move_width mv \<le> move_off mv"
    "mapped m (ss - move_off mv) (move_width mv)" "mapped m (dd - move_off mv) (move_width mv)"
  then show "sse2_move mv m dd ss = Some (copied m (dd - move_off mv) (ss - move_off mv) (move_width mv))"
    by (cases mv) (simp_all add: sse2_vectors load_some store_some copied_def)
qed

lemma medium_block_copies:
  assumes "mapped m s 128" "mapped m d 128" "d mod 16 = 0"
  shows "medium_block m d s = Some (copied m d s 128)"
  using assms aligned_add [OF assms(3)]
  by (simp add: medium_block_def vec_simps mapped_part [OF assms(1)] mapped_part [OF assms(2)] copied_def)

lemma big_block_aligned_copies:
  assumes "mapped m s 128" "mapped m d 128" "d mod 16 = 0" "s mod 16 = 0"
  shows "big_block_aligned m d s = Some (copied m d s 128)"
  using assms aligned_add [OF assms(3)] aligned_add [OF assms(4)]
  by (simp add: big_block_aligned_def vec_simps mapped_part [OF assms(1)] mapped_part [OF assms(2)] copied_def)

lemma big_block_unaligned_copies:
  assumes "mapped m s 128" "mapped m d 128" "d mod 16 = 0"
  shows "big_block_unaligned m d s = Some (copied m d s 128)"
  using assms aligned_add [OF assms(3)]
  by (simp add: big_block_unaligned_def vec_simps mapped_part [OF assms(1)] mapped_part [OF assms(2)] copied_def)

interpretation medium: block_copy medium_block 128 "\<lambda>d s. d mod 16 = 0"
  by unfold_locales (simp_all add: medium_block_copies aligned_add)

interpretation big_aligned: block_copy big_block_aligned 128 "\<lambda>d s. d mod 16 = 0 \<and> s mod 16 = 0"
  by unfold_locales (simp_all add: big_block_aligned_copies aligned_add)

interpretation big_unaligned: block_copy big_block_unaligned 128 "\<lambda>d s. d mod 16 = 0"
  by unfold_locales (simp_all add: big_block_unaligned_copies aligned_add)

section \<open>The routines copy\<close>

text \<open>Every one of the 129 cases of the switch covers its region.\<close>

lemmas sse2_cases_defs = sse2_cases_def sse2_cases_0_15_def sse2_cases_16_31_def sse2_cases_32_47_def sse2_cases_48_63_def

lemma sse2_table_covers: "list_all (group_covers 128) sse2_cases"
  unfolding sse2_cases_defs by simp

lemma sse2_labels: "concat (map (map fst) sse2_cases) = concat (map (\<lambda>k. [64 + k, k]) [0..<64]) @ [128]"
  unfolding sse2_cases_defs by (simp add: upt_rec [of 0 64] upt_rec [of "Suc 0" 64] flip: numeral_2_eq_2)

lemma sse2_cases_cover: "n \<le> 128 \<Longrightarrow> covers 128 n n (switch_stmts sse2_cases n)"
proof (rule switch_covers [OF sse2_table_covers])
  assume "n \<le> 128"
  then consider "n < 64" | k where "n = 64 + k" "k < 64" | "n = 128"
    using that(2) [of "n - 64"] by fastforce
  then show "n \<in> set (concat (map (map fst) sse2_cases))" unfolding sse2_labels by cases auto
qed

lemma memcpy_tiny_copies:
  assumes "n \<le> 128" "mapped m src n" "mapped m dst n" "apart dst src n"
  shows "memcpy_tiny m dst src n = Some (dst, copied m dst src n)"
  using sse2_tiny.moves_copy_all [OF sse2_cases_cover [OF assms(1)] assms(2-4)]
  by (simp add: memcpy_tiny_def Let_def)

text \<open>The loop over the blocks, whichever it is, and then the rest.\<close>

lemma blocks_copy:
  assumes m: "mapped m src n" "mapped m dst n" "apart dst src n" and d: "dst mod 16 = 0"
  shows "(if n \<le> cachesize then chunk_loop medium_block 128 m dst src n
      else if src mod 16 = 0 then chunk_loop big_block_aligned 128 m dst src n
      else chunk_loop big_block_unaligned 128 m dst src n) =
    Some (copied m dst src (n - n mod 128), dst + (n - n mod 128), src + (n - n mod 128), n mod 128)"
  using medium.loop_copies [OF m d] big_aligned.loop_copies [OF m] big_unaligned.loop_copies [OF m d] d by simp

lemma tiny_copies_rest:
  assumes m: "mapped m src n" "mapped m dst n" "apart dst src n"
  shows "memcpy_tiny (copied m dst src (n - n mod 128)) (dst + (n - n mod 128)) (src + (n - n mod 128)) (n mod 128) =
    Some (dst + (n - n mod 128), copied m dst src n)"
proof -
  let ?q = "n - n mod 128" and ?r = "n mod 128"
  have q: "?q + ?r = n" "?r \<le> 128" by (simp_all add: less_imp_le)
  have "memcpy_tiny (copied m dst src ?q) (dst + ?q) (src + ?q) ?r =
      Some (dst + ?q, copied (copied m dst src ?q) (dst + ?q) (src + ?q) ?r)"
    by (rule memcpy_tiny_copies [OF q(2)])
      (use m q in \<open>auto simp: apart_def intro!: copied_mapped intro: mapped_part [OF m(1)] mapped_part [OF m(2)]\<close>)
  also have "copied (copied m dst src ?q) (dst + ?q) (src + ?q) ?r = copied m dst src n"
    using copied_extend [OF m(3), of ?q ?q ?r m] q by simp
  finally show ?thesis .
qed

lemma memcpy_fast_eq:
  assumes "mapped m src n" "mapped m dst n" "apart dst src n"
  shows "memcpy_fast m dst src n = Some (dst, copied m dst src n)"
proof (cases "n \<le> 128")
  case True
  then show ?thesis
    using memcpy_tiny_copies [OF True assms] by (simp add: memcpy_fast_def)
next
  case False
  let ?p = "(16 - dst mod 16) mod 16"
  define m1 where "m1 = (if ?p > 0 then copied m dst src 16 else m)"
  have p: "?p < 16" "(dst + ?p) mod 16 = 0" using padding_aligns [of 16 dst] by simp_all
  have mp: "mapped m src 16" "mapped m dst 16" using False by (auto intro: mapped_part [OF assms(1)] mapped_part [OF assms(2)])
  have pad: "(if ?p > 0 then do { head \<leftarrow> load 16 m src; m \<leftarrow> store m dst head; Some (m, dst + ?p, src + ?p, n - ?p) }
      else Some (m, dst, src, n)) = Some (m1, dst + ?p, src + ?p, n - ?p)"
    using mp by (simp add: m1_def load_some store_some copied_def)
  have m1: "mapped m1 (src + ?p) (n - ?p)" "mapped m1 (dst + ?p) (n - ?p)" "apart (dst + ?p) (src + ?p) (n - ?p)"
    using False p(1) assms(3)
    by (auto simp: m1_def apart_def intro!: copied_mapped intro: mapped_part [OF assms(1)] mapped_part [OF assms(2)])
  have "copied m1 (dst + ?p) (src + ?p) (n - ?p) = copied m dst src n"
    using copied_extend [OF assms(3), of ?p 16 "n - ?p" m] p(1) False by (simp add: m1_def)
  then show ?thesis
    unfolding memcpy_fast_def Let_def pad using False blocks_copy [OF m1 p(2)] tiny_copies_rest [OF m1] by simp
qed

text \<open>
  C13. The fast copy is a copy.  When n bytes are mapped at the source and at the destination
  and the two regions are apart, memcpy\_fast returns the destination and has copied exactly
  those bytes: it reads and writes nothing else, and its aligned and streaming instructions
  only see aligned addresses, whatever the alignment of its arguments.
\<close>

theorem memcpy_fast_copies:
  assumes "mapped m src n" "mapped m dst n" "apart dst src n"
  shows "memcpy_fast m dst src n =
    Some (dst, \<lambda>x. if dst \<le> x \<and> x < dst + n then m (src + (x - dst)) else m x)"
  using memcpy_fast_eq [OF assms] copied_eq [OF assms(1)] by simp

theorem memcpy_fast_copies_witness:
  "memcpy_fast (\<lambda>x. if x < 600 then Some (of_nat x) else None) 7 303 290 =
     Some (7, \<lambda>x. if 7 \<le> x \<and> x < 297 then Some (of_nat (303 + (x - 7))) else if x < 600 then Some (of_nat x) else None)"
proof -
  have "apart 7 303 290" by (simp add: apart_def)
  then show ?thesis
    using memcpy_fast_copies [of "\<lambda>x. if x < 600 then Some (of_nat x) else None" 303 290 7]
    by (simp add: mapped_def fun_eq_iff if_distrib cong: if_cong)
qed

end
