(* ===== verification/FastMemcpyAvx.thy ===== *)
theory FastMemcpyAvx
  imports FastMemcpy
begin

text \<open>
  The AVX memory copy of include/clickhouse/FastMemcpy\_Avx.h: the jump table has 257 cases,
  the vectors are 32 bytes wide and the blocks 256.  The source gives its routines the names
  of the SSE2 variant; here they end in avx.  The scalar moves are the unaligned accesses
  that the target machine allows.
\<close>

section \<open>Vector copies\<close>

definition memcpy_avx_16 :: "mem \<Rightarrow> nat \<Rightarrow> nat \<Rightarrow> mem option" where
  "memcpy_avx_16 m dst src =
     do { c0 \<leftarrow> load 16 m (src + 0);
          store m (dst + 0) c0 }"

definition memcpy_avx_32 :: "mem \<Rightarrow> nat \<Rightarrow> nat \<Rightarrow> mem option" where
  "memcpy_avx_32 m dst src =
     do { c0 \<leftarrow> load 32 m (src + 0);
          store m (dst + 0) c0 }"

definition memcpy_avx_64 :: "mem \<Rightarrow> nat \<Rightarrow> nat \<Rightarrow> mem option" where
  "memcpy_avx_64 m dst src =
     do { c0 \<leftarrow> load 32 m (src + 0);
          c1 \<leftarrow> load 32 m (src + 32);
          m \<leftarrow> store m (dst + 0) c0;
          store m (dst + 32) c1 }"

definition memcpy_avx_128 :: "mem \<Rightarrow> nat \<Rightarrow> nat \<Rightarrow> mem option" where
  "memcpy_avx_128 m dst src =
     do { c0 \<leftarrow> load 32 m (src + 0);
          c1 \<leftarrow> load 32 m (src + 32);
          c2 \<leftarrow> load 32 m (src + 64);
          c3 \<leftarrow> load 32 m (src + 96);
          m \<leftarrow> store m (dst + 0) c0;
          m \<leftarrow> store m (dst + 32) c1;
          m \<leftarrow> store m (dst + 64) c2;
          store m (dst + 96) c3 }"

definition memcpy_avx_256 :: "mem \<Rightarrow> nat \<Rightarrow> nat \<Rightarrow> mem option" where
  "memcpy_avx_256 m dst src =
     do { c0 \<leftarrow> load 32 m (src + 0);
          c1 \<leftarrow> load 32 m (src + 32);
          c2 \<leftarrow> load 32 m (src + 64);
          c3 \<leftarrow> load 32 m (src + 96);
          c4 \<leftarrow> load 32 m (src + 128);
          c5 \<leftarrow> load 32 m (src + 160);
          c6 \<leftarrow> load 32 m (src + 192);
          c7 \<leftarrow> load 32 m (src + 224);
          m \<leftarrow> store m (dst + 0) c0;
          m \<leftarrow> store m (dst + 32) c1;
          m \<leftarrow> store m (dst + 64) c2;
          m \<leftarrow> store m (dst + 96) c3;
          m \<leftarrow> store m (dst + 128) c4;
          m \<leftarrow> store m (dst + 160) c5;
          m \<leftarrow> store m (dst + 192) c6;
          store m (dst + 224) c7 }"

section \<open>The jump table\<close>

definition avx_cases_0_31 :: "switch_cases" where
  "avx_cases_0_31 =
    [[(128, [Vec128 128]), (0, [])],
     [(129, [Vec128 129]), (1, [Copy8 1])],
     [(130, [Vec128 130]), (2, [Copy16 2])],
     [(131, [Vec128 131]), (3, [Copy16 3, Copy8 1])],
     [(132, [Vec128 132]), (4, [Copy32 4])],
     [(133, [Vec128 133]), (5, [Copy32 5, Copy8 1])],
     [(134, [Vec128 134]), (6, [Copy32 6, Copy16 2])],
     [(135, [Vec128 135]), (7, [Copy32 7, Copy32 4])],
     [(136, [Vec128 136]), (8, [Copy64 8])],
     [(137, [Vec128 137]), (9, [Copy64 9, Copy8 1])],
     [(138, [Vec128 138]), (10, [Copy64 10, Copy16 2])],
     [(139, [Vec128 139]), (11, [Copy64 11, Copy32 4])],
     [(140, [Vec128 140]), (12, [Copy64 12, Copy32 4])],
     [(141, [Vec128 141]), (13, [Copy64 13, Copy64 8])],
     [(142, [Vec128 142]), (14, [Copy64 14, Copy64 8])],
     [(143, [Vec128 143]), (15, [Copy64 15, Copy64 8])],
     [(144, [Vec128 144]), (16, [Vec16 16])],
     [(145, [Vec128 145]), (17, [Vec16 17, Copy8 1])],
     [(146, [Vec128 146]), (18, [Vec16 18, Copy16 2])],
     [(147, [Vec128 147]), (19, [Vec16 19, Copy32 4])],
     [(148, [Vec128 148]), (20, [Vec16 20, Copy32 4])],
     [(149, [Vec128 149]), (21, [Vec16 21, Copy64 8])],
     [(150, [Vec128 150]), (22, [Vec16 22, Copy64 8])],
     [(151, [Vec128 151]), (23, [Vec16 23, Copy64 8])],
     [(152, [Vec128 152]), (24, [Vec16 24, Copy64 8])],
     [(153, [Vec128 153]), (25, [Vec16 25, Vec16 16])],
     [(154, [Vec128 154]), (26, [Vec16 26, Vec16 16])],
     [(155, [Vec128 155]), (27, [Vec16 27, Vec16 16])],
     [(156, [Vec128 156]), (28, [Vec16 28, Vec16 16])],
     [(157, [Vec128 157]), (29, [Vec16 29, Vec16 16])],
     [(158, [Vec128 158]), (30, [Vec16 30, Vec16 16])],
     [(159, [Vec128 159]), (31, [Vec16 31, Vec16 16])]]"

definition avx_cases_32_63 :: "switch_cases" where
  "avx_cases_32_63 =
    [[(160, [Vec128 160]), (32, [Vec32 32])],
     [(161, [Vec128 161]), (33, [Vec32 33, Copy8 1])],
     [(162, [Vec128 162]), (34, [Vec32 34, Copy16 2])],
     [(163, [Vec128 163]), (35, [Vec32 35, Copy32 4])],
     [(164, [Vec128 164]), (36, [Vec32 36, Copy32 4])],
     [(165, [Vec128 165]), (37, [Vec32 37, Copy64 8])],
     [(166, [Vec128 166]), (38, [Vec32 38, Copy64 8])],
     [(167, [Vec128 167]), (39, [Vec32 39, Copy64 8])],
     [(168, [Vec128 168]), (40, [Vec32 40, Copy64 8])],
     [(169, [Vec128 169]), (41, [Vec32 41, Vec16 16])],
     [(170, [Vec128 170]), (42, [Vec32 42, Vec16 16])],
     [(171, [Vec128 171]), (43, [Vec32 43, Vec16 16])],
     [(172, [Vec128 172]), (44, [Vec32 44, Vec16 16])],
     [(173, [Vec128 173]), (45, [Vec32 45, Vec16 16])],
     [(174, [Vec128 174]), (46, [Vec32 46, Vec16 16])],
     [(175, [Vec128 175]), (47, [Vec32 47, Vec16 16])],
     [(176, [Vec128 176]), (48, [Vec32 48, Vec16 16])],
     [(177, [Vec128 177]), (49, [Vec32 49, Vec32 32])],
     [(178, [Vec128 178]), (50, [Vec32 50, Vec32 32])],
     [(179, [Vec128 179]), (51, [Vec32 51, Vec32 32])],
     [(180, [Vec128 180]), (52, [Vec32 52, Vec32 32])],
     [(181, [Vec128 181]), (53, [Vec32 53, Vec32 32])],
     [(182, [Vec128 182]), (54, [Vec32 54, Vec32 32])],
     [(183, [Vec128 183]), (55, [Vec32 55, Vec32 32])],
     [(184, [Vec128 184]), (56, [Vec32 56, Vec32 32])],
     [(185, [Vec128 185]), (57, [Vec32 57, Vec32 32])],
     [(186, [Vec128 186]), (58, [Vec32 58, Vec32 32])],
     [(187, [Vec128 187]), (59, [Vec32 59, Vec32 32])],
     [(188, [Vec128 188]), (60, [Vec32 60, Vec32 32])],
     [(189, [Vec128 189]), (61, [Vec32 61, Vec32 32])],
     [(190, [Vec128 190]), (62, [Vec32 62, Vec32 32])],
     [(191, [Vec128 191]), (63, [Vec32 63, Vec32 32])]]"

definition avx_cases_64_95 :: "switch_cases" where
  "avx_cases_64_95 =
    [[(192, [Vec128 192]), (64, [Vec64 64])],
     [(193, [Vec128 193]), (65, [Vec64 65, Copy8 1])],
     [(194, [Vec128 194]), (66, [Vec64 66, Copy16 2])],
     [(195, [Vec128 195]), (67, [Vec64 67, Copy32 4])],
     [(196, [Vec128 196]), (68, [Vec64 68, Copy32 4])],
     [(197, [Vec128 197]), (69, [Vec64 69, Copy64 8])],
     [(198, [Vec128 198]), (70, [Vec64 70, Copy64 8])],
     [(199, [Vec128 199]), (71, [Vec64 71, Copy64 8])],
     [(200, [Vec128 200]), (72, [Vec64 72, Copy64 8])],
     [(201, [Vec128 201]), (73, [Vec64 73, Vec16 16])],
     [(202, [Vec128 202]), (74, [Vec64 74, Vec16 16])],
     [(203, [Vec128 203]), (75, [Vec64 75, Vec16 16])],
     [(204, [Vec128 204]), (76, [Vec64 76, Vec16 16])],
     [(205, [Vec128 205]), (77, [Vec64 77, Vec16 16])],
     [(206, [Vec128 206]), (78, [Vec64 78, Vec16 16])],
     [(207, [Vec128 207]), (79, [Vec64 79, Vec16 16])],
     [(208, [Vec128 208]), (80, [Vec64 80, Vec16 16])],
     [(209, [Vec128 209]), (81, [Vec64 81, Vec32 32])],
     [(210, [Vec128 210]), (82, [Vec64 82, Vec32 32])],
     [(211, [Vec128 211]), (83, [Vec64 83, Vec32 32])],
     [(212, [Vec128 212]), (84, [Vec64 84, Vec32 32])],
     [(213, [Vec128 213]), (85, [Vec64 85, Vec32 32])],
     [(214, [Vec128 214]), (86, [Vec64 86, Vec32 32])],
     [(215, [Vec128 215]), (87, [Vec64 87, Vec32 32])],
     [(216, [Vec128 216]), (88, [Vec64 88, Vec32 32])],
     [(217, [Vec128 217]), (89, [Vec64 89, Vec32 32])],
     [(218, [Vec128 218]), (90, [Vec64 90, Vec32 32])],
     [(219, [Vec128 219]), (91, [Vec64 91, Vec32 32])],
     [(220, [Vec128 220]), (92, [Vec64 92, Vec32 32])],
     [(221, [Vec128 221]), (93, [Vec64 93, Vec32 32])],
     [(222, [Vec128 222]), (94, [Vec64 94, Vec32 32])],
     [(223, [Vec128 223]), (95, [Vec64 95, Vec32 32])]]"

definition avx_cases_96_127 :: "switch_cases" where
  "avx_cases_96_127 =
    [[(224, [Vec128 224]), (96, [Vec64 96, Vec32 32])],
     [(225, [Vec128 225]), (97, [Vec64 97, Vec64 64])],
     [(226, [Vec128 226]), (98, [Vec64 98, Vec64 64])],
     [(227, [Vec128 227]), (99, [Vec64 99, Vec64 64])],
     [(228, [Vec128 228]), (100, [Vec64 100, Vec64 64])],
     [(229, [Vec128 229]), (101, [Vec64 101, Vec64 64])],
     [(230, [Vec128 230]), (102, [Vec64 102, Vec64 64])],
     [(231, [Vec128 231]), (103, [Vec64 103, Vec64 64])],
     [(232, [Vec128 232]), (104, [Vec64 104, Vec64 64])],
     [(233, [Vec128 233]), (105, [Vec64 105, Vec64 64])],
     [(234, [Vec128 234]), (106, [Vec64 106, Vec64 64])],
     [(235, [Vec128 235]), (107, [Vec64 107, Vec64 64])],
     [(236, [Vec128 236]), (108, [Vec64 108, Vec64 64])],
     [(237, [Vec128 237]), (109, [Vec64 109, Vec64 64])],
     [(238, [Vec128 238]), (110, [Vec64 110, Vec64 64])],
     [(239, [Vec128 239]), (111, [Vec64 111, Vec64 64])],
     [(240, [Vec128 240]), (112, [Vec64 112, Vec64 64])],
     [(241, [Vec128 241]), (113, [Vec64 113, Vec64 64])],
     [(242, [Vec128 242]), (114, [Vec64 114, Vec64 64])],
     [(243, [Vec128 243]), (115, [Vec64 115, Vec64 64])],
     [(244, [Vec128 244]), (116, [Vec64 116, Vec64 64])],
     [(245, [Vec128 245]), (117, [Vec64 117, Vec64 64])],
     [(246, [Vec128 246]), (118, [Vec64 118, Vec64 64])],
     [(247, [Vec128 247]), (119, [Vec64 119, Vec64 64])],
     [(248, [Vec128 248]), (120, [Vec64 120, Vec64 64])],
     [(249, [Vec128 249]), (121, [Vec64 121, Vec64 64])],
     [(250, [Vec128 250]), (122, [Vec64 122, Vec64 64])],
     [(251, [Vec128 251]), (123, [Vec64 123, Vec64 64])],
     [(252, [Vec128 252]), (124, [Vec64 124, Vec64 64])],
     [(253, [Vec128 253]), (125, [Vec64 125, Vec64 64])],
     [(254, [Vec128 254]), (126, [Vec64 126, Vec64 64])],
     [(255, [Vec128 255]), (127, [Vec64 127, Vec64 64])]]"

definition avx_cases :: switch_cases where
  "avx_cases = avx_cases_0_31 @ avx_cases_32_63 @ avx_cases_64_95 @ avx_cases_96_127 @ [[(256, [Vec256 256])]]"

fun avx_move :: "move \<Rightarrow> mem \<Rightarrow> nat \<Rightarrow> nat \<Rightarrow> mem option" where
  "avx_move (Copy8 k) m dd ss = do { c \<leftarrow> load 1 m (ss - k); store m (dd - k) c }"
| "avx_move (Copy16 k) m dd ss = do { c \<leftarrow> load 2 m (ss - k); store m (dd - k) c }"
| "avx_move (Copy32 k) m dd ss = do { c \<leftarrow> load 4 m (ss - k); store m (dd - k) c }"
| "avx_move (Copy64 k) m dd ss = do { c \<leftarrow> load 8 m (ss - k); store m (dd - k) c }"
| "avx_move (Vec16 k) m dd ss = memcpy_avx_16 m (dd - k) (ss - k)"
| "avx_move (Vec32 k) m dd ss = memcpy_avx_32 m (dd - k) (ss - k)"
| "avx_move (Vec64 k) m dd ss = memcpy_avx_64 m (dd - k) (ss - k)"
| "avx_move (Vec128 k) m dd ss = memcpy_avx_128 m (dd - k) (ss - k)"
| "avx_move (Vec256 k) m dd ss = memcpy_avx_256 m (dd - k) (ss - k)"

definition memcpy_tiny_avx :: "mem \<Rightarrow> nat \<Rightarrow> nat \<Rightarrow> nat \<Rightarrow> (nat \<times> mem) option" where
  "memcpy_tiny_avx m dst src n =
     (let dd = dst + n; ss = src + n
      in do { m \<leftarrow> run_moves avx_move (switch_stmts avx_cases n) m dd ss; Some (dst, m) })"

section \<open>The main routine\<close>

definition medium_block_avx :: "mem \<Rightarrow> nat \<Rightarrow> nat \<Rightarrow> mem option" where
  "medium_block_avx m dst src =
     do { c0 \<leftarrow> load 32 m (src + 0);
          c1 \<leftarrow> load 32 m (src + 32);
          c2 \<leftarrow> load 32 m (src + 64);
          c3 \<leftarrow> load 32 m (src + 96);
          c4 \<leftarrow> load 32 m (src + 128);
          c5 \<leftarrow> load 32 m (src + 160);
          c6 \<leftarrow> load 32 m (src + 192);
          c7 \<leftarrow> load 32 m (src + 224);
          m \<leftarrow> store m (dst + 0) c0;
          m \<leftarrow> store m (dst + 32) c1;
          m \<leftarrow> store m (dst + 64) c2;
          m \<leftarrow> store m (dst + 96) c3;
          m \<leftarrow> store m (dst + 128) c4;
          m \<leftarrow> store m (dst + 160) c5;
          m \<leftarrow> store m (dst + 192) c6;
          store m (dst + 224) c7 }"

definition big_block_aligned_avx :: "mem \<Rightarrow> nat \<Rightarrow> nat \<Rightarrow> mem option" where
  "big_block_aligned_avx m dst src =
     do { c0 \<leftarrow> load_aligned 32 m (src + 0);
          c1 \<leftarrow> load_aligned 32 m (src + 32);
          c2 \<leftarrow> load_aligned 32 m (src + 64);
          c3 \<leftarrow> load_aligned 32 m (src + 96);
          c4 \<leftarrow> load_aligned 32 m (src + 128);
          c5 \<leftarrow> load_aligned 32 m (src + 160);
          c6 \<leftarrow> load_aligned 32 m (src + 192);
          c7 \<leftarrow> load_aligned 32 m (src + 224);
          m \<leftarrow> store_aligned 32 m (dst + 0) c0;
          m \<leftarrow> store_aligned 32 m (dst + 32) c1;
          m \<leftarrow> store_aligned 32 m (dst + 64) c2;
          m \<leftarrow> store_aligned 32 m (dst + 96) c3;
          m \<leftarrow> store_aligned 32 m (dst + 128) c4;
          m \<leftarrow> store_aligned 32 m (dst + 160) c5;
          m \<leftarrow> store_aligned 32 m (dst + 192) c6;
          store_aligned 32 m (dst + 224) c7 }"

definition big_block_unaligned_avx :: "mem \<Rightarrow> nat \<Rightarrow> nat \<Rightarrow> mem option" where
  "big_block_unaligned_avx m dst src =
     do { c0 \<leftarrow> load 32 m (src + 0);
          c1 \<leftarrow> load 32 m (src + 32);
          c2 \<leftarrow> load 32 m (src + 64);
          c3 \<leftarrow> load 32 m (src + 96);
          c4 \<leftarrow> load 32 m (src + 128);
          c5 \<leftarrow> load 32 m (src + 160);
          c6 \<leftarrow> load 32 m (src + 192);
          c7 \<leftarrow> load 32 m (src + 224);
          m \<leftarrow> store_aligned 32 m (dst + 0) c0;
          m \<leftarrow> store_aligned 32 m (dst + 32) c1;
          m \<leftarrow> store_aligned 32 m (dst + 64) c2;
          m \<leftarrow> store_aligned 32 m (dst + 96) c3;
          m \<leftarrow> store_aligned 32 m (dst + 128) c4;
          m \<leftarrow> store_aligned 32 m (dst + 160) c5;
          m \<leftarrow> store_aligned 32 m (dst + 192) c6;
          store_aligned 32 m (dst + 224) c7 }"

definition memcpy_fast_avx :: "mem \<Rightarrow> nat \<Rightarrow> nat \<Rightarrow> nat \<Rightarrow> (nat \<times> mem) option" where
  "memcpy_fast_avx m destination source n =
     (let dst = destination; src = source
      in if n \<le> 256 then memcpy_tiny_avx m dst src n
         else let padding = (32 - dst mod 32) mod 32
           in do { head \<leftarrow> load 32 m src;
                   m \<leftarrow> store m dst head;
                   let dst = dst + padding;
                   let src = src + padding;
                   let n = n - padding;
                   (m, dst, src, n) \<leftarrow>
                     (if n \<le> cachesize then chunk_loop medium_block_avx 256 m dst src n
                      else if src mod 32 = 0 then chunk_loop big_block_aligned_avx 256 m dst src n
                      else chunk_loop big_block_unaligned_avx 256 m dst src n);
                   (_, m) \<leftarrow> memcpy_tiny_avx m dst src n;
                   Some (destination, m) })"

section \<open>Blocks and moves copy their bytes\<close>

lemma avx_vectors:
  shows "mapped m s 16 \<Longrightarrow> mapped m d 16 \<Longrightarrow> memcpy_avx_16 m d s = Some (copied m d s 16)"
    and "mapped m s 32 \<Longrightarrow> mapped m d 32 \<Longrightarrow> memcpy_avx_32 m d s = Some (copied m d s 32)"
    and "mapped m s 64 \<Longrightarrow> mapped m d 64 \<Longrightarrow> memcpy_avx_64 m d s = Some (copied m d s 64)"
    and "mapped m s 128 \<Longrightarrow> mapped m d 128 \<Longrightarrow> memcpy_avx_128 m d s = Some (copied m d s 128)"
    and "mapped m s 256 \<Longrightarrow> mapped m d 256 \<Longrightarrow> memcpy_avx_256 m d s = Some (copied m d s 256)"
proof -
  show "memcpy_avx_16 m d s = Some (copied m d s 16)" if a: "mapped m s 16" "mapped m d 16"
    using a by (simp add: memcpy_avx_16_def vec_simps mapped_part [OF a(1)] mapped_part [OF a(2)] copied_def)
  show "memcpy_avx_32 m d s = Some (copied m d s 32)" if a: "mapped m s 32" "mapped m d 32"
    using a by (simp add: memcpy_avx_32_def vec_simps mapped_part [OF a(1)] mapped_part [OF a(2)] copied_def)
  show "memcpy_avx_64 m d s = Some (copied m d s 64)" if a: "mapped m s 64" "mapped m d 64"
    using a by (simp add: memcpy_avx_64_def vec_simps mapped_part [OF a(1)] mapped_part [OF a(2)] copied_def)
  show "memcpy_avx_128 m d s = Some (copied m d s 128)" if a: "mapped m s 128" "mapped m d 128"
    using a by (simp add: memcpy_avx_128_def vec_simps mapped_part [OF a(1)] mapped_part [OF a(2)] copied_def)
  show "memcpy_avx_256 m d s = Some (copied m d s 256)" if a: "mapped m s 256" "mapped m d 256"
    using a by (simp add: memcpy_avx_256_def vec_simps mapped_part [OF a(1)] mapped_part [OF a(2)] copied_def)
qed

interpretation avx_tiny: mover avx_move 256
proof
  fix mv m ss dd
  assume "move_width mv \<le> 256" "move_width mv \<le> move_off mv"
    "mapped m (ss - move_off mv) (move_width mv)" "mapped m (dd - move_off mv) (move_width mv)"
  then show "avx_move mv m dd ss = Some (copied m (dd - move_off mv) (ss - move_off mv) (move_width mv))"
    by (cases mv) (simp_all add: avx_vectors load_some store_some copied_def)
qed

lemma medium_block_avx_copies:
  assumes "mapped m s 256" "mapped m d 256" "d mod 32 = 0"
  shows "medium_block_avx m d s = Some (copied m d s 256)"
  using assms aligned_add [OF assms(3)]
  by (simp add: medium_block_avx_def vec_simps mapped_part [OF assms(1)] mapped_part [OF assms(2)] copied_def)

lemma big_block_aligned_avx_copies:
  assumes "mapped m s 256" "mapped m d 256" "d mod 32 = 0" "s mod 32 = 0"
  shows "big_block_aligned_avx m d s = Some (copied m d s 256)"
  using assms aligned_add [OF assms(3)] aligned_add [OF assms(4)]
  by (simp add: big_block_aligned_avx_def vec_simps mapped_part [OF assms(1)] mapped_part [OF assms(2)] copied_def)

lemma big_block_unaligned_avx_copies:
  assumes "mapped m s 256" "mapped m d 256" "d mod 32 = 0"
  shows "big_block_unaligned_avx m d s = Some (copied m d s 256)"
  using assms aligned_add [OF assms(3)]
  by (simp add: big_block_unaligned_avx_def vec_simps mapped_part [OF assms(1)] mapped_part [OF assms(2)] copied_def)

interpretation avx_medium: block_copy medium_block_avx 256 "\<lambda>d s. d mod 32 = 0"
  by unfold_locales (simp_all add: medium_block_avx_copies aligned_add)

interpretation avx_big_aligned: block_copy big_block_aligned_avx 256 "\<lambda>d s. d mod 32 = 0 \<and> s mod 32 = 0"
  by unfold_locales (simp_all add: big_block_aligned_avx_copies aligned_add)

interpretation avx_big_unaligned: block_copy big_block_unaligned_avx 256 "\<lambda>d s. d mod 32 = 0"
  by unfold_locales (simp_all add: big_block_unaligned_avx_copies aligned_add)

section \<open>The routines copy\<close>

text \<open>Every one of the 257 cases of the switch covers its region.\<close>

lemmas avx_cases_defs = avx_cases_def avx_cases_0_31_def avx_cases_32_63_def avx_cases_64_95_def avx_cases_96_127_def

lemma avx_table_covers: "list_all (group_covers 256) avx_cases"
  unfolding avx_cases_defs by simp

lemma avx_labels: "concat (map (map fst) avx_cases) = concat (map (\<lambda>k. [128 + k, k]) [0..<128]) @ [256]"
  unfolding avx_cases_defs by (simp add: upt_rec [of 0 128] upt_rec [of "Suc 0" 128] flip: numeral_2_eq_2)

lemma avx_cases_cover: "n \<le> 256 \<Longrightarrow> covers 256 n n (switch_stmts avx_cases n)"
proof (rule switch_covers [OF avx_table_covers])
  assume "n \<le> 256"
  then consider "n < 128" | k where "n = 128 + k" "k < 128" | "n = 256"
    using that(2) [of "n - 128"] by fastforce
  then show "n \<in> set (concat (map (map fst) avx_cases))" unfolding avx_labels by cases auto
qed

lemma memcpy_tiny_avx_copies:
  assumes "n \<le> 256" "mapped m src n" "mapped m dst n" "apart dst src n"
  shows "memcpy_tiny_avx m dst src n = Some (dst, copied m dst src n)"
  using avx_tiny.moves_copy_all [OF avx_cases_cover [OF assms(1)] assms(2-4)]
  by (simp add: memcpy_tiny_avx_def Let_def)

text \<open>The loop over the blocks, whichever it is, and then the rest.\<close>

lemma avx_blocks_copy:
  assumes m: "mapped m src n" "mapped m dst n" "apart dst src n" and d: "dst mod 32 = 0"
  shows "(if n \<le> cachesize then chunk_loop medium_block_avx 256 m dst src n
      else if src mod 32 = 0 then chunk_loop big_block_aligned_avx 256 m dst src n
      else chunk_loop big_block_unaligned_avx 256 m dst src n) =
    Some (copied m dst src (n - n mod 256), dst + (n - n mod 256), src + (n - n mod 256), n mod 256)"
  using avx_medium.loop_copies [OF m d] avx_big_aligned.loop_copies [OF m] avx_big_unaligned.loop_copies [OF m d] d by simp

lemma avx_tiny_copies_rest:
  assumes m: "mapped m src n" "mapped m dst n" "apart dst src n"
  shows "memcpy_tiny_avx (copied m dst src (n - n mod 256)) (dst + (n - n mod 256)) (src + (n - n mod 256)) (n mod 256) =
    Some (dst + (n - n mod 256), copied m dst src n)"
proof -
  let ?q = "n - n mod 256" and ?r = "n mod 256"
  have q: "?q + ?r = n" "?r \<le> 256" by (simp_all add: less_imp_le)
  have "memcpy_tiny_avx (copied m dst src ?q) (dst + ?q) (src + ?q) ?r =
      Some (dst + ?q, copied (copied m dst src ?q) (dst + ?q) (src + ?q) ?r)"
    by (rule memcpy_tiny_avx_copies [OF q(2)])
      (use m q in \<open>auto simp: apart_def intro!: copied_mapped intro: mapped_part [OF m(1)] mapped_part [OF m(2)]\<close>)
  also have "copied (copied m dst src ?q) (dst + ?q) (src + ?q) ?r = copied m dst src n"
    using copied_extend [OF m(3), of ?q ?q ?r m] q by simp
  finally show ?thesis .
qed

text \<open>
  C14. The AVX copy agrees with a copy.  When n bytes are mapped at the source and at the
  destination and the two regions are apart, memcpy\_fast of FastMemcpy\_Avx.h returns the
  destination and has copied exactly those bytes, for every size and every alignment.
\<close>

theorem memcpy_fast_avx_copies:
  assumes "mapped m src n" "mapped m dst n" "apart dst src n"
  shows "memcpy_fast_avx m dst src n =
    Some (dst, \<lambda>x. if dst \<le> x \<and> x < dst + n then m (src + (x - dst)) else m x)"
proof -
  let ?p = "(32 - dst mod 32) mod 32"
  have c: "(\<lambda>x. if dst \<le> x \<and> x < dst + n then m (src + (x - dst)) else m x) = copied m dst src n"
    using copied_eq [OF assms(1)] by simp
  show ?thesis unfolding c
  proof (cases "n \<le> 256")
    case True
    then show "memcpy_fast_avx m dst src n = Some (dst, copied m dst src n)"
      using memcpy_tiny_avx_copies [OF True assms] by (simp add: memcpy_fast_avx_def)
  next
    case False
    define m1 where "m1 = copied m dst src 32"
    have p: "?p < 32" "(dst + ?p) mod 32 = 0" using padding_aligns [of 32 dst] by simp_all
    have mp: "mapped m src 32" "mapped m dst 32" using False by (auto intro: mapped_part [OF assms(1)] mapped_part [OF assms(2)])
    have pad: "load 32 m src = Some (bytes_at m src 32)" "store m dst (bytes_at m src 32) = Some m1"
      using mp by (simp_all add: m1_def load_some store_some copied_def)
    have m1: "mapped m1 (src + ?p) (n - ?p)" "mapped m1 (dst + ?p) (n - ?p)" "apart (dst + ?p) (src + ?p) (n - ?p)"
      using False p(1) assms(3)
      by (auto simp: m1_def apart_def intro!: copied_mapped intro: mapped_part [OF assms(1)] mapped_part [OF assms(2)])
    have "copied m1 (dst + ?p) (src + ?p) (n - ?p) = copied m dst src n"
      using copied_extend [OF assms(3), of ?p 32 "n - ?p" m] p(1) False by (simp add: m1_def)
    then show "memcpy_fast_avx m dst src n = Some (dst, copied m dst src n)"
      unfolding memcpy_fast_avx_def Let_def using False pad avx_blocks_copy [OF m1 p(2)] avx_tiny_copies_rest [OF m1] by simp
  qed
qed

theorem memcpy_fast_avx_copies_witness:
  "memcpy_fast_avx (\<lambda>x. if x < 900 then Some (of_nat x) else None) 7 500 400 =
     Some (7, \<lambda>x. if 7 \<le> x \<and> x < 407 then Some (of_nat (500 + (x - 7))) else if x < 900 then Some (of_nat x) else None)"
proof -
  have "apart 7 500 400" by (simp add: apart_def)
  then show ?thesis
    using memcpy_fast_avx_copies [of "\<lambda>x. if x < 900 then Some (of_nat x) else None" 500 400 7]
    by (simp add: mapped_def fun_eq_iff if_distrib cong: if_cong)
qed

end
