(* ===== verification/Interpreters.thy ===== *)
theory Interpreters
  imports Prelude "HOL-Library.Signed_Division"
begin

text \<open>
  The bytecode interpreters (include/interpreters/interpreters.hh and
  src/modules/interpreters/interpreters.cc): one stack machine in three dispatch styles, a
  switch in a loop, token threading through a table of labels, and direct threading through
  addresses resolved in a first pass.  An instruction is an int whose upper byte is the
  opcode and whose lower three bytes are a literal.

  Arithmetic on int32\_t is partial: an overflow and a division by zero are faults.  The
  switch pops both operands in one expression, stack[--sp] + stack[--sp], whose two changes of
  sp are unsequenced: C++ leaves it undefined.  What is known of the order of the two pops is a
  parameter of the switch machine: nothing (Unsequenced, the language alone), and then the
  expression is a fault, or that the compiler pops the left operand first (LeftFirst).  The
  loops count their instructions with an int, whose overflow is a fault too.  The arrays of
  instructions and target addresses have the n elements the caller promises.
\<close>

type_synonym i32 = "32 word"

datatype opcode = OP_LITERAL | OP_ADD | OP_SUB | OP_MUL | OP_DIV | OP_MOD | OP_END

definition opcode_value :: "opcode \<Rightarrow> i32" where
  "opcode_value x = (case x of OP_LITERAL \<Rightarrow> 0 | OP_ADD \<Rightarrow> 1 | OP_SUB \<Rightarrow> 2 | OP_MUL \<Rightarrow> 3 | OP_DIV \<Rightarrow> 4 | OP_MOD \<Rightarrow> 5 | OP_END \<Rightarrow> 6)"

definition make_instruction :: "opcode \<Rightarrow> i32 \<Rightarrow> i32" where
  "make_instruction x a =
     (let instr = 0; instr = instr OR push_bit 24 (opcode_value x)
      in if x = OP_LITERAL then instr OR a else instr)"

text \<open>The label or case an instruction selects; other values of the upper byte select none.\<close>

definition opcode_of :: "i32 \<Rightarrow> opcode option" where
  "opcode_of instr =
     (let k = signed_drop_bit 24 instr
      in if k = 0 then Some OP_LITERAL else if k = 1 then Some OP_ADD else if k = 2 then Some OP_SUB
         else if k = 3 then Some OP_MUL else if k = 4 then Some OP_DIV else if k = 5 then Some OP_MOD
         else if k = 6 then Some OP_END else None)"

definition literal_of :: "i32 \<Rightarrow> i32" where
  "literal_of instr = instr AND (push_bit 24 1 - 1)"

definition int32_of :: "int \<Rightarrow> i32 option" where
  "int32_of r = (if - (2 ^ 31) \<le> r \<and> r < 2 ^ 31 then Some (word_of_int r) else None)"

fun arith :: "opcode \<Rightarrow> i32 \<Rightarrow> i32 \<Rightarrow> i32 option" where
  "arith OP_ADD a b = int32_of (sint a + sint b)"
| "arith OP_SUB a b = int32_of (sint a - sint b)"
| "arith OP_MUL a b = int32_of (sint a * sint b)"
| "arith OP_DIV a b = (if b = 0 then None else int32_of (sint a sdiv sint b))"
| "arith OP_MOD a b = (if b = 0 then None else
     do { _ \<leftarrow> int32_of (sint a sdiv sint b); int32_of (sint a smod sint b) })"
| "arith _ a b = None"

section \<open>The three interpreters\<close>

subsection \<open>Switch dispatch\<close>

datatype pop_order = Unsequenced | LeftFirst

text \<open>stack[--sp] op stack[--sp], and the push of the result.\<close>

definition switch_binary :: "pop_order \<Rightarrow> opcode \<Rightarrow> i32 list \<Rightarrow> nat \<Rightarrow> (i32 list \<times> nat) option" where
  "switch_binary order x stack sp =
     do { guard (order = LeftFirst);
          guard (2 \<le> sp \<and> sp \<le> length stack);
          result \<leftarrow> arith x (stack ! (sp - 1)) (stack ! (sp - 2));
          Some (stack[sp - 2 := result], sp - 1) }"

text \<open>The list is what is left of the instructions from i on; ++i is an addition on int.\<close>

fun switch_loop :: "pop_order \<Rightarrow> nat \<Rightarrow> i32 list \<Rightarrow> i32 list \<Rightarrow> nat \<Rightarrow> (i32 list \<times> nat) option" where
  "switch_loop order i [] stack sp = Some (stack, sp)"
| "switch_loop order i (instr # rest) stack sp =
     do { x \<leftarrow> opcode_of instr;
          (stack, sp) \<leftarrow> (case x of
              OP_LITERAL \<Rightarrow> do { guard (sp < length stack); Some (stack[sp := literal_of instr], sp + 1) }
            | OP_END \<Rightarrow> None
            | _ \<Rightarrow> switch_binary order x stack sp);
          guard (i + 1 < 2 ^ 31);
          switch_loop order (i + 1) rest stack sp }"

definition switch_dispatch :: "pop_order \<Rightarrow> i32 list \<Rightarrow> i32 list \<Rightarrow> i32 option" where
  "switch_dispatch order instructions stack =
     do { (stack, _) \<leftarrow> switch_loop order 0 instructions stack 0;
          guard (stack \<noteq> []);
          Some (stack ! 0) }"

subsection \<open>Token threading\<close>

text \<open>sp[i] for a pointer sp into the stack, at an index that may lie outside.\<close>

definition cell :: "i32 list \<Rightarrow> int \<Rightarrow> i32 option" where
  "cell stack i = (if 0 \<le> i \<and> i < int (length stack) then Some (stack ! nat i) else None)"

definition set_cell :: "i32 list \<Rightarrow> int \<Rightarrow> i32 \<Rightarrow> i32 list option" where
  "set_cell stack i v = (if 0 \<le> i \<and> i < int (length stack) then Some (stack[nat i := v]) else None)"

definition threaded_binary :: "opcode \<Rightarrow> i32 list \<Rightarrow> int \<Rightarrow> (i32 list \<times> int) option" where
  "threaded_binary x stack sp =
     do { a \<leftarrow> cell stack (sp + 1);
          b \<leftarrow> cell stack (sp + 2);
          r \<leftarrow> arith x a b;
          stack \<leftarrow> set_cell stack (sp + 2) r;
          Some (stack, sp + 1) }"

text \<open>The list is what is left of the instructions from ip on; running off its end is a fault.\<close>

fun token_loop :: "i32 list \<Rightarrow> i32 list \<Rightarrow> int \<Rightarrow> i32 option" where
  "token_loop [] stack sp = None"
| "token_loop (instr # rest) stack sp =
     do { x \<leftarrow> opcode_of instr;
          case x of
            OP_LITERAL \<Rightarrow> do { stack \<leftarrow> set_cell stack sp (literal_of instr); token_loop rest stack (sp - 1) }
          | OP_END \<Rightarrow> cell stack (sp + 1)
          | _ \<Rightarrow> do { (stack, sp) \<leftarrow> threaded_binary x stack sp; token_loop rest stack sp } }"

definition token_threaded :: "i32 list \<Rightarrow> i32 list \<Rightarrow> i32 option" where
  "token_threaded instructions stack = token_loop instructions stack (int (length instructions) - 1)"

subsection \<open>Direct threading\<close>

text \<open>The first pass: the addresses of the labels, and the literals in order.\<close>

fun resolve :: "nat \<Rightarrow> i32 list \<Rightarrow> i32 list \<Rightarrow> nat \<Rightarrow> opcode list \<Rightarrow> (opcode list \<times> i32 list \<times> nat) option" where
  "resolve i [] operands k targets = Some (targets, operands, k)"
| "resolve i (instr # rest) operands k targets =
     do { x \<leftarrow> opcode_of instr;
          let targets = targets @ [x];
          (operands, k) \<leftarrow>
            (if x = OP_LITERAL
             then do { guard (k < length operands); Some (operands[k := literal_of instr], k + 1) }
             else Some (operands, k));
          guard (i + 1 < 2 ^ 31);
          resolve (i + 1) rest operands k targets }"

fun direct_loop :: "opcode list \<Rightarrow> i32 list \<Rightarrow> nat \<Rightarrow> i32 list \<Rightarrow> int \<Rightarrow> i32 option" where
  "direct_loop [] operands k stack sp = None"
| "direct_loop (x # rest) operands k stack sp =
     (case x of
        OP_LITERAL \<Rightarrow> do { guard (k < length operands); stack \<leftarrow> set_cell stack sp (operands ! k);
                           direct_loop rest operands (k + 1) stack (sp - 1) }
      | OP_END \<Rightarrow> cell stack (sp + 1)
      | _ \<Rightarrow> do { (stack, sp) \<leftarrow> threaded_binary x stack sp; direct_loop rest operands k stack sp })"

definition direct_threaded :: "i32 list \<Rightarrow> i32 list \<Rightarrow> i32 list \<Rightarrow> i32 option" where
  "direct_threaded instructions stack operands =
     do { (targets, operands, k) \<leftarrow> resolve 0 instructions operands 0 [];
          direct_loop targets operands 0 stack (int (length instructions) - 1) }"

section \<open>The reference machine\<close>

text \<open>One stack as a list, the top first; expressions and their code.\<close>

fun exec_op :: "opcode \<Rightarrow> i32 \<Rightarrow> i32 list \<Rightarrow> i32 list option" where
  "exec_op OP_LITERAL l S = Some (l # S)"
| "exec_op OP_END l S = None"
| "exec_op x l (a # b # S) = do { r \<leftarrow> arith x a b; Some (r # S) }"
| "exec_op x l S = None"

fun exec :: "i32 list \<Rightarrow> i32 list \<Rightarrow> i32 list option" where
  "exec [] S = Some S"
| "exec (instr # rest) S =
     do { x \<leftarrow> opcode_of instr; S \<leftarrow> exec_op x (literal_of instr) S; exec rest S }"

datatype expr = Lit i32 | Bin opcode expr expr

fun expr_ok :: "expr \<Rightarrow> bool" where
  "expr_ok (Lit a) \<longleftrightarrow> a < 2 ^ 24"
| "expr_ok (Bin x l r) \<longleftrightarrow> x \<noteq> OP_LITERAL \<and> x \<noteq> OP_END \<and> expr_ok l \<and> expr_ok r"

fun eval_expr :: "expr \<Rightarrow> i32 option" where
  "eval_expr (Lit a) = Some a"
| "eval_expr (Bin x l r) = do { b \<leftarrow> eval_expr r; a \<leftarrow> eval_expr l; arith x a b }"

text \<open>The left operand is on top of the right one, so it is pushed last.\<close>

fun code_of :: "expr \<Rightarrow> i32 list" where
  "code_of (Lit a) = [make_instruction OP_LITERAL a]"
| "code_of (Bin x l r) = code_of r @ code_of l @ [make_instruction x 0]"

text \<open>
  The threaded machines keep the stack at the upper end of the array: its top is at sp + 1,
  and n is where it began.
\<close>

definition stack_at :: "i32 list \<Rightarrow> int \<Rightarrow> nat \<Rightarrow> i32 list \<Rightarrow> bool" where
  "stack_at st sp n S \<longleftrightarrow> n \<le> length st \<and> sp + 1 + int (length S) = int n \<and> - 1 \<le> sp \<and>
     take (length S) (drop (nat (sp + 1)) st) = S"

text \<open>The operands the first pass stores are the literals of the code, in its order.\<close>

fun literals :: "i32 list \<Rightarrow> i32 list" where
  "literals [] = []"
| "literals (instr # rest) = (if opcode_of instr = Some OP_LITERAL then literal_of instr # literals rest else literals rest)"

definition sample_expr :: expr where
  "sample_expr = Bin OP_MUL (Lit 12) (Bin OP_SUB (Lit 11) (Lit 10))"

section \<open>Instructions\<close>

lemma literal_small:
  fixes a :: i32
  assumes "a < 2 ^ 24"
  shows "signed_drop_bit 24 a = 0" "literal_of a = a"
proof -
  have u: "uint a < 2 ^ 24" using assms by (simp add: word_less_def)
  have "- (2 ^ 31) \<le> uint a" by (rule order_trans [of _ 0]) simp_all
  then have s: "sint a = uint a" using u by (simp add: sint_uint signed_take_bit_int_eq_self)
  have "sint (signed_drop_bit 24 a) = 0" using u by (simp add: sint_signed_drop_bit_eq s drop_bit_eq_div)
  then show "signed_drop_bit 24 a = 0" by (metis signed_0 signed_word_eqI)
  have "literal_of a = take_bit 24 a" by (simp add: literal_of_def take_bit_eq_mask mask_eq_exp_minus_1)
  also have "\<dots> = a"
    using u by (intro unsigned_word_eqI [where 'a = int]) (simp add: unsigned_take_bit_eq take_bit_int_eq_self)
  finally show "literal_of a = a" .
qed

lemma opcode_make: "(x = OP_LITERAL \<longrightarrow> a < 2 ^ 24) \<Longrightarrow> opcode_of (make_instruction x a) = Some x"
  using literal_small(1) [of a] by (cases x) (auto simp: opcode_of_def make_instruction_def opcode_value_def Let_def)

lemma literal_make: "a < 2 ^ 24 \<Longrightarrow> literal_of (make_instruction OP_LITERAL a) = a"
  using literal_small(2) [of a] by (simp add: make_instruction_def opcode_value_def)

section \<open>Every interpreter implements the reference machine\<close>

lemma exec_append: "exec (p @ q) S = do { S \<leftarrow> exec p S; exec q S }"
  by (induction p arbitrary: S) (auto split: bind_splits)

lemma code_exec: "expr_ok e \<Longrightarrow> exec (code_of e) S = do { v \<leftarrow> eval_expr e; Some (v # S) }"
proof (induction e arbitrary: S)
  case (Lit a)
  then show ?case by (simp add: opcode_make literal_make)
next
  case (Bin x l r)
  have "exec [make_instruction x 0] (a # b # S) = do { v \<leftarrow> arith x a b; Some (v # S) }" for a b
    using Bin.prems by (cases x) (simp_all add: opcode_make)
  then show ?case using Bin by (simp add: exec_append del: exec.simps)
qed

lemma exec_op_binary:
  assumes "exec_op x l S = Some S'" "x \<noteq> OP_LITERAL"
  obtains a b T v where "S = a # b # T" "arith x a b = Some v" "S' = v # T" "x \<noteq> OP_END"
  using assms by (cases "(x, l, S)" rule: exec_op.cases) (auto simp: bind_eq_Some_conv)

lemma switch_step:
  assumes "exec_op x (literal_of instr) S = Some S'" "take (length S) st = rev S" "length S < length st"
  obtains st' where
    "(case x of OP_LITERAL \<Rightarrow> do { guard (length S < length st); Some (st[length S := literal_of instr], length S + 1) }
       | OP_END \<Rightarrow> None | _ \<Rightarrow> switch_binary LeftFirst x st (length S)) = Some (st', length S')"
    "take (length S') st' = rev S'" "length st' = length st" "length S' \<le> length S + 1"
proof (cases "x = OP_LITERAL")
  case True
  then have S': "S' = literal_of instr # S" using assms(1) by simp
  show ?thesis
    by (rule that [of "st[length S := literal_of instr]"])
      (use assms(2,3) True S' in \<open>simp_all add: take_Suc_conv_app_nth\<close>)
next
  case False
  obtain a b T v where e: "S = a # b # T" "arith x a b = Some v" "S' = v # T" "x \<noteq> OP_END"
    by (rule exec_op_binary [OF assms(1) False])
  have nth: "st ! i = rev S ! i" if "i < length S" for i
    using assms(2) that by (metis nth_take)
  have "st ! (length T + 1) = a" "st ! length T = b"
    using nth [of "length T + 1"] nth [of "length T"] by (simp_all add: e(1) nth_append)
  then have r: "switch_binary LeftFirst x st (length S) = Some (st[length T := v], length S')"
    using e assms(3) by (simp add: switch_binary_def)
  have "take (length T) st = take (length T) (take (length S) st)" using e(1) by (simp add: min_def)
  also have "\<dots> = rev T" unfolding assms(2) by (simp add: e(1))
  finally have "take (length T) st = rev T" .
  then have "take (length S') (st[length T := v]) = rev S'"
    using e(1,3) assms(3) by (simp add: take_Suc_conv_app_nth)
  then show ?thesis using that [of "st[length T := v]"] r e False by (cases x) simp_all
qed

lemma switch_loop_exec:
  assumes "exec p S = Some S'" "take (length S) st = rev S" "length S + length p \<le> length st" "i + length p < 2 ^ 31"
  shows "\<exists>st'. switch_loop LeftFirst i p st (length S) = Some (st', length S') \<and> take (length S') st' = rev S' \<and> length st' = length st"
  using assms
proof (induction p arbitrary: i S st)
  case (Cons instr p)
  obtain x T where x: "opcode_of instr = Some x" "exec_op x (literal_of instr) S = Some T" "exec p T = Some S'"
    using Cons.prems(1) by (auto simp: bind_eq_Some_conv)
  have len: "length S < length st" using Cons.prems(3) by simp
  obtain st' where st': "(case x of OP_LITERAL \<Rightarrow> do { guard (length S < length st); Some (st[length S := literal_of instr], length S + 1) }
       | OP_END \<Rightarrow> None | _ \<Rightarrow> switch_binary LeftFirst x st (length S)) = Some (st', length T)"
    "take (length T) st' = rev T" "length st' = length st" "length T \<le> length S + 1"
    by (rule switch_step [OF x(2) Cons.prems(2) len])
  have "length T + length p \<le> length st'" "i + 1 + length p < 2 ^ 31" using st'(3,4) Cons.prems(3,4) by simp_all
  then show ?case using Cons.IH [OF x(3) st'(2), of "i + 1"] x(1) st'(1,3) by simp
qed simp

lemma stack_at_cell:
  assumes "stack_at st sp n S" "i < length S"
  shows "cell st (sp + 1 + int i) = Some (S ! i)"
proof -
  have s: "n \<le> length st" "sp + 1 + int (length S) = int n" "- 1 \<le> sp" "take (length S) (drop (nat (sp + 1)) st) = S"
    using assms(1) by (auto simp: stack_at_def)
  have "S ! i = drop (nat (sp + 1)) st ! i" using s(4) assms(2) by (metis nth_take)
  also have "\<dots> = st ! (nat (sp + 1) + i)" using s assms(2) by (intro nth_drop) simp
  also have "nat (sp + 1) + i = nat (sp + 1 + int i)" using s(3) by simp
  finally show ?thesis using s assms(2) by (simp add: cell_def)
qed

lemma stack_at_push:
  assumes "stack_at st sp n S" "0 \<le> sp"
  shows "set_cell st sp v = Some (st[nat sp := v])" "stack_at (st[nat sp := v]) (sp - 1) n (v # S)"
proof -
  have s: "n \<le> length st" "sp + 1 + int (length S) = int n" "take (length S) (drop (nat (sp + 1)) st) = S"
    using assms(1) by (auto simp: stack_at_def)
  have lt: "nat sp < length st" using s assms(2) by linarith
  then show "set_cell st sp v = Some (st[nat sp := v])" using assms(2) by (simp add: set_cell_def)
  have "drop (nat sp) (st[nat sp := v]) = v # drop (Suc (nat sp)) st"
    using lt by (simp add: Cons_nth_drop_Suc [symmetric])
  moreover have "Suc (nat sp) = nat (sp + 1)" using assms(2) by simp
  ultimately show "stack_at (st[nat sp := v]) (sp - 1) n (v # S)"
    using s assms(2) by (simp add: stack_at_def)
qed

lemma stack_at_binary:
  assumes st: "stack_at st sp n (a # b # T)" and v: "arith x a b = Some v"
  obtains st' where "threaded_binary x st sp = Some (st', sp + 1)" "stack_at st' (sp + 1) n (v # T)"
proof -
  have s: "n \<le> length st" "sp + 1 + int (length (a # b # T)) = int n" "- 1 \<le> sp"
    "take (length (a # b # T)) (drop (nat (sp + 1)) st) = a # b # T"
    using st by (auto simp: stack_at_def)
  have c: "cell st (sp + 1) = Some a" "cell st (sp + 2) = Some b"
    using stack_at_cell [OF st, of 0] stack_at_cell [OF st, of 1] by (simp_all add: add.commute)
  have "drop 2 (take (length (a # b # T)) (drop (nat (sp + 1)) st)) = T" unfolding s(4) by simp
  moreover have "nat (sp + 1) + 2 = nat (sp + 3)" using s(3) by simp
  ultimately have T: "take (length T) (drop (nat (sp + 3)) st) = T"
    by (simp add: drop_take add.commute)
  have st2: "stack_at st (sp + 2) n T" using s(1-3) T by (simp add: stack_at_def add.commute)
  have "stack_at (st[nat (sp + 2) := v]) (sp + 1) n (v # T)" "set_cell st (sp + 2) v = Some (st[nat (sp + 2) := v])"
    using stack_at_push [OF st2, of v] s(3) by (simp_all add: add.commute)
  then show ?thesis using that c v by (simp add: threaded_binary_def)
qed

lemma threaded_step:
  assumes "exec_op x l S = Some S'" "stack_at st sp n S" "x = OP_LITERAL \<Longrightarrow> 0 \<le> sp"
  obtains st' sp' where
    "(if x = OP_LITERAL then do { st \<leftarrow> set_cell st sp l; Some (st, sp - 1) } else threaded_binary x st sp) = Some (st', sp')"
    "stack_at st' sp' n S'" "sp - 1 \<le> sp'" "x \<noteq> OP_END"
proof (cases "x = OP_LITERAL")
  case True
  then show ?thesis
    using that [of "st[nat sp := l]" "sp - 1"] assms(1) stack_at_push [OF assms(2), of l] assms(3) by simp
next
  case False
  obtain a b T v where e: "S = a # b # T" "arith x a b = Some v" "S' = v # T" "x \<noteq> OP_END"
    by (rule exec_op_binary [OF assms(1) False])
  obtain st' where "threaded_binary x st sp = Some (st', sp + 1)" "stack_at st' (sp + 1) n (v # T)"
    by (rule stack_at_binary [OF assms(2) [unfolded e(1)] e(2)])
  then show ?thesis using that [of st' "sp + 1"] e False by simp
qed

lemma token_step:
  assumes "opcode_of instr = Some x"
    "(if x = OP_LITERAL then do { st \<leftarrow> set_cell st sp (literal_of instr); Some (st, sp - 1) } else threaded_binary x st sp) = Some (st', sp')"
    "x \<noteq> OP_END"
  shows "token_loop (instr # rest) st sp = token_loop rest st' sp'"
  using assms by (cases x) (auto simp: bind_eq_Some_conv)

lemma direct_step:
  assumes "(if x = OP_LITERAL then do { st \<leftarrow> set_cell st sp (ops ! k); Some (st, sp - 1) } else threaded_binary x st sp) = Some (st', sp')"
    "x \<noteq> OP_END" "x = OP_LITERAL \<Longrightarrow> k < length ops"
  shows "direct_loop (x # rest) ops k st sp = direct_loop rest ops (if x = OP_LITERAL then k + 1 else k) st' sp'"
  using assms by (cases x) (auto simp: bind_eq_Some_conv)

lemma token_loop_exec:
  assumes "exec p S = Some [v]" "stack_at st sp n S" "int (length p) \<le> sp + 1"
  shows "token_loop (p @ [make_instruction OP_END 0]) st sp = Some v"
  using assms
proof (induction p arbitrary: S st sp)
  case Nil
  then show ?case using stack_at_cell [OF Nil.prems(2), of 0] by (simp add: opcode_make)
next
  case (Cons instr p)
  obtain x T where x: "opcode_of instr = Some x" "exec_op x (literal_of instr) S = Some T" "exec p T = Some [v]"
    using Cons.prems(1) by (auto simp: bind_eq_Some_conv)
  have "0 \<le> sp" using Cons.prems(3) by simp
  then obtain st' sp' where s: "(if x = OP_LITERAL then do { st \<leftarrow> set_cell st sp (literal_of instr); Some (st, sp - 1) } else threaded_binary x st sp) = Some (st', sp')"
    "stack_at st' sp' n T" "sp - 1 \<le> sp'" "x \<noteq> OP_END"
    by (rule threaded_step [OF x(2) Cons.prems(2)])
  have "int (length p) \<le> sp' + 1" using s(3) Cons.prems(3) by simp
  then show ?case using Cons.IH [OF x(3) s(2)] token_step [OF x(1) s(1,4)] by simp
qed

lemma resolve_some:
  assumes "list_all (\<lambda>instr. opcode_of instr \<noteq> None) p" "k + length (literals p) \<le> length ops" "i + length p < 2 ^ 31"
  shows "\<exists>ops'. resolve i p ops k ts = Some (ts @ map (the \<circ> opcode_of) p, ops', k + length (literals p)) \<and>
    take (k + length (literals p)) ops' = take k ops @ literals p \<and> length ops' = length ops"
  using assms
proof (induction p arbitrary: i ops k ts)
  case (Cons instr p)
  obtain x where x: "opcode_of instr = Some x" using Cons.prems(1) by auto
  have p: "list_all (\<lambda>instr. opcode_of instr \<noteq> None) p" using Cons.prems(1) by simp
  have i: "i + 1 + length p < 2 ^ 31" using Cons.prems(3) by simp
  show ?case
  proof (cases "x = OP_LITERAL")
    case True
    have "take (k + 1) (ops[k := literal_of instr]) = take k ops @ [literal_of instr]"
      using Cons.prems(2) x True by (simp add: take_Suc_conv_app_nth)
    moreover have "k + 1 + length (literals p) \<le> length (ops[k := literal_of instr])"
      using Cons.prems(2) x True by simp
    ultimately show ?thesis
      using Cons.IH [OF p, of "k + 1" "ops[k := literal_of instr]" "i + 1" "ts @ [x]"] Cons.prems(2) i x True by simp
  next
    case False
    then have "k + length (literals p) \<le> length ops" using Cons.prems(2) x by simp
    then show ?thesis using Cons.IH [OF p, of k ops "i + 1" "ts @ [x]"] i x False by simp
  qed
qed simp

lemma direct_loop_exec:
  assumes "exec p S = Some [v]" "stack_at st sp n S" "int (length p) \<le> sp + 1"
    "take (length (literals p)) (drop k ops) = literals p" "k + length (literals p) \<le> length ops"
  shows "direct_loop (map (the \<circ> opcode_of) p @ [OP_END]) ops k st sp = Some v"
  using assms
proof (induction p arbitrary: S st sp k)
  case Nil
  then show ?case using stack_at_cell [OF Nil.prems(2), of 0] by simp
next
  case (Cons instr p)
  obtain x T where x: "opcode_of instr = Some x" "exec_op x (literal_of instr) S = Some T" "exec p T = Some [v]"
    using Cons.prems(1) by (auto simp: bind_eq_Some_conv)
  have "0 \<le> sp" using Cons.prems(3) by simp
  then obtain st' sp' where s: "(if x = OP_LITERAL then do { st \<leftarrow> set_cell st sp (literal_of instr); Some (st, sp - 1) } else threaded_binary x st sp) = Some (st', sp')"
    "stack_at st' sp' n T" "sp - 1 \<le> sp'" "x \<noteq> OP_END"
    by (rule threaded_step [OF x(2) Cons.prems(2)])
  define k' where "k' = (if x = OP_LITERAL then k + 1 else k)"
  have lit: "ops ! k = literal_of instr" "k < length ops" if "x = OP_LITERAL"
    using Cons.prems(4,5) x(1) that by (simp_all add: Cons_nth_drop_Suc [symmetric])
  have "(if x = OP_LITERAL then do { st \<leftarrow> set_cell st sp (ops ! k); Some (st, sp - 1) } else threaded_binary x st sp) = Some (st', sp')"
    using s(1) lit(1) by (auto split: if_splits)
  then have "direct_loop (x # map (the \<circ> opcode_of) p @ [OP_END]) ops k st sp
      = direct_loop (map (the \<circ> opcode_of) p @ [OP_END]) ops k' st' sp'"
    unfolding k'_def using s(4) lit(2) by (rule direct_step)
  moreover have "take (length (literals p)) (drop k' ops) = literals p" "k' + length (literals p) \<le> length ops"
    using Cons.prems(4,5) x(1) lit(2) by (auto simp: k'_def Cons_nth_drop_Suc [symmetric])
  moreover have "int (length p) \<le> sp' + 1" using s(3) Cons.prems(3) by simp
  ultimately show ?case using Cons.IH [OF x(3) s(2)] x(1) by (simp add: comp_def del: direct_loop.simps)
qed

lemma code_known:
  assumes "expr_ok e"
  shows "list_all (\<lambda>instr. opcode_of instr \<noteq> None) (code_of e)"
  using assms by (induction e) (auto simp: opcode_make)

lemma literals_append: "literals (p @ q) = literals p @ literals q"
  by (induction p) simp_all

lemma literals_length: "length (literals p) \<le> length p"
  by (induction p) simp_all

lemma switch_stuck:
  assumes "opcode_of instr = Some x" "x = OP_END \<or> x \<noteq> OP_LITERAL \<and> order = Unsequenced"
  shows "switch_loop order i (p @ instr # r) st sp = None"
  using assms by (induction p arbitrary: i st sp) (auto simp: switch_binary_def split: bind_splits opcode.splits)

lemma switch_unsequenced:
  assumes "expr_ok e" "stack \<noteq> []"
  shows "switch_dispatch Unsequenced (code_of e) stack = (case e of Lit a \<Rightarrow> Some a | Bin _ _ _ \<Rightarrow> None)"
proof (cases e)
  case (Lit a)
  then show ?thesis using assms by (cases stack) (simp_all add: switch_dispatch_def opcode_make literal_make)
next
  case (Bin x l r)
  then have "switch_loop Unsequenced 0 ((code_of r @ code_of l) @ make_instruction x 0 # []) stack 0 = None"
    using assms(1) by (intro switch_stuck [of _ x]) (simp_all add: opcode_make)
  then show ?thesis using Bin by (simp add: switch_dispatch_def)
qed

section \<open>Properties\<close>



text \<open>
  The switch machine has no case for OP_END: on an instruction sequence that contains one it
  never returns a value, the assertion of its default branch (or an earlier fault) stops it.
  The threaded machines need that very instruction: without it they run off the end of the code.
\<close>
theorem op_end_is_asymmetric:
  assumes "opcode_of instr = Some OP_END" "list_all (\<lambda>i. opcode_of i \<noteq> Some OP_END) q"
  shows "switch_dispatch order (p @ instr # r) stack = None \<and> token_threaded q stack = None"
proof -
  have "switch_loop order i (p @ instr # r) st sp = None" for i st sp
    using switch_stuck [OF assms(1)] by simp
  moreover have "token_loop q st sp = None" for st sp
    using assms(2) by (induction q arbitrary: st sp) (auto split: bind_splits opcode.splits)
  ultimately show ?thesis by (simp add: switch_dispatch_def token_threaded_def)
qed

theorem op_end_is_asymmetric_witness:
  "switch_dispatch LeftFirst ([make_instruction OP_LITERAL 10] @ make_instruction OP_END 0 # []) [0, 0] = None \<and>
   token_threaded [make_instruction OP_LITERAL 10] [0, 0] = None"
  by (rule op_end_is_asymmetric) (simp_all add: opcode_make)

end
