(* ===== verification/Vectors.thy ===== *)
theory Vectors
  imports Prelude
begin

unbundle bit_operations_syntax

text \<open>
  The vector and bit-scan operations of the compiler that several components use
  (\_mm\_movemask, \_mm\_cmpeq, \_\_builtin\_clz, \_\_builtin\_ctz), on vectors as lists of
  bytes, the lowest first, and what the scans return on a mask whose bits are known.
\<close>

section \<open>Operations\<close>

definition movemask :: "8 word list \<Rightarrow> 32 word" where
  "movemask x = horner_sum of_bool 2 (map (\<lambda>b. bit b 7) x)"

definition cmpeq :: "8 word list \<Rightarrow> 8 word list \<Rightarrow> 8 word list" where
  "cmpeq x y = map2 (\<lambda>a b. if a = b then 0xff else 0) x y"

text \<open>The comparison of signed bytes.\<close>

definition cmpgt :: "8 word list \<Rightarrow> 8 word list \<Rightarrow> 8 word list" where
  "cmpgt x y = map2 (\<lambda>a b. if sint b < sint a then 0xff else 0) x y"

fun bit_length :: "nat \<Rightarrow> nat" where
  "bit_length n = (if n = 0 then 0 else Suc (bit_length (n div 2)))"

declare bit_length.simps [simp del]

text \<open>The count of leading zeros of a 32-bit value, undefined for zero.\<close>

definition builtin_clz :: "32 word \<Rightarrow> nat option" where
  "builtin_clz w = (if w = 0 then None else Some (32 - bit_length (unat w)))"

fun low_zeros :: "nat \<Rightarrow> nat" where
  "low_zeros n = (if n = 0 \<or> odd n then 0 else Suc (low_zeros (n div 2)))"

declare low_zeros.simps [simp del]

text \<open>The count of trailing zeros, undefined for zero as well.\<close>

definition builtin_ctz :: "32 word \<Rightarrow> nat option" where
  "builtin_ctz w = (if w = 0 then None else Some (low_zeros (unat w)))"

section \<open>Scans\<close>

lemma bit_length_top:
  assumes "2 ^ k \<le> n" "n < 2 ^ Suc k"
  shows "bit_length n = Suc k"
  using assms
proof (induction k arbitrary: n)
  case 0
  then have "n = 1" by simp
  then show ?case by (simp add: bit_length.simps)
next
  case (Suc k)
  have "bit_length (n div 2) = Suc k" using Suc.prems by (intro Suc.IH) auto
  moreover have "n \<noteq> 0" using Suc.prems(1) by (cases n) simp_all
  ultimately show ?case by (subst bit_length.simps) simp
qed

lemma clz_top:
  fixes w :: "32 word"
  assumes "bit w k" "\<And>j. k < j \<Longrightarrow> \<not> bit w j"
  shows "builtin_clz w = Some (31 - k)"
proof -
  have "take_bit (Suc k) w = w"
    by (rule bit_word_eqI) (metis assms(2) bit_take_bit_iff not_less_eq)
  then have "take_bit (Suc k) (unat w) = unat w" by (metis unsigned_take_bit_eq)
  then have lt: "unat w < 2 ^ Suc k" by (metis take_bit_nat_less_exp)
  have "bit (unat w) k" using assms(1) by (simp add: bit_unsigned_iff)
  then have ge: "2 ^ k \<le> unat w" by (metis bit_iff_odd div_less even_zero not_le)
  have "w \<noteq> 0" using assms(1) by auto
  then show ?thesis using bit_length_top [OF ge lt] by (simp add: builtin_clz_def)
qed

lemma bit_movemask:
  assumes "length x \<le> 32"
  shows "bit (movemask x) n \<longleftrightarrow> n < length x \<and> bit (x ! n) 7"
  using assms by (auto simp: movemask_def bit_horner_sum_bit_iff)

lemma byte_negative: "bit (b :: 8 word) 7 \<longleftrightarrow> 128 \<le> unat b"
proof -
  have "unat b < 256" using unsigned_less [of b, where 'a = nat] by simp
  have "bit b 7 \<longleftrightarrow> bit (unat b) 7" by (simp add: bit_unsigned_iff)
  then have "bit b 7 \<longleftrightarrow> odd (unat b div 128)" by (simp add: bit_iff_odd)
  moreover have "unat b div 128 = (if unat b < 128 then 0 else 1)"
    using \<open>unat b < 256\<close> by (auto intro: div_nat_eqI)
  ultimately show ?thesis by simp
qed

lemma sint_byte: "sint (c :: 8 word) = (if unat c < 128 then int (unat c) else int (unat c) - 256)"
proof -
  have m: "(u + 128) mod 256 = (if u < 128 then u + 128 else u - 128)" if "0 \<le> u" "u < 256" for u :: int
  proof (cases "u < 128")
    case False
    have "(u - 128 + 256) mod 256 = u - 128" using that False by (simp only: mod_add_self2) simp
    then show ?thesis using False by (simp add: add.commute)
  qed (use that in simp)
  have "sint c = (uint c + 128) mod 256 - 128"
    by (simp add: sint_uint signed_take_bit_eq_take_bit_shift take_bit_eq_mod)
  moreover have "uint c < 256" using unsigned_less [of c, where 'a = int] by simp
  moreover have "unat c < 128 \<longleftrightarrow> uint c < 128" using of_nat_less_iff [of "unat c" 128, where 'a = int] by simp
  ultimately show ?thesis using m [of "uint c"] by simp
qed

lemma low_zeros_low:
  assumes "bit n k" "\<And>j. j < k \<Longrightarrow> \<not> bit n j"
  shows "low_zeros n = k"
  using assms
proof (induction k arbitrary: n)
  case 0
  then show ?case by (simp add: low_zeros.simps bit_0)
next
  case (Suc k)
  have "low_zeros (n div 2) = k"
    using Suc.prems by (intro Suc.IH) (auto simp: bit_Suc [symmetric])
  moreover have "even n" using Suc.prems(2) [of 0] by (simp add: bit_0)
  moreover have "n \<noteq> 0" by (rule notI) (use Suc.prems(1) in simp)
  ultimately show ?case by (subst low_zeros.simps) simp
qed

lemma ctz_low:
  fixes w :: "32 word"
  assumes "bit w k" "\<And>j. j < k \<Longrightarrow> \<not> bit w j"
  shows "builtin_ctz w = Some k"
proof -
  have "low_zeros (unat w) = k"
    using assms by (intro low_zeros_low) (simp_all add: bit_unsigned_iff)
  moreover have "w \<noteq> 0" using assms(1) by auto
  ultimately show ?thesis by (simp add: builtin_ctz_def)
qed

lemma bit_cmpeq_mask:
  assumes "length x \<le> 32" "length y = length x"
  shows "bit (movemask (cmpeq x y)) n \<longleftrightarrow> n < length x \<and> x ! n = y ! n"
  using assms by (auto simp: bit_movemask cmpeq_def byte_negative split: if_splits)

end
