(* ===== verification/HexDigit.thy ===== *)
theory HexDigit
  imports Vectors
begin

unbundle bit_operations_syntax

text \<open>
  Hexadecimal digits and strings (include/hexdigit.hh): the value of one digit by comparison and
  by one 64-bit vector subtraction, of four digits by a 256-bit subtraction, and the three
  decoders of strings built on them.  Vectors are lists of bytes, the lowest first.

  The value of hexdigit\_ord\_nonsimd for a character that is no digit is 0xff.  A read past the
  terminating zero of a string, the bit scan of zero and an int that overflows are faults.
\<close>

section \<open>Vector operations\<close>

definition sub_epi8 :: "8 word list \<Rightarrow> 8 word list \<Rightarrow> 8 word list" where
  "sub_epi8 x y = map2 (-) x y"

section \<open>One digit\<close>

definition hexdigit_ord :: "8 word \<Rightarrow> 8 word option" where
  "hexdigit_ord ch =
     (let bs = [0x00, 0x30 - 1, 0x39, 0x41 - 1, 0x46, 0x61 - 1, 0x66, 0x7f];
          chs = replicate 8 ch;
          x = sub_epi8 bs chs
      in do { clz \<leftarrow> builtin_clz (movemask x);
              let bits = 32 - clz;
              let t = ((10 AND (if bits = 2 then 0xff00 else 0xff)) - 1 :: int);
              if (bits AND 9) \<noteq> 0 then Some 0xff
              else do { guard (1 \<le> bits);
                        Some (word_of_int (t - uint (x ! (bits - 1)))) } })"

definition hexdigit_ord_nonsimd :: "8 word \<Rightarrow> 8 word" where
  "hexdigit_ord_nonsimd ch =
     (let v = sint ch - 0x30 in if 0 \<le> v \<and> v \<le> 0x39 - 0x30 then word_of_int v else
      let v = sint ch - 0x41 in if 0 \<le> v \<and> v \<le> 0x46 - 0x41 then word_of_int (v + 10) else
      let v = sint ch - 0x61 in if 0 \<le> v \<and> v \<le> 0x66 - 0x61 then word_of_int (v + 10) else 0xff)"

section \<open>Four digits\<close>

text \<open>
  One of the four steps: the outer option is a fault, the inner one a false returned.  The
  permutation brings lane i down, the shift brings byte bits + 1 of it to the bottom.
\<close>

definition process_ch :: "8 word list \<Rightarrow> 32 word \<Rightarrow> nat \<Rightarrow> int option option" where
  "process_ch x msk i =
     do { clz \<leftarrow> builtin_clz (msk AND 0xff);
          guard (clz \<le> 30);
          let bits = 30 - clz;
          if (bits AND 1) = 0 then Some None
          else do {
            let t = ((10 AND (if bits = 1 then 0xff00 else 0xff)) - 1 :: int);
            let delta = sint ((take 8 (drop (8 * i) x) @ replicate 8 0) ! (bits + 1));
            Some (Some (t - delta)) } }"

definition hexdigit_ord4 :: "8 word \<Rightarrow> 8 word \<Rightarrow> 8 word \<Rightarrow> 8 word \<Rightarrow> (8 word \<times> 8 word) option option" where
  "hexdigit_ord4 ch0 ch1 ch2 ch3 =
     (let bs = concat (replicate 4 [0x00, 0x00, 0x2f, 0x39, 0x40, 0x46, 0x60, 0x66]);
          chs = concat (map (\<lambda>ch. [1, 1, ch, ch, ch, ch, ch, ch]) [ch0, ch1, ch2, ch3]);
          x = sub_epi8 bs chs;
          msk = movemask x
      in do { r \<leftarrow> process_ch x msk 0;
       (case r of None \<Rightarrow> Some None | Some d0 \<Rightarrow> do { let ret0 = word_of_int (d0 * 16); let msk = signed_drop_bit 8 msk;
              r \<leftarrow> process_ch x msk 1;
       (case r of None \<Rightarrow> Some None | Some d1 \<Rightarrow> do { let ret0 = ret0 + word_of_int d1; let msk = signed_drop_bit 8 msk;
              r \<leftarrow> process_ch x msk 2;
       (case r of None \<Rightarrow> Some None | Some d2 \<Rightarrow> do { let ret1 = word_of_int (d2 * 16); let msk = signed_drop_bit 8 msk;
              r \<leftarrow> process_ch x msk 3;
       (case r of None \<Rightarrow> Some None | Some d3 \<Rightarrow> Some (Some (ret0, ret1 + word_of_int d3))) }) }) }) })"

section \<open>Strings\<close>

text \<open>s[i] of a std::string, the terminator included.\<close>

definition str_at :: "8 word list \<Rightarrow> nat \<Rightarrow> 8 word option" where
  "str_at s i = (if i < length s then Some (s ! i) else if i = length s then Some 0 else None)"

text \<open>An int loop counter that is advanced by k.\<close>

definition int_step :: "nat \<Rightarrow> nat \<Rightarrow> nat option" where
  "int_step i k = (if i + k < 2 ^ 31 then Some (i + k) else None)"

text \<open>The loop of unhex0 and unhex1 over what is left of the string, at index i.\<close>

fun unhex_loop :: "(8 word \<Rightarrow> 8 word option) \<Rightarrow> 8 word list \<Rightarrow> nat \<Rightarrow> 8 word list \<Rightarrow> 8 word list option" where
  "unhex_loop digit (a # b # rest) i ret =
     do { ch0 \<leftarrow> digit a;
          if (ch0 AND 0xff) = 0xff then Some []
          else do { ch1 \<leftarrow> digit b;
                    if (ch1 AND 0xff) = 0xff then Some []
                    else do { i \<leftarrow> int_step i 2;
                              unhex_loop digit rest i (ret @ [push_bit 4 ch0 + ch1]) } } }"
| "unhex_loop digit rest i ret = Some ret"

definition unhex0 :: "8 word list \<Rightarrow> 8 word list option" where
  "unhex0 s = (if length s mod 2 = 1 then Some [] else unhex_loop (\<lambda>c. Some (hexdigit_ord_nonsimd c)) s 0 [])"

definition unhex1 :: "8 word list \<Rightarrow> 8 word list option" where
  "unhex1 s = (if length s mod 2 = 1 then Some [] else unhex_loop hexdigit_ord s 0 [])"

text \<open>
  The loop of unhex2 compares with the unsigned sz - 3.  Its value is the index it stops at and
  the bytes, or None for a return from inside the loop.
\<close>

function unhex2_loop :: "8 word list \<Rightarrow> nat \<Rightarrow> 8 word list \<Rightarrow> (nat \<times> 8 word list) option option" where
  "unhex2_loop s i ret =
     (if (of_nat i :: 64 word) < of_nat (length s) - 3
      then case (str_at s i, str_at s (i + 1), str_at s (i + 2), str_at s (i + 3)) of
             (Some c0, Some c1, Some c2, Some c3) \<Rightarrow>
               (case hexdigit_ord4 c0 c1 c2 c3 of
                  None \<Rightarrow> None
                | Some None \<Rightarrow> Some None
                | Some (Some (ch0, ch1)) \<Rightarrow>
                    (case int_step i 4 of None \<Rightarrow> None | Some i' \<Rightarrow> unhex2_loop s i' (ret @ [ch0, ch1])))
           | _ \<Rightarrow> None
      else Some (Some (i, ret)))"
  by pat_completeness auto

termination
  by (relation "measure (\<lambda>(s, i, _). length s + 4 - i)") (auto simp: str_at_def int_step_def split: if_splits)

declare unhex2_loop.simps [simp del]

definition unhex2 :: "8 word list \<Rightarrow> 8 word list option" where
  "unhex2 s =
     (if length s mod 2 = 1 then Some []
      else do { r \<leftarrow> unhex2_loop s 0 [];
                (case r of
                   None \<Rightarrow> Some []
                 | Some (i, ret) \<Rightarrow>
                     if i = length s then Some ret
                     else do { c0 \<leftarrow> str_at s i; c1 \<leftarrow> str_at s (i + 1);
                               r \<leftarrow> hexdigit_ord4 c0 c1 0x30 0x30;
                               (case r of Some (ch0, _) \<Rightarrow> Some (ret @ [ch0]) | None \<Rightarrow> Some []) }) })"

section \<open>Reference\<close>

text \<open>The value of a digit, and the digits of a byte.\<close>

definition digit_value :: "nat \<Rightarrow> nat option" where
  "digit_value c =
     (if 0x30 \<le> c \<and> c \<le> 0x39 then Some (c - 0x30)
      else if 0x41 \<le> c \<and> c \<le> 0x46 then Some (c - 0x41 + 10)
      else if 0x61 \<le> c \<and> c \<le> 0x66 then Some (c - 0x61 + 10)
      else None)"

definition hex_char :: "nat \<Rightarrow> 8 word" where
  "hex_char d = of_nat (if d < 10 then 0x30 + d else 0x41 + (d - 10))"

definition hex_of :: "8 word list \<Rightarrow> 8 word list" where
  "hex_of bs = concat (map (\<lambda>b. [hex_char (unat b div 16), hex_char (unat b mod 16)]) bs)"

text \<open>The windows of the eight bounds of hexdigit\_ord, and where the highest of them is.\<close>

definition ord_bounds :: "8 word list" where
  "ord_bounds = [0x00, 0x2f, 0x39, 0x40, 0x46, 0x60, 0x66, 0x7f]"

definition ord_top :: "nat \<Rightarrow> nat" where
  "ord_top n = (if n < 0x30 then 0 else if n < 0x3a then 1 else if n < 0x41 then 2 else if n < 0x47 then 3
     else if n < 0x61 then 4 else if n < 0x67 then 5 else if n < 0x80 then 6 else 7)"

definition lane :: "8 word \<Rightarrow> 8 word list" where
  "lane c = [- 1, - 1, 0x2f - c, 0x39 - c, 0x40 - c, 0x46 - c, 0x60 - c, 0x66 - c]"

definition lane_top :: "nat \<Rightarrow> nat" where
  "lane_top n = (if n < 0x30 then 1 else if n < 0x3a then 2 else if n < 0x41 then 3 else if n < 0x47 then 4
     else if n < 0x61 then 5 else if n < 0x67 then 6 else if n < 0xe7 then 7 else 1)"

text \<open>What a hexadecimal string denotes: two digits a byte, None for a string that is not one.\<close>

fun decode :: "8 word list \<Rightarrow> 8 word list option" where
  "decode [] = Some []"
| "decode [a] = None"
| "decode (a # b # rest) =
     do { d0 \<leftarrow> digit_value (unat a); d1 \<leftarrow> digit_value (unat b); bs \<leftarrow> decode rest;
          Some (of_nat (d0 * 16 + d1) # bs) }"

definition unhex2_end :: "8 word list \<Rightarrow> (nat \<times> 8 word list) option \<Rightarrow> 8 word list option" where
  "unhex2_end s r = (case r of
     None \<Rightarrow> Some []
   | Some (i, ret) \<Rightarrow>
       if i = length s then Some ret
       else do { c0 \<leftarrow> str_at s i; c1 \<leftarrow> str_at s (i + 1);
                 r \<leftarrow> hexdigit_ord4 c0 c1 0x30 0x30;
                 (case r of Some (ch0, _) \<Rightarrow> Some (ret @ [ch0]) | None \<Rightarrow> Some []) })"

section \<open>Windows\<close>

text \<open>A byte of a vector of bounds, less a character, is negative in a window of 128 above the bound.\<close>

lemma sub_negative:
  fixes b c :: "8 word"
  assumes "unat b < 128"
  shows "bit (b - c) 7 \<longleftrightarrow> unat b < unat c \<and> unat c \<le> unat b + 128"
proof -
  have "unat c < 256" using unsigned_less [of c, where 'a = nat] by simp
  then show ?thesis
    using assms by (auto simp: byte_negative unat_sub_if_size word_size)
qed

lemma nat_lt8: "(n :: nat) < 8 \<longleftrightarrow> n = 0 \<or> n = 1 \<or> n = 2 \<or> n = 3 \<or> n = 4 \<or> n = 5 \<or> n = 6 \<or> n = 7"
  by auto

section \<open>One digit\<close>

lemma nonsimd_value:
  "hexdigit_ord_nonsimd ch = (case digit_value (unat ch) of Some d \<Rightarrow> of_nat d | None \<Rightarrow> 0xff)"
proof -
  obtain n where n: "unat ch = n" "n < 256" using unsigned_less [of ch, where 'a = nat] by simp
  have "sint ch = (if n < 128 then int n else int n - 256)" unfolding sint_byte n(1) by simp
  then show ?thesis
    unfolding hexdigit_ord_nonsimd_def digit_value_def n(1) Let_def
    using n(2) by (auto simp: of_nat_diff)
qed

lemma bit_ord_mask:
  "bit (movemask (sub_epi8 ord_bounds (replicate 8 ch))) n \<longleftrightarrow>
    n < 8 \<and> unat (ord_bounds ! n) < unat ch \<and> unat ch \<le> unat (ord_bounds ! n) + 128"
proof -
  have "\<forall>n < 8. unat (ord_bounds ! n) < 128" by (simp add: nat_lt8 ord_bounds_def)
  then show ?thesis
    using sub_negative by (auto simp: bit_movemask sub_epi8_def ord_bounds_def)
qed

lemma ord_clz:
  assumes "ch \<noteq> 0"
  shows "builtin_clz (movemask (sub_epi8 ord_bounds (replicate 8 ch))) = Some (31 - ord_top (unat ch))"
proof (rule clz_top)
  have n: "0 < unat ch" "unat ch < 256" using assms unsigned_less [of ch, where 'a = nat] by (simp_all add: unat_gt_0)
  show "bit (movemask (sub_epi8 ord_bounds (replicate 8 ch))) (ord_top (unat ch))"
    unfolding bit_ord_mask using n by (simp add: ord_top_def ord_bounds_def)
  fix j assume "ord_top (unat ch) < j"
  then show "\<not> bit (movemask (sub_epi8 ord_bounds (replicate 8 ch))) j"
    unfolding bit_ord_mask nat_lt8 using n by (auto simp: ord_top_def ord_bounds_def split: if_splits)
qed

lemma word_of_int_diff_uint: "word_of_int (k - uint (w :: 'a::len word)) = (word_of_int k - w :: 'a word)"
  by (metis of_int_diff word_of_int_uint)

lemma ord_value:
  assumes "ch \<noteq> 0"
  shows "hexdigit_ord ch = Some (case digit_value (unat ch) of Some d \<Rightarrow> of_nat d | None \<Rightarrow> 0xff)"
proof -
  have b: "[0x00, 0x30 - 1, 0x39, 0x41 - 1, 0x46, 0x61 - 1, 0x66, 0x7f] = ord_bounds" by (simp add: ord_bounds_def)
  have x: "sub_epi8 ord_bounds (replicate 8 ch) ! k = ord_bounds ! k - ch" if "k < 8" for k
    using that by (simp add: sub_epi8_def ord_bounds_def)
  define n where "n = unat ch"
  then have n: "unat ch = n" "ch = of_nat n" "n < 256" using unsigned_less [of ch, where 'a = nat] by simp_all
  have k: "ord_top n < 8" by (simp add: ord_top_def)
  have two: "Suc (Suc 0) AND 9 = 0" by (simp flip: numeral_2_eq_2)
  show ?thesis
    unfolding hexdigit_ord_def b Let_def ord_clz [OF assms] bind.bind_lunit n(1)
    using x [OF k] n(3) two
    by (auto simp: ord_top_def digit_value_def word_of_int_diff_uint ord_bounds_def n(2) of_nat_diff simp del: word_of_int_uint)
qed

section \<open>Four digits\<close>

lemma bit_lane_byte:
  assumes "j < 8"
  shows "bit (lane c ! j) 7 \<longleftrightarrow> j < 2 \<or>
    unat ([0, 0, 0x2f, 0x39, 0x40, 0x46, 0x60, 0x66] ! j :: 8 word) < unat c \<and>
    unat c \<le> unat ([0, 0, 0x2f, 0x39, 0x40, 0x46, 0x60, 0x66] ! j :: 8 word) + 128"
  using assms by (auto simp: nat_lt8 lane_def sub_negative bit_minus_1_iff)

lemma bit_lane_mask:
  assumes "length x = 32" "i < 4" "take 8 (drop (8 * i) x) = lane c"
  shows "bit (signed_drop_bit (8 * i) (movemask x) AND 0xff) j \<longleftrightarrow> j < 8 \<and> bit (lane c ! j) 7"
proof -
  have ff: "(0xff :: 32 word) = mask 8" by (simp add: mask_eq_exp_minus_1)
  have "x ! (8 * i + j) = lane c ! j" if "j < 8"
    using that assms(1,2) unfolding assms(3) [symmetric] by simp
  then show ?thesis
    using assms(1,2) by (auto simp: ff bit_and_iff bit_mask_iff bit_signed_drop_bit_iff bit_movemask)
qed

lemma lane_clz:
  assumes x: "length x = 32" "i < 4" "take 8 (drop (8 * i) x) = lane c"
  shows "builtin_clz (signed_drop_bit (8 * i) (movemask x) AND 0xff) = Some (31 - lane_top (unat c))"
proof (rule clz_top)
  have n: "unat c < 256" using unsigned_less [of c, where 'a = nat] by simp
  have k: "lane_top (unat c) < 8" by (simp add: lane_top_def)
  show "bit (signed_drop_bit (8 * i) (movemask x) AND 0xff) (lane_top (unat c))"
    unfolding bit_lane_mask [OF x] using n k bit_lane_byte [OF k, of c] by (simp add: lane_top_def)
  fix j assume j: "lane_top (unat c) < j"
  show "\<not> bit (signed_drop_bit (8 * i) (movemask x) AND 0xff) j"
  proof (cases "j < 8")
    case True
    then show ?thesis
      unfolding bit_lane_mask [OF x] bit_lane_byte [OF True] using j n
      by (auto simp: nat_lt8 lane_top_def split: if_splits)
  qed (simp add: bit_lane_mask [OF x])
qed

lemma process_ch_value:
  assumes x: "length x = 32" "i < 4" "take 8 (drop (8 * i) x) = lane c"
  shows "process_ch x (signed_drop_bit (8 * i) (movemask x)) i = Some (map_option int (digit_value (unat c)))"
proof -
  define n where "n = unat c"
  then have n: "unat c = n" "c = of_nat n" "n < 256" using unsigned_less [of c, where 'a = nat] by simp_all
  have s: "sint (of_nat b - c :: 8 word) = int b - int n" if "b < n" "n \<le> b + 128" for b
  proof -
    have "unat (of_nat b :: 8 word) = b" using that n(3) by (simp add: unat_of_nat)
    then have "unat (of_nat b - c :: 8 word) = 256 + b - n"
      using that n by (simp add: unat_sub_if_size word_size)
    then show ?thesis using that unfolding sint_byte by simp
  qed
  have two: "Suc (Suc 0) AND 1 = 0" by (simp flip: numeral_2_eq_2)
  show ?thesis
    unfolding process_ch_def lane_clz [OF x] x(3) bind.bind_lunit n(1) Let_def
    using n(3) two s [of "0x2f"] s [of "0x40"] s [of "0x60"]
    by (auto simp: lane_top_def digit_value_def lane_def nth_append)
qed

lemma ord4_value:
  "hexdigit_ord4 c0 c1 c2 c3 = Some (case (digit_value (unat c0), digit_value (unat c1), digit_value (unat c2), digit_value (unat c3)) of
     (Some d0, Some d1, Some d2, Some d3) \<Rightarrow> Some (of_nat (d0 * 16 + d1), of_nat (d2 * 16 + d3))
   | _ \<Rightarrow> None)"
proof -
  let ?x = "lane c0 @ lane c1 @ lane c2 @ lane c3"
  have x: "sub_epi8 (concat (replicate 4 [0x00, 0x00, 0x2f, 0x39, 0x40, 0x46, 0x60, 0x66]))
      (concat (map (\<lambda>ch. [1, 1, ch, ch, ch, ch, ch, ch]) [c0, c1, c2, c3])) = ?x"
    by (simp add: sub_epi8_def lane_def numeral_eq_Suc)
  have len: "length ?x = 32" "take 8 (drop (8 * 0) ?x) = lane c0" "take 8 (drop (8 * 1) ?x) = lane c1"
    "take 8 (drop (8 * 2) ?x) = lane c2" "take 8 (drop (8 * 3) ?x) = lane c3"
    by (simp_all add: lane_def)
  have "process_ch ?x (movemask ?x) 0 = Some (map_option int (digit_value (unat c0)))"
    "process_ch ?x (signed_drop_bit 8 (movemask ?x)) 1 = Some (map_option int (digit_value (unat c1)))"
    "process_ch ?x (signed_drop_bit 8 (signed_drop_bit 8 (movemask ?x))) 2 = Some (map_option int (digit_value (unat c2)))"
    "process_ch ?x (signed_drop_bit 8 (signed_drop_bit 8 (signed_drop_bit 8 (movemask ?x)))) 3 = Some (map_option int (digit_value (unat c3)))"
    using process_ch_value [OF len(1) _ len(2)] process_ch_value [OF len(1) _ len(3)]
      process_ch_value [OF len(1) _ len(4)] process_ch_value [OF len(1) _ len(5)] by simp_all
  then show ?thesis
    unfolding hexdigit_ord4_def x Let_def by (auto split: option.splits simp: Let_def)
qed

section \<open>Strings\<close>

lemma decode_even: "decode s = Some bs \<Longrightarrow> even (length s)"
  by (induction s arbitrary: bs rule: decode.induct) (auto simp: bind_eq_Some_conv)

lemma digit_value_less: "digit_value c = Some d \<Longrightarrow> d < 16"
  by (auto simp: digit_value_def split: if_splits)

lemma and_ff: "w AND 0xff = (w :: 8 word)"
proof -
  have "(0xff :: 8 word) = - 1" by simp
  then show ?thesis by (simp only: and.right_neutral)
qed

lemma of_digit_not_ff: "d < 16 \<Longrightarrow> (of_nat d :: 8 word) \<noteq> 0xff"
proof
  assume "d < 16" "(of_nat d :: 8 word) = 0xff"
  then have "unat (of_nat d :: 8 word) = 255" by simp
  then show False using \<open>d < 16\<close> by (simp add: unat_of_nat)
qed

lemma unhex_loop_decodes:
  assumes "even (length s)" "i + length s < 2 ^ 31"
    "\<forall>c \<in> set s. digit c = Some (case digit_value (unat c) of Some d \<Rightarrow> of_nat d | None \<Rightarrow> 0xff)"
  shows "unhex_loop digit s i ret = Some (case decode s of Some bs \<Rightarrow> ret @ bs | None \<Rightarrow> [])"
  using assms
proof (induction s arbitrary: i ret rule: induct_list012)
  case (3 a b rest)
  have "unhex_loop digit rest (i + 2) r = Some (case decode rest of Some bs \<Rightarrow> r @ bs | None \<Rightarrow> [])" for r
    by (rule "3.IH"(1)) (use "3.prems" in auto)
  moreover have "int_step i 2 = Some (i + 2)" using "3.prems"(2) by (simp add: int_step_def)
  moreover have "digit c = Some (case digit_value (unat c) of Some d \<Rightarrow> of_nat d | None \<Rightarrow> 0xff)" if "c \<in> {a, b}" for c
    using "3.prems"(3) that by auto
  ultimately show ?case
    by (auto simp: and_ff of_digit_not_ff digit_value_less push_bit_eq_mult split: option.splits)
qed simp_all

lemma unhex2_end_None: "unhex2_end s None = Some []"
  by (simp add: unhex2_end_def)

lemma unhex2_guard:
  assumes "3 \<le> length s" "length s < 2 ^ 31" "i \<le> length s"
  shows "(of_nat i :: 64 word) < of_nat (length s) - 3 \<longleftrightarrow> i + 3 < length s"
proof -
  have u: "unat (of_nat i :: 64 word) = i" "unat (of_nat (length s) :: 64 word) = length s"
    using assms by (simp_all add: unat_of_nat_eq64)
  have "(3 :: 64 word) \<le> of_nat (length s)" using assms(1) u(2) by (simp add: word_le_nat_alt)
  then have "unat (of_nat (length s) - 3 :: 64 word) = length s - 3"
    using u(2) by (simp add: unat_minus_word)
  then show ?thesis using u assms(1) by (auto simp: word_less_nat_alt)
qed

lemma drop_4:
  assumes "i + 3 < length s"
  shows "drop i s = s ! i # s ! (i + 1) # s ! (i + 2) # s ! (i + 3) # drop (i + 4) s"
  using assms by (simp add: Cons_nth_drop_Suc [symmetric] numeral_eq_Suc)

lemma unhex2_loop_decodes:
  assumes "even (length s)" "even i" "i \<le> length s" "4 \<le> length s" "length s < 2 ^ 31"
  shows "do { r \<leftarrow> unhex2_loop s i ret; unhex2_end s r } = Some (case decode (drop i s) of Some bs \<Rightarrow> ret @ bs | None \<Rightarrow> [])"
  using assms(2,3)
proof (induction "length s - i" arbitrary: i ret rule: less_induct)
  case less
  have g: "(of_nat i :: 64 word) < of_nat (length s) - 3 \<longleftrightarrow> i + 3 < length s"
    using assms(4,5) less.prems(2) by (intro unhex2_guard) simp_all
  show ?case
  proof (cases "i + 3 < length s")
    case True
    have at: "str_at s i = Some (s ! i)" "str_at s (i + 1) = Some (s ! (i + 1))"
      "str_at s (i + 2) = Some (s ! (i + 2))" "str_at s (i + 3) = Some (s ! (i + 3))" "int_step i 4 = Some (i + 4)"
      using True assms(5) by (simp_all add: str_at_def int_step_def)
    have "do { r \<leftarrow> unhex2_loop s (i + 4) r'; unhex2_end s r } = Some (case decode (drop (i + 4) s) of Some bs \<Rightarrow> r' @ bs | None \<Rightarrow> [])" for r'
      using less.hyps [of "i + 4" r'] less.prems True by simp
    then show ?thesis
      unfolding drop_4 [OF True] using True g at
      by (subst unhex2_loop.simps, cases "decode (drop (i + 4) s)") (auto simp: ord4_value unhex2_end_None split: option.splits)
  next
    case False
    have "length s - i = 0 \<or> length s - i = 2" using False assms(1) less.prems by presburger
    then consider "i = length s" | "length s = i + 2" using less.prems(2) by linarith
    then show ?thesis
    proof cases
      case 1
      then show ?thesis using False g by (subst unhex2_loop.simps) (simp add: unhex2_end_def)
    next
      case 2
      then have "drop i s = [s ! i, s ! (i + 1)]" by (simp add: Cons_nth_drop_Suc [symmetric])
      then show ?thesis using False g 2
        by (subst unhex2_loop.simps)
          (auto simp: unhex2_end_def str_at_def ord4_value digit_value_def [of 48] split: option.splits)
    qed
  qed
qed

lemma unhex2_end_eq: "unhex2 s = (if length s mod 2 = 1 then Some [] else do { r \<leftarrow> unhex2_loop s 0 []; unhex2_end s r })"
  by (simp add: unhex2_def unhex2_end_def)

lemma hex_char_value: "d < 16 \<Longrightarrow> digit_value (unat (hex_char d)) = Some d"
  by (auto simp: hex_char_def digit_value_def unat_of_nat)

lemma decode_hex: "decode (hex_of bs) = Some bs"
proof (induction bs)
  case (Cons b bs)
  have b: "unat b div 16 < 16" using unsigned_less [of b, where 'a = nat] by simp
  have "unat b div 16 * 16 + unat b mod 16 = unat b" by presburger
  then have "(of_nat (unat b div 16 * 16 + unat b mod 16) :: 8 word) = b" by (simp only:) simp
  then show ?case using Cons hex_char_value [OF b] hex_char_value [of "unat b mod 16"]
    by (simp add: hex_of_def del: of_nat_add of_nat_mult)
qed (simp add: hex_of_def)

lemma unhex0_decodes: "length s < 2 ^ 31 \<Longrightarrow> unhex0 s = Some (case decode s of Some bs \<Rightarrow> bs | None \<Rightarrow> [])"
proof (cases "odd (length s)")
  case True
  then have "decode s = None" using decode_even [of s] by (cases "decode s") simp_all
  then show ?thesis using True by (simp add: unhex0_def odd_iff_mod_2_eq_one)
next
  case False
  assume "length s < 2 ^ 31"
  then show ?thesis using False unhex_loop_decodes [of s 0 "\<lambda>c. Some (hexdigit_ord_nonsimd c)" "[]"]
    by (simp add: unhex0_def nonsimd_value even_iff_mod_2_eq_zero cong: option.case_cong)
qed

section \<open>Properties\<close>

text \<open>
  The vector version of the digit value agrees with the comparisons on every character but
  the zero byte, where it scans an empty mask and its result is undefined.
\<close>
theorem hexdigit_ord_agrees:
  "hexdigit_ord ch = (if ch = 0 then None else Some (hexdigit_ord_nonsimd ch))"
proof (cases "ch = 0")
  case True
  have "movemask (sub_epi8 ord_bounds (replicate 8 0)) = 0"
    by (rule bit_word_eqI) (simp add: bit_ord_mask)
  then show ?thesis using True by (simp add: hexdigit_ord_def ord_bounds_def builtin_clz_def)
qed (simp add: ord_value nonsimd_value)

text \<open>
  C23. The three decoders return the same string on every input without zero bytes that is neither
  empty nor two characters long (and shorter than INT\_MAX): what the pairs of digits denote, or
  the empty string when the length is odd or a character is no digit.
\<close>
theorem unhex_agree:
  assumes "length s < 2 ^ 31" "0 \<notin> set s" "length s \<noteq> 0" "length s \<noteq> 2"
  shows "unhex0 s = Some (case decode s of Some bs \<Rightarrow> bs | None \<Rightarrow> []) \<and> unhex1 s = unhex0 s \<and> unhex2 s = unhex0 s"
proof (cases "odd (length s)")
  case True
  then show ?thesis using unhex0_decodes [OF assms(1)]
    by (simp add: unhex0_def unhex1_def unhex2_def odd_iff_mod_2_eq_one)
next
  case False
  have "\<forall>c \<in> set s. hexdigit_ord c = Some (case digit_value (unat c) of Some d \<Rightarrow> of_nat d | None \<Rightarrow> 0xff)"
    using assms(2) by (auto intro: ord_value)
  then have "unhex1 s = Some (case decode s of Some bs \<Rightarrow> bs | None \<Rightarrow> [])"
    using unhex_loop_decodes [of s 0 hexdigit_ord "[]"] False assms(1)
    by (simp add: unhex1_def even_iff_mod_2_eq_zero cong: option.case_cong)
  moreover have "4 \<le> length s" using False assms(3,4) by presburger
  then have "unhex2 s = Some (case decode s of Some bs \<Rightarrow> bs | None \<Rightarrow> [])"
    using unhex2_loop_decodes [of s 0 "[]"] False assms(1)
    by (simp add: unhex2_end_eq even_iff_mod_2_eq_zero cong: option.case_cong)
  ultimately show ?thesis using unhex0_decodes [OF assms(1)] by simp
qed

theorem unhex_agree_witness:
  "unhex0 [0x34, 0x31, 0x36, 0x66] = Some [0x41, 0x6f] \<and> unhex1 [0x34, 0x31, 0x36, 0x66] = Some [0x41, 0x6f] \<and>
   unhex2 [0x34, 0x31, 0x36, 0x66] = Some [0x41, 0x6f]"
  using unhex_agree [of "[0x34, 0x31, 0x36, 0x66]"] by (simp add: digit_value_def)

text \<open>
  C24. Decoding inverts encoding: unhex0 of the upper-case hexadecimal digits of any bytes returns
  these bytes.
\<close>
theorem unhex_round_trip:
  assumes "2 * length bs < 2 ^ 31"
  shows "unhex0 (hex_of bs) = Some bs"
proof -
  have "length (hex_of bs) = 2 * length bs" by (induction bs) (simp_all add: hex_of_def)
  then show ?thesis using unhex0_decodes [of "hex_of bs"] assms by (simp add: decode_hex)
qed

theorem unhex_round_trip_witness: "unhex0 (hex_of [0x41, 0xff]) = Some [0x41, 0xff]"
  by (rule unhex_round_trip) simp

text \<open>
  unhex2 compares its index with the unsigned sz - 3, which wraps for short strings: on the
  empty string and on every string of two characters it reads past the terminator, where unhex0
  decodes the one byte.
\<close>
theorem unhex2_short_faults:
  assumes "length s = 0 \<or> length s = 2"
  shows "unhex2 s = None"
proof -
  have "of_nat (length s) - 3 \<noteq> (0 :: 64 word)" using assms by auto
  then have "(0 :: 64 word) < of_nat (length s) - 3" by (metis word_gt_0)
  moreover have "str_at s 3 = None" using assms by (auto simp: str_at_def)
  ultimately have "unhex2_loop s 0 [] = None" by (subst unhex2_loop.simps) (auto split: option.splits)
  then show ?thesis using assms by (auto simp: unhex2_def)
qed

theorem unhex2_short_faults_witness: "unhex2 [0x34, 0x31] = None \<and> unhex0 [0x34, 0x31] = Some [0x41]"
  using unhex2_short_faults [of "[0x34, 0x31]"] unhex0_decodes [of "[0x34, 0x31]"] by (simp add: digit_value_def)

end
