(* ===== verification/Trim.thy ===== *)
theory Trim
  imports Vectors
begin

unbundle bit_operations_syntax

text \<open>
  Skipping spaces at both ends of a string (include/trim.hh), byte by byte and with 16-byte
  vectors.  The range from begin to end is a list of bytes, a pointer into it an index; the
  index of the backward scan is an int, since the code forms pointers before begin.  A read
  outside the range is a fault.  The trace output of skip\_trailing\_spaces is not modelled.
\<close>

definition space :: byte where "space = 0x20"

definition load16 :: "bytes \<Rightarrow> int \<Rightarrow> bytes option" where
  "load16 s p = (if 0 \<le> p \<and> p + 16 \<le> int (length s) then Some (take 16 (drop (nat p) s)) else None)"

text \<open>The vector loops: Inl is a return from inside the loop, Inr the pointer after it.\<close>

function lead_vectors :: "bytes \<Rightarrow> nat \<Rightarrow> nat \<Rightarrow> (nat + nat) option" where
  "lead_vectors s sse2_end p =
     (if p < sse2_end
      then do { v \<leftarrow> load16 s (int p);
                let masks = movemask (cmpeq v (replicate 16 space));
                pos \<leftarrow> builtin_ctz (push_bit 16 1 OR NOT masks);
                if pos < 16 then Some (Inl (p + pos)) else lead_vectors s sse2_end (p + 16) }
      else Some (Inr p))"
  by pat_completeness auto

termination
  by (relation "measure (\<lambda>(s, e, p). e - p)") auto

function lead_bytes :: "bytes \<Rightarrow> nat \<Rightarrow> nat" where
  "lead_bytes s p = (if p < length s \<and> s ! p = space then lead_bytes s (p + 1) else p)"
  by pat_completeness auto

termination
  by (relation "measure (\<lambda>(s, p). length s - p)") auto

definition skip_leading_spaces :: "bool \<Rightarrow> bytes \<Rightarrow> nat option" where
  "skip_leading_spaces simd s =
     (if simd
      then do { r \<leftarrow> lead_vectors s (length s - length s mod 16) 0;
                Some (case r of Inl q \<Rightarrow> q | Inr p \<Rightarrow> lead_bytes s p) }
      else Some (lead_bytes s 0))"

function trail_vectors :: "bytes \<Rightarrow> int \<Rightarrow> int \<Rightarrow> (int + int) option" where
  "trail_vectors s sse2_begin p =
     (if sse2_begin \<le> p
      then do { v \<leftarrow> load16 s p;
                let masks = movemask (cmpeq v (replicate 16 space));
                pos \<leftarrow> builtin_clz (NOT (push_bit 16 masks));
                if pos < 16 then Some (Inl (p + 16 - int pos)) else trail_vectors s sse2_begin (p - 16) }
      else Some (Inr p))"
  by pat_completeness auto

termination
  by (relation "measure (\<lambda>(s, b, p). nat (p - b + 16))") auto

function trail_bytes :: "bytes \<Rightarrow> int \<Rightarrow> int" where
  "trail_bytes s p = (if 0 \<le> p \<and> s ! nat p = space then trail_bytes s (p - 1) else p)"
  by pat_completeness auto

termination
  by (relation "measure (\<lambda>(s, p). nat (p + 1))") auto

declare lead_vectors.simps [simp del] lead_bytes.simps [simp del] trail_vectors.simps [simp del] trail_bytes.simps [simp del]

definition skip_trailing_spaces :: "bool \<Rightarrow> bytes \<Rightarrow> int option" where
  "skip_trailing_spaces simd s =
     (let size = int (length s)
      in if simd
         then do { r \<leftarrow> trail_vectors s (size - (size - size mod 16)) (size - 16);
                   Some (case r of Inl q \<Rightarrow> q | Inr p \<Rightarrow> trail_bytes s (p + 16 - 1) + 1) }
         else Some (trail_bytes s (size - 1) + 1))"

abbreviation leading :: "bytes \<Rightarrow> nat" where
  "leading s \<equiv> length (takeWhile (\<lambda>c. c = space) s)"

abbreviation without_trailing :: "bytes \<Rightarrow> nat" where
  "without_trailing s \<equiv> length (dropWhile (\<lambda>c. c = space) (rev s))"

section \<open>One vector\<close>

lemma length_takeWhile_eqI:
  assumes "q \<le> length xs" "\<And>i. i < q \<Longrightarrow> P (xs ! i)" "q < length xs \<Longrightarrow> \<not> P (xs ! q)"
  shows "length (takeWhile P xs) = q"
proof -
  have "takeWhile P xs = takeWhile P (take q xs @ drop q xs)" by simp
  also have "\<dots> = take q xs @ takeWhile P (drop q xs)"
    using assms(1,2) by (intro takeWhile_append2) (auto simp: in_set_conv_nth)
  also have "takeWhile P (drop q xs) = []"
    using assms(3) by (auto simp: takeWhile_eq_Nil_iff hd_drop_conv_nth)
  finally show ?thesis using assms(1) by simp
qed

lemma takeWhile_all: "i < length (takeWhile P xs) \<Longrightarrow> P (xs ! i)"
  by (metis nth_mem set_takeWhileD takeWhile_nth)

lemma bit_space_mask:
  "length v = 16 \<Longrightarrow> bit (movemask (cmpeq v (replicate 16 space))) n \<longleftrightarrow> n < 16 \<and> v ! n = space"
  by (auto simp: bit_cmpeq_mask)

lemma bit_stop: "bit (push_bit 16 1 OR NOT m :: 32 word) j \<longleftrightarrow> j = 16 \<or> j < 32 \<and> \<not> bit m j"
  unfolding bit_or_iff bit_push_bit_iff bit_not_iff bit_1_iff by auto

lemma ctz_block:
  assumes "length v = 16"
  shows "builtin_ctz (push_bit 16 1 OR NOT (movemask (cmpeq v (replicate 16 space)))) = Some (length (takeWhile (\<lambda>c. c = space) v))"
proof (rule ctz_low)
  let ?k = "length (takeWhile (\<lambda>c. c = space) v)"
  have k: "?k \<le> 16" using length_takeWhile_le [of "\<lambda>c. c = space" v] assms by simp
  have "v ! ?k \<noteq> space" if "?k < 16" using nth_length_takeWhile [of "\<lambda>c. c = space" v] that assms by simp
  then show "bit (push_bit 16 1 OR NOT (movemask (cmpeq v (replicate 16 space)))) ?k"
    unfolding bit_stop bit_space_mask [OF assms] using k by auto
  fix j assume "j < ?k"
  then show "\<not> bit (push_bit 16 1 OR NOT (movemask (cmpeq v (replicate 16 space)))) j"
    unfolding bit_stop bit_space_mask [OF assms] using k takeWhile_all [of j "\<lambda>c. c = space" v] by auto
qed

lemma clz_block:
  assumes "length v = 16"
  shows "builtin_clz (NOT (push_bit 16 (movemask (cmpeq v (replicate 16 space))))) = Some (length (takeWhile (\<lambda>c. c = space) (rev v)))"
proof -
  let ?k = "length (takeWhile (\<lambda>c. c = space) (rev v))"
  let ?w = "NOT (push_bit 16 (movemask (cmpeq v (replicate 16 space))))"
  have k: "?k \<le> 16" using length_takeWhile_le [of "\<lambda>c. c = space" "rev v"] assms by simp
  have r: "rev v ! j = v ! (15 - j)" if "j < 16" for j using that assms by (simp add: rev_nth)
  have "rev v ! ?k \<noteq> space" if "?k < 16"
    using nth_length_takeWhile [of "\<lambda>c. c = space" "rev v"] that assms by simp
  then have "v ! (15 - ?k) \<noteq> space" if "?k < 16" using r that by simp
  then have "bit ?w (31 - ?k)"
    using k by (cases "?k = 16") (auto simp: bit_not_iff bit_push_bit_iff bit_space_mask [OF assms])
  moreover have "\<not> bit ?w j" if j: "31 - ?k < j" for j
  proof (cases "j < 32")
    case True
    then have "rev v ! (31 - j) = space" using j k takeWhile_all [of "31 - j" "\<lambda>c. c = space" "rev v"] by simp
    then have "v ! (j - 16) = space" "16 \<le> j" using r [of "31 - j"] True j k by auto
    then show ?thesis using True by (auto simp: bit_not_iff bit_push_bit_iff bit_space_mask [OF assms])
  qed (auto dest: bit_imp_le_length)
  ultimately have "builtin_clz ?w = Some (31 - (31 - ?k))" by (rule clz_top)
  then show ?thesis using k by simp
qed

section \<open>The loops\<close>

lemma lead_bytes_eq:
  assumes "p \<le> length s" "\<And>i. i < p \<Longrightarrow> s ! i = space"
  shows "lead_bytes s p = leading s"
  using assms
proof (induction "length s - p" arbitrary: p rule: less_induct)
  case less
  show ?case
  proof (cases "p < length s \<and> s ! p = space")
    case True
    then have "lead_bytes s (p + 1) = leading s" using less.prems by (intro less.hyps) (auto simp: less_Suc_eq)
    then show ?thesis using True by (subst lead_bytes.simps) simp
  next
    case False
    then show ?thesis
      using length_takeWhile_eqI [of p s "\<lambda>c. c = space"] less.prems by (subst lead_bytes.simps) auto
  qed
qed

lemma block_nth: "p + 16 \<le> length s \<Longrightarrow> j < 16 \<Longrightarrow> take 16 (drop p s) ! j = s ! (p + j)"
  by simp

lemma lead_vectors_eq:
  assumes "p \<le> e" "16 dvd e - p" "e \<le> length s" "\<And>i. i < p \<Longrightarrow> s ! i = space"
  shows "\<exists>r. lead_vectors s e p = Some r \<and>
    (case r of Inl q \<Rightarrow> q = leading s | Inr q \<Rightarrow> q \<le> length s \<and> (\<forall>i < q. s ! i = space))"
  using assms
proof (induction "e - p" arbitrary: p rule: less_induct)
  case less
  show ?case
  proof (cases "p < e")
    case True
    then have p16: "p + 16 \<le> e" using dvd_imp_le [OF less.prems(2)] by simp
    let ?v = "take 16 (drop p s)"
    let ?k = "leading ?v"
    have v: "length ?v = 16" "load16 s (int p) = Some ?v" using p16 less.prems(3) by (simp_all add: load16_def)
    have k: "?k \<le> 16" using length_takeWhile_le [of "\<lambda>c. c = space" ?v] v(1) by simp
    have all: "s ! i = space" if "i < p + ?k" for i
    proof (cases "i < p")
      case False
      then have "?v ! (i - p) = space" using that takeWhile_all [of "i - p" "\<lambda>c. c = space" ?v] by simp
      then show ?thesis using False that k p16 less.prems(3) by simp
    qed (rule less.prems(4))
    have step: "lead_vectors s e p = (if ?k < 16 then Some (Inl (p + ?k)) else lead_vectors s e (p + 16))"
      using True v(2) ctz_block [OF v(1)] by (subst lead_vectors.simps) (simp only: Let_def if_True Option.bind.bind_lunit)
    show ?thesis
    proof (cases "?k < 16")
      case True
      then have "?v ! ?k \<noteq> space" using nth_length_takeWhile [of "\<lambda>c. c = space" ?v] v(1) by simp
      then have "s ! (p + ?k) \<noteq> space" using True p16 less.prems(3) by simp
      then have "leading s = p + ?k"
        using all True p16 less.prems(3) by (intro length_takeWhile_eqI) auto
      then show ?thesis using step True by simp
    next
      case False
      then have "?k = 16" using k by simp
      then have "\<And>i. i < p + 16 \<Longrightarrow> s ! i = space" using all by metis
      moreover have "16 dvd e - (p + 16)" 
        using less.prems(2) p16 by (simp add: dvd_minus_self flip: diff_diff_left)
      ultimately have "\<exists>r. lead_vectors s e (p + 16) = Some r \<and>
          (case r of Inl q \<Rightarrow> q = leading s | Inr q \<Rightarrow> q \<le> length s \<and> (\<forall>i < q. s ! i = space))"
        using p16 less.prems(3) True by (intro less.hyps) auto
      then show ?thesis using step False by simp
    qed
  next
    case False
    then show ?thesis using less.prems by (subst lead_vectors.simps) auto
  qed
qed

lemma without_trailing_eqI:
  assumes "q \<le> length s" "\<And>i. q \<le> i \<Longrightarrow> i < length s \<Longrightarrow> s ! i = space" "0 < q \<Longrightarrow> s ! (q - 1) \<noteq> space"
  shows "without_trailing s = q"
proof -
  have "length (takeWhile (\<lambda>c. c = space) (rev s)) = length s - q"
    by (rule length_takeWhile_eqI) (use assms in \<open>auto simp: rev_nth\<close>)
  moreover have "length (takeWhile (\<lambda>c. c = space) (rev s)) + without_trailing s = length s"
    by (metis length_append length_rev takeWhile_dropWhile_id)
  ultimately show ?thesis using assms(1) by simp
qed

lemma trail_bytes_eq:
  assumes "q \<le> length s" "\<And>i. q \<le> i \<Longrightarrow> i < length s \<Longrightarrow> s ! i = space"
  shows "trail_bytes s (int q - 1) + 1 = int (without_trailing s)"
  using assms
proof (induction q)
  case 0
  then show ?case using without_trailing_eqI [of 0 s] by (subst trail_bytes.simps) simp
next
  case (Suc q)
  show ?case
  proof (cases "s ! q = space")
    case True
    have "s ! i = space" if "q \<le> i" "i < length s" for i
      using Suc.prems(2) [of i] True that by (cases "i = q") auto
    then have "trail_bytes s (int q - 1) + 1 = int (without_trailing s)"
      using Suc.prems(1) by (intro Suc.IH) auto
    then show ?thesis using True by (subst trail_bytes.simps) simp
  next
    case False
    then show ?thesis using without_trailing_eqI [OF Suc.prems] by (subst trail_bytes.simps) simp
  qed
qed

lemma trail_vectors_eq:
  assumes "b \<le> e" "16 dvd e - b" "e \<le> length s" "\<And>i. e \<le> i \<Longrightarrow> i < length s \<Longrightarrow> s ! i = space"
  shows "\<exists>r. trail_vectors s (int b) (int e - 16) = Some r \<and>
    (case r of Inl q \<Rightarrow> q = int (without_trailing s)
     | Inr p \<Rightarrow> \<exists>q. p = int q - 16 \<and> q \<le> length s \<and> (\<forall>i. q \<le> i \<longrightarrow> i < length s \<longrightarrow> s ! i = space))"
  using assms
proof (induction "e - b" arbitrary: e rule: less_induct)
  case less
  show ?case
  proof (cases "b < e")
    case True
    then have e16: "b + 16 \<le> e" using dvd_imp_le [OF less.prems(2)] by simp
    define p where "p = e - 16"
    have p: "e = p + 16" "b \<le> p" "int e - 16 = int p" using e16 by (simp_all add: p_def)
    let ?v = "take 16 (drop p s)"
    let ?k = "leading (rev ?v)"
    have v: "length ?v = 16" "load16 s (int p) = Some ?v" using p less.prems(3) by (simp_all add: load16_def)
    have k: "?k \<le> 16" using length_takeWhile_le [of "\<lambda>c. c = space" "rev ?v"] v(1) by simp
    have r: "rev ?v ! j = s ! (p + 15 - j)" if "j < 16" for j
      using that v(1) p(1) less.prems(3) by (simp add: rev_nth)
    have all: "s ! i = space" if "p + 16 - ?k \<le> i" "i < length s" for i
    proof (cases "e \<le> i")
      case False
      then have "rev ?v ! (p + 15 - i) = space"
        using that p(1) k takeWhile_all [of "p + 15 - i" "\<lambda>c. c = space" "rev ?v"] by simp
      then show ?thesis using False that k p(1) r [of "p + 15 - i"] by simp
    qed (use less.prems(4) that in auto)
    have step: "trail_vectors s (int b) (int p) = (if ?k < 16 then Some (Inl (int p + 16 - int ?k)) else trail_vectors s (int b) (int p - 16))"
      using p(2) v(2) clz_block [OF v(1)]
      by (subst trail_vectors.simps) (simp only: Let_def of_nat_le_iff if_True Option.bind.bind_lunit)
    show ?thesis
    proof (cases "?k < 16")
      case True
      then have "rev ?v ! ?k \<noteq> space" using nth_length_takeWhile [of "\<lambda>c. c = space" "rev ?v"] v(1) by simp
      then have "s ! (p + 16 - ?k - 1) \<noteq> space" using r [OF True] by (simp add: add.commute)
      then have "without_trailing s = p + 16 - ?k"
        using all p(1) less.prems(3) by (intro without_trailing_eqI) auto
      then show ?thesis using step True p(3) by simp
    next
      case False
      then have "?k = 16" using k by simp
      then have "\<And>i. p \<le> i \<Longrightarrow> i < length s \<Longrightarrow> s ! i = space" using all by (metis add_diff_cancel_right')
      moreover have "16 dvd p - b" using less.prems(2) p(1,2) by (metis Nat.diff_add_assoc2 dvd_add_triv_right_iff)
      ultimately have "\<exists>r. trail_vectors s (int b) (int p - 16) = Some r \<and>
         (case r of Inl q \<Rightarrow> q = int (without_trailing s)
          | Inr p \<Rightarrow> \<exists>q. p = int q - 16 \<and> q \<le> length s \<and> (\<forall>i. q \<le> i \<longrightarrow> i < length s \<longrightarrow> s ! i = space))"
        using p(1,2) less.prems(3) by (intro less.hyps) auto
      then show ?thesis using step False p(3) by simp
    qed
  next
    case False
    then show ?thesis using less.prems by (subst trail_vectors.simps) auto
  qed
qed

section \<open>Properties\<close>

text \<open>
  C25. With and without vectors, skip\_leading\_spaces returns the first byte that is no space and
  skip\_trailing\_spaces the end of the last one, for strings of every length and content, and
  neither reads a byte outside the string.
\<close>
theorem trim_exact:
  "skip_leading_spaces simd s = Some (leading s) \<and> skip_trailing_spaces simd s = Some (int (without_trailing s))"
proof -
  let ?n = "length s"
  have d: "16 dvd ?n - ?n mod 16" "?n mod 16 \<le> ?n" by (simp_all add: dvd_minus_mod)
  obtain r where "lead_vectors s (?n - ?n mod 16) 0 = Some r"
    "case r of Inl q \<Rightarrow> q = leading s | Inr q \<Rightarrow> q \<le> length s \<and> (\<forall>i < q. s ! i = space)"
    using lead_vectors_eq [of 0 "?n - ?n mod 16" s] d by auto
  then have l: "skip_leading_spaces simd s = Some (leading s)"
    using lead_bytes_eq [of 0 s] by (auto simp: skip_leading_spaces_def lead_bytes_eq split: sum.splits)
  obtain r where r: "trail_vectors s (int (?n mod 16)) (int ?n - 16) = Some r"
    "case r of Inl q \<Rightarrow> q = int (without_trailing s)
     | Inr p \<Rightarrow> \<exists>q. p = int q - 16 \<and> q \<le> length s \<and> (\<forall>i. q \<le> i \<longrightarrow> i < length s \<longrightarrow> s ! i = space)"
    using trail_vectors_eq [of "?n mod 16" ?n s] d by auto
  have "skip_trailing_spaces simd s = Some (int (without_trailing s))"
    using r trail_bytes_eq [of ?n s] trail_bytes_eq [of _ s]
    by (auto simp: skip_trailing_spaces_def Let_def of_nat_mod split: sum.splits)
  then show ?thesis using l by simp
qed

end
