(* ===== verification/Reverse.thy ===== *)
theory Reverse
  imports Vectors
begin

unbundle bit_operations_syntax

text \<open>
  Reversal of strings (include/reverse.hh): by UTF-8 characters, and by bytes with 8- or 16-byte
  shuffles.  The source range is a list of bytes, the destination another of the same size; a
  read past the end of the source and a write before the begin of the destination are faults.
\<close>

section \<open>Definitions\<close>

definition UTF8_BYTE_LENGTH_TABLE :: "nat list" where
  "UTF8_BYTE_LENGTH_TABLE =
     replicate 128 1 @ replicate 64 1 @ replicate 32 2 @ replicate 16 3 @ replicate 8 4 @ replicate 8 1"

definition char_size :: "byte \<Rightarrow> nat" where
  "char_size b = UTF8_BYTE_LENGTH_TABLE ! unat b"

text \<open>A copy of bytes to index q of the destination.\<close>

definition put :: "bytes \<Rightarrow> int \<Rightarrow> bytes \<Rightarrow> bytes option" where
  "put dst q bs =
     (if 0 \<le> q \<and> nat q + length bs \<le> length dst
      then Some (take (nat q) dst @ bs @ drop (nat q + length bs) dst) else None)"

lemma char_size_pos: "0 < char_size b"
proof -
  have "unat b < length UTF8_BYTE_LENGTH_TABLE"
    using unsigned_less [of b, where 'a = nat] by (simp add: UTF8_BYTE_LENGTH_TABLE_def)
  then have "char_size b \<in> set UTF8_BYTE_LENGTH_TABLE" by (simp add: char_size_def)
  then show ?thesis by (auto simp: UTF8_BYTE_LENGTH_TABLE_def)
qed

text \<open>What is left of the source from p on; the characters of the table have at least one byte.\<close>

function utf8_loop :: "bytes \<Rightarrow> int \<Rightarrow> bytes \<Rightarrow> bytes option" where
  "utf8_loop [] q dst = Some dst"
| "utf8_loop (c # cs) q dst =
     (let n = char_size c in
      if length (c # cs) < n then None
      else case put dst (q - int n) (take n (c # cs)) of
             None \<Rightarrow> None
           | Some dst' \<Rightarrow> utf8_loop (drop n (c # cs)) (q - int n) dst')"
  by pat_completeness auto

termination
  by (relation "measure (\<lambda>(s, _). length s)") (use char_size_pos in \<open>auto simp: Suc_diff_le\<close>)

declare utf8_loop.simps(2) [simp del]

definition utf8_reverse_per_slice :: "bytes \<Rightarrow> bytes \<Rightarrow> bytes option" where
  "utf8_reverse_per_slice src dst = utf8_loop src (int (length src)) dst"

text \<open>\_mm\_shuffle: byte i of the result is the byte that control byte i selects, zero if it is negative.\<close>

definition shuffle_bytes :: "bytes \<Rightarrow> bytes \<Rightarrow> bytes" where
  "shuffle_bytes v ctrl = map (\<lambda>c. if bit c 7 then 0 else v ! (unat c mod length v)) ctrl"

definition ctrl_masks :: "bool \<Rightarrow> bytes" where
  "ctrl_masks is_epi8 =
     (if is_epi8 then [0x07, 0x06, 0x05, 0x04, 0x03, 0x02, 0x01, 0x00]
      else [0x0f, 0x0e, 0x0d, 0x0c, 0x0b, 0x0a, 0x09, 0x08, 0x07, 0x06, 0x05, 0x04, 0x03, 0x02, 0x01, 0x00])"

function vector_loop :: "bytes \<Rightarrow> bytes \<Rightarrow> nat \<Rightarrow> nat \<Rightarrow> int \<Rightarrow> bytes \<Rightarrow> (nat \<times> int \<times> bytes) option" where
  "vector_loop ctrl src sse_end p q dst =
     (if p < sse_end \<and> ctrl \<noteq> []
      then if p + length ctrl \<le> length src
        then case put dst (q - int (length ctrl)) (shuffle_bytes (take (length ctrl) (drop p src)) ctrl) of
               None \<Rightarrow> None
             | Some dst' \<Rightarrow> vector_loop ctrl src sse_end (p + length ctrl) (q - int (length ctrl)) dst'
        else None
      else Some (p, q, dst))"
  by pat_completeness auto

termination
  by (relation "measure (\<lambda>(_, _, e, p, _). e - p)") (auto intro!: diff_less_mono2)

declare vector_loop.simps [simp del]

fun byte_loop :: "bytes \<Rightarrow> int \<Rightarrow> bytes \<Rightarrow> bytes option" where
  "byte_loop [] q dst = Some dst"
| "byte_loop (c # cs) q dst = do { dst \<leftarrow> put dst (q - 1) [c]; byte_loop cs (q - 1) dst }"

definition ascii_reverse :: "bool \<Rightarrow> bytes \<Rightarrow> bytes \<Rightarrow> bytes option" where
  "ascii_reverse is_epi8 src dst =
     (let width = (if is_epi8 then 8 else 16); n = length src
      in do { (p, q, dst) \<leftarrow> vector_loop (ctrl_masks is_epi8) src (n - n mod width) 0 (int n) dst;
              byte_loop (drop p src) q dst })"

section \<open>Reference\<close>

text \<open>
  The size a first byte announces by its leading bits, as UTF-8 has it: 110xxxxx begins a
  character of two bytes, 1110xxxx one of three, 11110xxx one of four; an ASCII byte is a
  character by itself, and so is a byte that begins none.
\<close>

definition lead_size :: "byte \<Rightarrow> nat" where
  "lead_size b =
     (if 0xC0 \<le> unat b \<and> unat b \<le> 0xDF then 2
      else if 0xE0 \<le> unat b \<and> unat b \<le> 0xEF then 3
      else if 0xF0 \<le> unat b \<and> unat b \<le> 0xF7 then 4 else 1)"

text \<open>The characters of a string by their first bytes; None when the last one is cut off.\<close>

function utf8_chars :: "bytes \<Rightarrow> bytes list option" where
  "utf8_chars [] = Some []"
| "utf8_chars (c # cs) =
     (if length (c # cs) < lead_size c then None
      else case utf8_chars (drop (lead_size c) (c # cs)) of
             None \<Rightarrow> None
           | Some chars \<Rightarrow> Some (take (lead_size c) (c # cs) # chars))"
  by pat_completeness auto

termination
  by (relation "measure length") (auto simp: lead_size_def)

declare utf8_chars.simps(2) [simp del]

definition is_char :: "bytes \<Rightarrow> bool" where
  "is_char c \<longleftrightarrow> c \<noteq> [] \<and> length c = lead_size (hd c)"

section \<open>The table\<close>

lemma char_size_lead: "char_size b = lead_size b"
proof -
  have "unat b < 256" using unsigned_less [of b, where 'a = nat] by simp
  then consider "unat b < 128" | "128 \<le> unat b" "unat b < 192" | "192 \<le> unat b" "unat b < 224"
    | "224 \<le> unat b" "unat b < 240" | "240 \<le> unat b" "unat b < 248" | "248 \<le> unat b" "unat b < 256"
    by linarith
  then show ?thesis by cases (simp_all add: char_size_def lead_size_def UTF8_BYTE_LENGTH_TABLE_def nth_append less_diff_conv2)
qed

lemma is_char_size: "is_char c \<longleftrightarrow> c \<noteq> [] \<and> length c = char_size (hd c)"
  by (simp add: is_char_def char_size_lead)

lemmas utf8_chars_Cons = utf8_chars.simps(2) [folded char_size_lead]
lemmas utf8_chars_induct = utf8_chars.induct [folded char_size_lead]

section \<open>Writing backwards\<close>

lemma put_back:
  assumes "length bs \<le> length front"
  shows "put (front @ rest) (int (length front) - int (length bs)) bs = Some (take (length front - length bs) front @ bs @ rest)"
proof -
  have "nat (int (length front) - int (length bs)) = length front - length bs" by simp
  then show ?thesis using assms by (simp add: put_def)
qed

lemma utf8_loop_eq:
  assumes "length front = length s"
  shows "utf8_loop s (int (length front)) (front @ rest) = map_option (\<lambda>cs. concat (rev cs) @ rest) (utf8_chars s)"
  using assms
proof (induction s arbitrary: front rest rule: utf8_chars_induct)
  case (2 c cs)
  let ?n = "char_size c" and ?s = "c # cs"
  show ?case
  proof (cases "length ?s < ?n")
    case True
    then show ?thesis by (simp add: utf8_loop.simps(2) utf8_chars_Cons Let_def)
  next
    case False
    let ?front = "take (length front - ?n) front"
    have n: "length (take ?n ?s) = ?n" "?n \<le> length front" using False "2.prems" by simp_all
    have f: "length ?front = length (drop ?n ?s)" "int (length ?front) = int (length front) - int ?n"
      using "2.prems" n by simp_all
    have "put (front @ rest) (int (length front) - int ?n) (take ?n ?s) = Some (?front @ take ?n ?s @ rest)"
      using put_back [of "take ?n ?s" front rest] n by simp
    moreover have "utf8_loop (drop ?n ?s) (int (length front) - int ?n) (?front @ take ?n ?s @ rest)
        = map_option (\<lambda>cs. concat (rev cs) @ take ?n ?s @ rest) (utf8_chars (drop ?n ?s))"
      using "2.IH" [OF False f(1), of "take ?n ?s @ rest"] unfolding f(2) .
    ultimately have "utf8_loop ?s (int (length front)) (front @ rest)
        = map_option (\<lambda>cs. concat (rev cs) @ take ?n ?s @ rest) (utf8_chars (drop ?n ?s))"
      using False by (simp add: utf8_loop.simps(2) Let_def del: take_Cons drop_Cons)
    then show ?thesis using False by (cases "utf8_chars (drop ?n ?s)") (simp_all add: utf8_chars_Cons)
  qed
qed simp

lemma utf8_reverse_eq:
  "length dst = length src \<Longrightarrow> utf8_reverse_per_slice src dst = map_option (\<lambda>cs. concat (rev cs)) (utf8_chars src)"
  using utf8_loop_eq [of dst src "[]"] by (simp add: utf8_reverse_per_slice_def)

lemma utf8_chars_concat: "list_all is_char cs \<Longrightarrow> utf8_chars (concat cs) = Some cs"
proof (induction cs)
  case (Cons c cs)
  then obtain b bs where c: "c = b # bs" "char_size b = length c" by (cases c) (auto simp: is_char_size)
  have "utf8_chars (c @ concat cs) = Some (c # cs)"
    using Cons c(2) unfolding c(1) append_Cons utf8_chars_Cons by simp
  then show ?case by simp
qed simp

lemma utf8_chars_inverse:
  assumes "utf8_chars s = Some cs"
  shows "concat cs = s \<and> list_all is_char cs"
  using assms
proof (induction s arbitrary: cs rule: utf8_chars_induct)
  case (2 c cs')
  then obtain cs'' where *: "\<not> length (c # cs') < char_size c" "utf8_chars (drop (char_size c) (c # cs')) = Some cs''"
    "cs = take (char_size c) (c # cs') # cs''"
    by (auto simp: utf8_chars_Cons split: if_splits option.splits)
  have "is_char (take (char_size c) (c # cs'))"
    using *(1) char_size_pos [of c] by (auto simp: is_char_size take_Cons')
  then show ?case using "2.IH" [OF *(1,2)] *(3) by simp
qed simp

lemma byte_loop_eq:
  "length front = length s \<Longrightarrow> byte_loop s (int (length front)) (front @ rest) = Some (rev s @ rest)"
proof (induction s arbitrary: front rest)
  case (Cons c s)
  have "byte_loop s (int (length (butlast front))) (butlast front @ c # rest) = Some (rev s @ c # rest)"
    using Cons by (intro Cons.IH) simp
  then show ?case using put_back [of "[c]" front rest] Cons.prems by (simp add: butlast_conv_take)
qed simp

lemma rev_nths: "rev v = map (\<lambda>i. v ! i) (rev [0..<length v])"
  by (simp add: rev_map [symmetric] map_nth)

lemma ctrl_reverses:
  assumes "length v = (if e then 8 else 16)"
  shows "shuffle_bytes v (ctrl_masks e) = rev v"
proof -
  have l: "rev [0..<8] = [7, 6, 5, 4, 3, 2, 1, 0 :: nat]"
    "rev [0..<16] = [15, 14, 13, 12, 11, 10, 9, 8, 7, 6, 5, 4, 3, 2, 1, 0 :: nat]" by code_simp+
  show ?thesis
  proof (cases e)
    case True
    then show ?thesis
      using assms unfolding rev_nths [of v] by (simp only: if_True l) (simp add: ctrl_masks_def shuffle_bytes_def byte_negative)
  next
    case False
    then show ?thesis
      using assms unfolding rev_nths [of v] by (simp only: if_False l) (simp add: ctrl_masks_def shuffle_bytes_def byte_negative)
  qed
qed

lemma vector_loop_eq:
  assumes w: "length (ctrl_masks e) = w"
    and "p \<le> stop" "w dvd stop - p" "stop \<le> length src" "length front = length src - p"
  shows "\<exists>front'. vector_loop (ctrl_masks e) src stop p (int (length front)) (front @ rev (take p src))
      = Some (stop, int (length front'), front' @ rev (take stop src)) \<and> length front' = length src - stop"
  using assms(2-)
proof (induction "stop - p" arbitrary: p front rule: less_induct)
  case less
  have w0: "0 < w" "w = (if e then 8 else 16)" "ctrl_masks e \<noteq> []" using w by (auto simp: ctrl_masks_def split: if_splits)
  show ?case
  proof (cases "p < stop")
    case True
    have p: "p + w \<le> stop" using dvd_imp_le [OF less.prems(2)] True by simp
    let ?v = "take w (drop p src)" and ?front = "take (length front - w) front"
    have v: "shuffle_bytes ?v (ctrl_masks e) = rev ?v"
      using p less.prems(3) w0(2) by (intro ctrl_reverses) simp
    have f: "length ?front = length src - (p + w)" "int (length ?front) = int (length front) - int w"
      using less.prems(3,4) p by simp_all
    have "put (front @ rev (take p src)) (int (length front) - int w) (rev ?v) = Some (?front @ rev ?v @ rev (take p src))"
      using put_back [of "rev ?v" front "rev (take p src)"] less.prems(3,4) p by simp
    also have "?front @ rev ?v @ rev (take p src) = ?front @ rev (take (p + w) src)"
      by (simp add: take_add)
    finally have "vector_loop (ctrl_masks e) src stop p (int (length front)) (front @ rev (take p src))
      = vector_loop (ctrl_masks e) src stop (p + w) (int (length ?front)) (?front @ rev (take (p + w) src))"
      unfolding f(2) using True p w w0(3) less.prems(3) v by (subst vector_loop.simps) simp
    moreover have "w dvd stop - (p + w)"
      using less.prems(2) p by (simp add: dvd_minus_self flip: diff_diff_left)
    then have "\<exists>front'. vector_loop (ctrl_masks e) src stop (p + w) (int (length ?front)) (?front @ rev (take (p + w) src))
      = Some (stop, int (length front'), front' @ rev (take stop src)) \<and> length front' = length src - stop"
      using p w0(1) True less.prems(3) f(1) by (intro less.hyps) auto
    ultimately show ?thesis by simp
  next
    case False
    then show ?thesis using less.prems by (subst vector_loop.simps) auto
  qed
qed

section \<open>Properties\<close>

text \<open>
  C26. utf8\_reverse\_per\_slice writes the characters of the source in the opposite order, each
  with its bytes in place, and reversing its result restores the source.  The characters are
  those that UTF-8 itself delimits by the leading bits of their first bytes.  It faults exactly
  when the last character of the source is cut off.
\<close>
theorem utf8_reverse_involution:
  assumes "length dst = length src"
  shows "(case utf8_chars src of
      None \<Rightarrow> utf8_reverse_per_slice src dst = None
    | Some cs \<Rightarrow> concat cs = src \<and> utf8_reverse_per_slice src dst = Some (concat (rev cs)) \<and>
        utf8_reverse_per_slice (concat (rev cs)) dst = Some src)"
proof (cases "utf8_chars src")
  case None
  then show ?thesis using utf8_reverse_eq [OF assms] by simp
next
  case (Some cs)
  then have cs: "concat cs = src" "list_all is_char (rev cs)"
    using utf8_chars_inverse [OF Some] by (simp_all add: list_all_iff)
  have "length (concat (rev cs)) = length (concat cs)" by (simp add: length_concat rev_map [symmetric])
  then have "utf8_reverse_per_slice (concat (rev cs)) dst = Some (concat (rev (rev cs)))"
    using utf8_reverse_eq [of dst "concat (rev cs)"] utf8_chars_concat [OF cs(2)] cs(1) assms by simp
  then show ?thesis using Some cs(1) utf8_reverse_eq [OF assms] by simp
qed

theorem utf8_reverse_involution_witness:
  "utf8_reverse_per_slice [0x41, 0xe2, 0x82, 0xac, 0xc3, 0xa9] (replicate 6 0) = Some [0xc3, 0xa9, 0xe2, 0x82, 0xac, 0x41] \<and>
   utf8_reverse_per_slice [0xc3, 0xa9, 0xe2, 0x82, 0xac, 0x41] (replicate 6 0) = Some [0x41, 0xe2, 0x82, 0xac, 0xc3, 0xa9]"
proof -
  have "list_all is_char [[0x41], [0xe2, 0x82, 0xac], [0xc3, 0xa9]]" by (simp add: is_char_def lead_size_def)
  then have "utf8_chars [0x41, 0xe2, 0x82, 0xac, 0xc3, 0xa9] = Some [[0x41], [0xe2, 0x82, 0xac], [0xc3, 0xa9]]"
    using utf8_chars_concat by fastforce
  then show ?thesis using utf8_reverse_involution [of "replicate 6 0" "[0x41, 0xe2, 0x82, 0xac, 0xc3, 0xa9]"] by simp
qed

text \<open>
  C27. ascii\_reverse with 8-byte and with 16-byte shuffles reverses the bytes of every source into
  a destination of the same size, without a read or write outside the two.
\<close>
theorem ascii_reverse_exact:
  assumes "length dst = length src"
  shows "ascii_reverse is_epi8 src dst = Some (rev src)"
proof -
  let ?w = "if is_epi8 then 8 else 16" and ?n = "length src"
  have w: "length (ctrl_masks is_epi8) = ?w" by (simp add: ctrl_masks_def)
  have "?w dvd ?n - ?n mod ?w - 0" using dvd_minus_mod [of ?w ?n] by simp
  then obtain front where f: "vector_loop (ctrl_masks is_epi8) src (?n - ?n mod ?w) 0 (int (length dst)) (dst @ rev (take 0 src))
      = Some (?n - ?n mod ?w, int (length front), front @ rev (take (?n - ?n mod ?w) src))"
    "length front = ?n - (?n - ?n mod ?w)"
    using vector_loop_eq [OF w, of 0 "?n - ?n mod ?w" src dst] assms by auto
  have "byte_loop (drop (?n - ?n mod ?w) src) (int (length front)) (front @ rev (take (?n - ?n mod ?w) src))
      = Some (rev (drop (?n - ?n mod ?w) src) @ rev (take (?n - ?n mod ?w) src))"
    using f(2) by (intro byte_loop_eq) simp
  also have "\<dots> = Some (rev src)" by (simp flip: rev_append)
  finally show ?thesis using f(1) assms by (simp add: ascii_reverse_def Let_def)
qed

theorem ascii_reverse_exact_witness: "ascii_reverse True [1, 2, 3, 4, 5, 6, 7, 8, 9] (replicate 9 0) = Some [9, 8, 7, 6, 5, 4, 3, 2, 1]"
  using ascii_reverse_exact [of "replicate 9 0" "[1, 2, 3, 4, 5, 6, 7, 8, 9]" True] by simp

end
