(* ===== verification/MemEqual.thy ===== *)
theory MemEqual
  imports Prelude
begin

unbundle bit_operations_syntax

text \<open>
  Comparison of memory blocks for equality (include/memequal.hh) by 16-byte vectors and a switch
  over the remaining bytes, and the reversal of the bits of a word (include/util/bits\_op.hh).
  The two blocks are lists of bytes; a read outside a block is a fault.
\<close>

section \<open>Definitions\<close>

definition read :: "bytes \<Rightarrow> nat \<Rightarrow> nat \<Rightarrow> bytes option" where
  "read p k n = (if k + n \<le> length p then Some (take n (drop k p)) else None)"

text \<open>p1 and p2 read as values of n bytes at offset k, compared.\<close>

definition same :: "bytes \<Rightarrow> bytes \<Rightarrow> nat \<Rightarrow> nat \<Rightarrow> bool option" where
  "same p1 p2 k n = do { a \<leftarrow> read p1 k n; b \<leftarrow> read p2 k n; Some (a = b) }"

text \<open>\_mm\_testc\_si128 of zero and the exclusive or.\<close>

definition vector_same :: "bytes \<Rightarrow> bytes \<Rightarrow> bool option" where
  "vector_same p1 p2 =
     do { a \<leftarrow> read p1 0 16; b \<leftarrow> read p2 0 16; Some (list_all (\<lambda>x. NOT 0 AND x = 0) (map2 (XOR) a b)) }"

text \<open>The switch: case n goes on to case n - 1, case 12 to case 8.\<close>

fun tail_equal :: "nat \<Rightarrow> bytes \<Rightarrow> bytes \<Rightarrow> bool option" where
  "tail_equal n p1 p2 =
     (if n = 0 then Some True
      else if n = 1 then same p1 p2 0 1
      else if n = 2 then same p1 p2 0 2
      else if n = 4 then same p1 p2 0 4
      else if n = 8 then same p1 p2 0 8
      else if n = 12 then do { e \<leftarrow> same p1 p2 8 4; if e then tail_equal 8 p1 p2 else Some False }
      else do { e \<leftarrow> same p1 p2 (n - 1) 1; if e then tail_equal (n - 1) p1 p2 else Some False })"

declare tail_equal.simps [simp del]

fun vector_equal :: "nat \<Rightarrow> nat \<Rightarrow> bytes \<Rightarrow> bytes \<Rightarrow> bool option" where
  "vector_equal 0 r p1 p2 = tail_equal r p1 p2"
| "vector_equal (Suc k) r p1 p2 =
     do { e \<leftarrow> vector_same p1 p2; if e then vector_equal k r (drop 16 p1) (drop 16 p2) else Some False }"

definition mem_equal_optimized :: "bytes \<Rightarrow> nat \<Rightarrow> bytes \<Rightarrow> nat \<Rightarrow> bool option" where
  "mem_equal_optimized p1 size1 p2 size2 =
     (if size1 \<noteq> size2 then Some False
      else if size1 = 0 then Some True
      else vector_equal (size1 div 16) (size1 mod 16) p1 p2)"

definition mem_equal_memcpy :: "bytes \<Rightarrow> nat \<Rightarrow> bytes \<Rightarrow> nat \<Rightarrow> bool option" where
  "mem_equal_memcpy p1 size1 p2 size2 =
     (if size1 = size2 then do { c \<leftarrow> memcmp p1 p2 size1; Some (c = 0) } else Some False)"

text \<open>The loop of reverse\_bits ends when i has been shifted out.\<close>

partial_function (option) reverse_loop :: "u32 \<Rightarrow> u32 \<Rightarrow> u32 \<Rightarrow> u32 \<Rightarrow> u32 option" where
  "reverse_loop n i j m =
     (if i = 0 then Some m
      else reverse_loop n (push_bit 1 i) (drop_bit 1 j) (if n AND i \<noteq> 0 then m OR j else m))"

definition reverse_bits :: "u32 \<Rightarrow> u32 option" where
  "reverse_bits n = reverse_loop n 1 0x80000000 0"

section \<open>Equality\<close>

lemma same_eq: "k + n \<le> length p1 \<Longrightarrow> k + n \<le> length p2 \<Longrightarrow>
    same p1 p2 k n = Some (take n (drop k p1) = take n (drop k p2))"
  by (simp add: same_def read_def)

lemma take_split:
  assumes "m \<le> n" "n \<le> length xs" "n \<le> length ys"
  shows "take n xs = take n ys \<longleftrightarrow> take m xs = take m ys \<and> take (n - m) (drop m xs) = take (n - m) (drop m ys)"
proof -
  have *: "take n zs = take m zs @ take (n - m) (drop m zs)" for zs :: "'a list"
    using take_add [of m "n - m" zs] assms(1) by simp
  show ?thesis unfolding * [of xs] * [of ys] using assms by (simp add: append_eq_append_conv)
qed

lemma tail_equal_eq:
  assumes "n < 16" "n \<le> length p1" "n \<le> length p2"
  shows "tail_equal n p1 p2 = Some (take n p1 = take n p2)"
  using assms
proof (induction n rule: less_induct)
  case (less n)
  consider "n \<in> {0, 1, 2, 4, 8}" | "n = 12" | "n \<notin> {0, 1, 2, 4, 8, 12}" by blast
  then show ?case
  proof cases
    case 1
    then show ?thesis using less.prems by (subst tail_equal.simps) (auto simp: same_eq)
  next
    case 2
    then have "tail_equal 8 p1 p2 = Some (take 8 p1 = take 8 p2)" using less by simp
    then show ?thesis
      using 2 less.prems take_split [of 8 12 p1 p2] by (subst tail_equal.simps) (auto simp: same_eq)
  next
    case 3
    then have n: "n - 1 < n" "n = n - 1 + 1" by auto
    have "tail_equal (n - 1) p1 p2 = Some (take (n - 1) p1 = take (n - 1) p2)"
      using less.prems by (intro less.IH [OF n(1)]) auto
    moreover have "tail_equal n p1 p2 = do { e \<leftarrow> same p1 p2 (n - 1) 1; if e then tail_equal (n - 1) p1 p2 else Some False }"
      using 3 by (subst tail_equal.simps) simp
    moreover have "same p1 p2 (n - 1) 1 = Some (take 1 (drop (n - 1) p1) = take 1 (drop (n - 1) p2))"
      using n less.prems by (intro same_eq) simp_all
    moreover have "take n p1 = take n p2 \<longleftrightarrow> take (n - 1) p1 = take (n - 1) p2 \<and> take 1 (drop (n - 1) p1) = take 1 (drop (n - 1) p2)"
      using take_split [of "n - 1" n p1 p2] n less.prems by simp
    ultimately show ?thesis by simp
  qed
qed

lemma vector_same_eq:
  assumes "16 \<le> length p1" "16 \<le> length p2"
  shows "vector_same p1 p2 = Some (take 16 p1 = take 16 p2)"
proof -
  have "list_all (\<lambda>x. NOT 0 AND x = 0) (map2 (XOR) xs ys) \<longleftrightarrow> xs = ys" if "length xs = length ys" for xs ys :: bytes
    using that by (induction xs ys rule: list_induct2) (auto simp: bit_eq_iff bit_xor_iff)
  then show ?thesis using assms by (simp add: vector_same_def read_def)
qed

lemma vector_equal_eq:
  assumes "r < 16" "16 * k + r \<le> length p1" "16 * k + r \<le> length p2"
  shows "vector_equal k r p1 p2 = Some (take (16 * k + r) p1 = take (16 * k + r) p2)"
  using assms
proof (induction k arbitrary: p1 p2)
  case 0
  then show ?case by (simp add: tail_equal_eq)
next
  case (Suc k)
  have "vector_equal k r (drop 16 p1) (drop 16 p2) = Some (take (16 * k + r) (drop 16 p1) = take (16 * k + r) (drop 16 p2))"
    using Suc.prems by (intro Suc.IH) auto
  then show ?case using Suc.prems take_split [of 16 "16 * Suc k + r" p1 p2] by (auto simp: vector_same_eq)
qed

section \<open>Reversal\<close>

lemma reverse_loop_eq:
  assumes "t \<le> 32"
  shows "\<exists>m'. reverse_loop n (push_bit t 1) (drop_bit t 0x80000000) m = Some m' \<and>
    (\<forall>k. bit m' k \<longleftrightarrow> bit m k \<or> t + k < 32 \<and> bit n (31 - k))"
  using assms
proof (induction "32 - t" arbitrary: t m)
  case 0
  then have "push_bit t 1 = (0 :: u32)" by (intro bit_word_eqI) (unfold bit_push_bit_iff bit_1_iff, auto)
  then show ?case using 0 by (subst reverse_loop.simps) auto
next
  case (Suc d)
  define m1 where "m1 = (if n AND push_bit t 1 \<noteq> 0 then m OR drop_bit t 0x80000000 else m)"
  have "bit (push_bit t 1 :: u32) t" unfolding bit_push_bit_iff bit_1_iff using Suc.hyps(2) by simp
  then have nz: "push_bit t 1 \<noteq> (0 :: u32)" by (intro notI) (simp only: bit_0_eq bot_fun_def bot_bool_def)
  have top: "(0x80000000 :: u32) = push_bit 31 1" by simp
  have j: "bit (drop_bit t 0x80000000 :: u32) k \<longleftrightarrow> t + k = 31" for k
    unfolding top bit_drop_bit_eq o_apply bit_push_bit_iff bit_1_iff by auto
  have tk: "t + k = 31 \<Longrightarrow> 31 - k = t" for k by simp
  have m1: "bit m1 k \<longleftrightarrow> bit m k \<or> t + k = 31 \<and> bit n (31 - k)" for k
    unfolding m1_def bit_iff_and_push_bit_not_eq_0 [of n t, symmetric] 
    by (auto simp: bit_or_iff j tk)
  have "reverse_loop n (push_bit t 1) (drop_bit t 0x80000000) m
      = reverse_loop n (push_bit (Suc t) 1) (drop_bit (Suc t) 0x80000000) m1"
    using nz by (subst reverse_loop.simps) (simp only: m1_def push_bit_push_bit drop_bit_drop_bit if_False plus_1_eq_Suc)
  moreover have d: "d = 32 - Suc t" "Suc t \<le> 32" using Suc.hyps(2) Suc.prems by auto
  obtain m' where "reverse_loop n (push_bit (Suc t) 1) (drop_bit (Suc t) 0x80000000) m1 = Some m'"
    "\<forall>k. bit m' k \<longleftrightarrow> bit m1 k \<or> Suc t + k < 32 \<and> bit n (31 - k)"
    using Suc.hyps(1) [OF d, of m1] by blast
  moreover have "\<forall>k. bit m' k \<longleftrightarrow> bit m k \<or> t + k < 32 \<and> bit n (31 - k)"
    using calculation(3) m1 by auto
  ultimately show ?case by auto
qed

lemma reverse_bits_eq: "\<exists>m. reverse_bits n = Some m \<and> (\<forall>k. bit m k \<longleftrightarrow> k < 32 \<and> bit n (31 - k))"
  using reverse_loop_eq [of 0 n 0] by (simp add: reverse_bits_def)

section \<open>Properties\<close>

text \<open>
  C28. The optimised comparison of two blocks returns what the comparison by memcmp returns,
  equality of the sizes and of the bytes, for all sizes and contents, and reads only the bytes
  of the two blocks.
\<close>
theorem mem_equal_exact:
  assumes "size1 \<le> length p1" "size2 \<le> length p2"
  shows "mem_equal_optimized p1 size1 p2 size2 = Some (size1 = size2 \<and> take size1 p1 = take size2 p2) \<and>
    mem_equal_memcpy p1 size1 p2 size2 = mem_equal_optimized p1 size1 p2 size2"
proof -
  have "vector_equal (size1 div 16) (size1 mod 16) p1 p2 = Some (take size1 p1 = take size1 p2)" if "size1 = size2"
    using vector_equal_eq [of "size1 mod 16" "size1 div 16" p1 p2] assms that by simp
  then show ?thesis using assms by (auto simp: mem_equal_optimized_def mem_equal_memcpy_def)
qed

theorem mem_equal_exact_witness:
  "mem_equal_optimized (replicate 31 7) 31 (replicate 30 7 @ [8]) 31 = Some False \<and>
   mem_equal_memcpy (replicate 31 7) 31 (replicate 30 7 @ [8]) 31 = Some False"
  using mem_equal_exact [of 31 "replicate 31 7" 31 "replicate 30 7 @ [8]"] by (simp add: numeral_eq_Suc)

text \<open>
  The loop of reverse\_bits ends, its result has bit k set exactly when the argument has bit
  31 - k set, and applied twice it returns the argument.
\<close>
theorem reverse_bits_involution:
  "\<exists>m. reverse_bits n = Some m \<and> (\<forall>k. bit m k = (k < 32 \<and> bit n (31 - k))) \<and> reverse_bits m = Some n"
proof -
  obtain m where m: "reverse_bits n = Some m" "\<And>k. bit m k \<longleftrightarrow> k < 32 \<and> bit n (31 - k)" using reverse_bits_eq [of n] by blast
  obtain n' where n': "reverse_bits m = Some n'" "\<And>k. bit n' k \<longleftrightarrow> k < 32 \<and> bit m (31 - k)" using reverse_bits_eq [of m] by blast
  have "n' = n" by (rule bit_word_eqI) (auto simp: n'(2) m(2))
  then show ?thesis using m n'(1) by blast
qed

end
