(* ===== verification/Repeat.thy ===== *)
theory Repeat
  imports FastMemcpy
begin

unbundle bit_operations_syntax

text \<open>
  Repetition of strings by doubling (include/repeat.hh): the copy routines the variants use, the
  loop over the bits of the count that they share, the variants on a memory, and the two
  variants on std::string.  A copy between regions that overlap, to or from unmapped memory, or
  of a negative length is a fault.
\<close>

section \<open>Copies\<close>

text \<open>memcpy of the C library.\<close>

definition memcpy :: "mem \<Rightarrow> nat \<Rightarrow> nat \<Rightarrow> nat \<Rightarrow> mem option" where
  "memcpy m dst src n = do { guard (apart dst src n); bs \<leftarrow> load n m src; store m dst bs }"

definition memcpy_inlined :: "mem \<Rightarrow> nat \<Rightarrow> nat \<Rightarrow> nat \<Rightarrow> mem option" where
  "memcpy_inlined m dst src n =
     (case find (\<lambda>c. c = n) [1, 2, 3, 4, 5, 6, 7, 8, 9, 10, 11, 12, 13, 14, 15, 16] of
        Some c \<Rightarrow> memcpy m dst src c
      | None \<Rightarrow> memcpy m dst src n)"

text \<open>The loops that copy w bytes at a time while src is below its end.\<close>

function copy_until :: "nat \<Rightarrow> mem \<Rightarrow> nat \<Rightarrow> nat \<Rightarrow> nat \<Rightarrow> (mem \<times> nat \<times> nat) option" where
  "copy_until w m dst src stop =
     (if src < stop \<and> 0 < w
      then do { bs \<leftarrow> load w m src; m \<leftarrow> store m dst bs; copy_until w m (dst + w) (src + w) stop }
      else Some (m, dst, src))"
  by pat_completeness auto

termination
  by (relation "measure (\<lambda>(w, m, d, s, e). e - s)") auto

declare copy_until.simps [simp del]

definition simd_memcpy_inline :: "mem \<Rightarrow> nat \<Rightarrow> nat \<Rightarrow> nat \<Rightarrow> mem option" where
  "simd_memcpy_inline m dst src n =
     do { let e = src + n;
          (m, dst, src) \<leftarrow> copy_until 16 m dst src (src + (n - n mod 16));
          (m, dst, src) \<leftarrow> copy_until 1 m dst src e;
          Some m }"

definition simd_memcpy_inline_memcpy_rest :: "mem \<Rightarrow> nat \<Rightarrow> nat \<Rightarrow> nat \<Rightarrow> mem option" where
  "simd_memcpy_inline_memcpy_rest m dst src n =
     do { let e = src + n;
          (m, dst, src) \<leftarrow> copy_until 16 m dst src (src + (n - n mod 16));
          memcpy m dst src (e - src) }"

definition simd_memcpy_inline_gutil_memcpy_rest :: "mem \<Rightarrow> nat \<Rightarrow> nat \<Rightarrow> nat \<Rightarrow> mem option" where
  "simd_memcpy_inline_gutil_memcpy_rest m dst src n =
     do { (m, dst, src) \<leftarrow> copy_until 16 m dst src (src + (n - n mod 16));
          memcpy_inlined m dst src (n mod 16) }"

definition copy_fast :: "mem \<Rightarrow> nat \<Rightarrow> nat \<Rightarrow> nat \<Rightarrow> mem option" where
  "copy_fast m dst src n = do { (_, m) \<leftarrow> memcpy_fast m dst src n; Some m }"

section \<open>The loop over the bits of the count\<close>

text \<open>for (; n > 0; k += 1, last\_bit = n and 1, n >>= 1), with the body as a step on k and last\_bit.\<close>

fun doubling_loop :: "(nat \<Rightarrow> bool \<Rightarrow> 'a \<Rightarrow> 'a option) \<Rightarrow> nat \<Rightarrow> bool \<Rightarrow> nat \<Rightarrow> 'a \<Rightarrow> 'a option" where
  "doubling_loop step k last_bit n x =
     (if n > 0 then do { x \<leftarrow> step k last_bit x; doubling_loop step (k + 1) (odd n) (n div 2) x }
      else Some x)"

declare doubling_loop.simps [simp del]

text \<open>The template fast\_repeat, and count\_n, which counts with it; an int shift past bit 30 is a fault.\<close>

definition fast_repeat_with :: "nat \<Rightarrow> (nat \<Rightarrow> 'a \<Rightarrow> 'a option) \<Rightarrow> (nat \<Rightarrow> 'a \<Rightarrow> 'a option) \<Rightarrow> 'a \<Rightarrow> 'a option" where
  "fast_repeat_with num init_func delta_func x =
     do { let last_bit = odd num; let n = num div 2;
          x \<leftarrow> init_func 1 x;
          doubling_loop (\<lambda>k last_bit x. do { guard (k + of_bool last_bit < 31); delta_func (2 ^ (k + of_bool last_bit)) x }) 0 last_bit n x }"

definition count_n_init :: "nat \<Rightarrow> nat \<Rightarrow> nat option" where
  "count_n_init i m = Some i"

definition count_n_delta :: "nat \<Rightarrow> nat \<Rightarrow> nat option" where
  "count_n_delta n m = (if m + n < 2 ^ 31 then Some (m + n) else None)"

definition count_n :: "nat \<Rightarrow> nat option" where
  "count_n num = fast_repeat_with num count_n_init count_n_delta 0"

section \<open>The variants on a memory\<close>

text \<open>int32\_t len = s\_size * (1 << k), passed on as a size\_t.\<close>

definition int32_len :: "nat \<Rightarrow> nat \<Rightarrow> nat option" where
  "int32_len s_size k =
     do { guard (k < 31);
          let len = sint (of_nat (s_size * 2 ^ k) :: 32 word);
          guard (0 \<le> len);
          Some (nat len) }"

text \<open>The body of the loop: the copies advance the current position.\<close>

definition repeat_step :: "(mem \<Rightarrow> nat \<Rightarrow> nat \<Rightarrow> nat \<Rightarrow> mem option) \<Rightarrow> (nat \<Rightarrow> nat option) \<Rightarrow> nat \<Rightarrow> nat \<Rightarrow> bool \<Rightarrow> mem \<times> nat \<Rightarrow> (mem \<times> nat) option" where
  "repeat_step copy size_at base k last_bit x =
     do { let (m, cur) = x;
          len \<leftarrow> size_at k;
          m \<leftarrow> copy m cur base len;
          let cur = cur + len;
          if last_bit then do { m \<leftarrow> copy m cur base len; Some (m, cur + len) } else Some (m, cur) }"

text \<open>
  The string is at s\_begin, the result has been given room at result\_begin.  A negative count
  makes the size of the result negative, which the string refuses.
\<close>

definition repeat_logn :: "(mem \<Rightarrow> nat \<Rightarrow> nat \<Rightarrow> nat \<Rightarrow> mem option) \<Rightarrow> mem \<Rightarrow> nat \<Rightarrow> nat \<Rightarrow> nat \<Rightarrow> int \<Rightarrow> mem option" where
  "repeat_logn copy m result_begin s_begin s_size n =
     do { guard (0 \<le> n);
          let last_bit = odd n; let n = nat n div 2;
          m \<leftarrow> copy m result_begin s_begin s_size;
          (m, _) \<leftarrow> doubling_loop (repeat_step copy (int32_len s_size) result_begin) 0 last_bit n (m, result_begin + s_size);
          Some m }"

definition repeat_string_logn_gutil_memcpy_inline :: "mem \<Rightarrow> nat \<Rightarrow> nat \<Rightarrow> nat \<Rightarrow> int \<Rightarrow> mem option" where
  "repeat_string_logn_gutil_memcpy_inline = repeat_logn memcpy_inlined"

definition repeat_string_logn_simd_memcpy_inline_1 :: "mem \<Rightarrow> nat \<Rightarrow> nat \<Rightarrow> nat \<Rightarrow> int \<Rightarrow> mem option" where
  "repeat_string_logn_simd_memcpy_inline_1 = repeat_logn simd_memcpy_inline_gutil_memcpy_rest"

definition repeat_string_logn_memcpy :: "mem \<Rightarrow> nat \<Rightarrow> nat \<Rightarrow> nat \<Rightarrow> int \<Rightarrow> mem option" where
  "repeat_string_logn_memcpy = repeat_logn memcpy"

definition repeat_string_logn_simd_memcpy_inline_2 :: "mem \<Rightarrow> nat \<Rightarrow> nat \<Rightarrow> nat \<Rightarrow> int \<Rightarrow> mem option" where
  "repeat_string_logn_simd_memcpy_inline_2 = repeat_logn simd_memcpy_inline_memcpy_rest"

text \<open>The two repetitions of a zero-terminated string of size bytes, the terminator included.\<close>

definition shifted_size :: "u64 \<Rightarrow> nat \<Rightarrow> nat option" where
  "shifted_size n k = (if k < 31 then Some (unat (n * 2 ^ k)) else None)"

definition fast_repeat :: "mem \<Rightarrow> nat \<Rightarrow> nat \<Rightarrow> u64 \<Rightarrow> u64 \<Rightarrow> mem option" where
  "fast_repeat m src dst n repeat_time =
     (if repeat_time = 0 then store m dst [0]
      else do { let n = n - 1;
                let last_bit = odd (unat repeat_time); let times = unat repeat_time div 2;
                m \<leftarrow> copy_fast m dst src (unat n);
                (m, dst) \<leftarrow> doubling_loop (repeat_step copy_fast (shifted_size n) dst) 0 last_bit times (m, dst + unat n);
                store m dst [0] })"

fun original_loop :: "nat \<Rightarrow> mem \<Rightarrow> nat \<Rightarrow> nat \<Rightarrow> nat \<Rightarrow> (mem \<times> nat) option" where
  "original_loop 0 m src dst n = Some (m, dst)"
| "original_loop (Suc i) m src dst n = do { m \<leftarrow> copy_fast m dst src n; original_loop i m src (dst + n) n }"

definition original_repeat :: "mem \<Rightarrow> nat \<Rightarrow> nat \<Rightarrow> u64 \<Rightarrow> u64 \<Rightarrow> mem option" where
  "original_repeat m src dst n repeat_time =
     do { (m, dst) \<leftarrow> original_loop (unat repeat_time) m src dst (unat (n - 1)); store m dst [0] }"

section \<open>The variants on strings\<close>

text \<open>insert at the end of the string of its own first len bytes.\<close>

definition insert_step :: "nat \<Rightarrow> nat \<Rightarrow> bool \<Rightarrow> bytes \<Rightarrow> bytes option" where
  "insert_step s_size k last_bit result =
     do { len \<leftarrow> int32_len s_size k;
          guard (len \<le> length result);
          let result = result @ take len result;
          if last_bit then Some (result @ take len result) else Some result }"

definition repeat_string_logn :: "bytes \<Rightarrow> int \<Rightarrow> bytes option" where
  "repeat_string_logn s n =
     do { guard (0 \<le> n);
          let s_size = length s;
          let result = replicate (s_size * nat n) 0;
          let last_bit = odd n; let n = nat n div 2;
          let result = result @ s;
          doubling_loop (insert_step s_size) 0 last_bit n result }"

fun append_loop :: "nat \<Rightarrow> bytes \<Rightarrow> bytes \<Rightarrow> bytes" where
  "append_loop 0 s result = result"
| "append_loop (Suc i) s result = append_loop i s (result @ s)"

definition repeat_string_n :: "bytes \<Rightarrow> int \<Rightarrow> bytes option" where
  "repeat_string_n s n = do { guard (0 \<le> n); Some (append_loop (nat n) s []) }"

text \<open>c copies of S stand at base, the current position is behind them, and nothing else has changed.\<close>

definition filled :: "mem \<Rightarrow> bytes \<Rightarrow> nat \<Rightarrow> nat \<Rightarrow> nat \<Rightarrow> mem \<times> nat \<Rightarrow> bool" where
  "filled m0 S base N c x \<longleftrightarrow>
     (case x of (m, cur) \<Rightarrow> cur = base + length S * c \<and> bytes_at m base (length S * c) = concat (replicate c S) \<and>
        mapped m base (length S * N) \<and> (\<forall>y. y < base \<or> base + length S * N \<le> y \<longrightarrow> m y = m0 y))"

text \<open>The bytes a, b at address 1 and room for six at address 10.\<close>

definition repeat_memory :: mem where
  "repeat_memory = (\<lambda>x. if x = 1 then Some 0x61 else if x = 2 then Some 0x62 else if 10 \<le> x \<and> x < 16 then Some 0xff else None)"

section \<open>What the loop does\<close>

text \<open>
  A count c of what has been done so far, which a step with k and last\_bit advances by
  2 ^ k, or twice that.  With c = 1 before the loop it is the whole count after it.
\<close>

locale doubling =
  fixes step :: "nat \<Rightarrow> bool \<Rightarrow> 'a \<Rightarrow> 'a option" and at :: "nat \<Rightarrow> 'a \<Rightarrow> bool" and total_count :: nat
  assumes step_advances: "at c x \<Longrightarrow> 2 ^ k \<le> c \<Longrightarrow> c + 2 ^ k + (if b then 2 ^ k else 0) \<le> total_count \<Longrightarrow>
    \<exists>y. step k b x = Some y \<and> at (c + 2 ^ k + (if b then 2 ^ k else 0)) y"
begin

lemma loop_reaches:
  assumes "at c x" "c = 2 ^ k + total_count mod 2 ^ k" "n = total_count div 2 ^ Suc k" "b = odd (total_count div 2 ^ k)" "2 ^ k \<le> total_count"
  shows "\<exists>y. doubling_loop step k b n x = Some y \<and> at total_count y"
  using assms
proof (induction n arbitrary: c k b x rule: less_induct)
  case (less n)
  let ?N = total_count
  have split: "?N = 2 ^ k * (?N div 2 ^ k) + ?N mod 2 ^ k" by simp
  have "n = ?N div 2 ^ k div 2" unfolding less.prems(3) by (simp only: power_Suc2 div_mult2_eq)
  then have d: "?N div 2 ^ k = 2 * n + of_bool b"
    using less.prems(4) by (simp add: of_bool_odd_eq_mod_2)
  show ?case
  proof (cases "n = 0")
    case True
    have "?N div 2 ^ k > 0" using less.prems(5) by (simp add: div_greater_zero_iff)
    then have "?N div 2 ^ k = 1" using d True by (cases b) simp_all
    then have "c = ?N" using split less.prems(2) by simp
    then show ?thesis using True less.prems(1) by (subst doubling_loop.simps) simp
  next
    case False
    let ?c = "c + 2 ^ k + (if b then 2 ^ k else 0)"
    have c: "?c = 2 ^ Suc k + ?N mod 2 ^ Suc k"
      using less.prems(2) mod_mult2_eq [of ?N "2 ^ k" 2] less.prems(4)
      by (auto simp: mult.commute odd_iff_mod_2_eq_one)
    have big: "2 ^ Suc k \<le> ?N"
      using False less.prems(3) by (metis div_eq_0_iff not_less power_not_zero zero_neq_numeral)
    have "?c \<le> ?N"
    proof -
      have "2 ^ Suc k * 1 \<le> 2 ^ Suc k * (?N div 2 ^ Suc k)" using False less.prems(3) by (intro mult_le_mono2) simp
      then have "2 ^ Suc k + ?N mod 2 ^ Suc k \<le> 2 ^ Suc k * (?N div 2 ^ Suc k) + ?N mod 2 ^ Suc k"
        by (intro add_right_mono) (simp only: mult_1_right)
      also have "\<dots> = ?N" by (rule mult_div_mod_eq)
      finally show ?thesis using c by simp
    qed
    then obtain y where y: "step k b x = Some y" "at ?c y"
      using step_advances [OF less.prems(1), of k b] less.prems(2) by auto
    have half: "n div 2 = ?N div 2 ^ Suc (Suc k)"
      unfolding less.prems(3) by (simp only: power_Suc2 [of 2 "Suc k"] div_mult2_eq)
    have "\<exists>z. doubling_loop step (k + 1) (odd n) (n div 2) y = Some z \<and> at ?N z"
      by (rule less.IH [OF _ y(2)]) (use False c big half less.prems(3) in simp_all)
    then show ?thesis using False y(1) by (subst doubling_loop.simps) simp
  qed
qed

lemma loop_from_one:
  assumes "at 1 x" "0 < total_count"
  shows "\<exists>y. doubling_loop step 0 (odd total_count) (total_count div 2) x = Some y \<and> at total_count y"
  using loop_reaches [OF assms(1), of 0] assms(2) by simp

end

section \<open>Copies\<close>

text \<open>What the variants expect of a copy.\<close>

locale copier =
  fixes copy :: "mem \<Rightarrow> nat \<Rightarrow> nat \<Rightarrow> nat \<Rightarrow> mem option"
  assumes copies: "mapped m src n \<Longrightarrow> mapped m dst n \<Longrightarrow> apart dst src n \<Longrightarrow> copy m dst src n = Some (copied m dst src n)"

lemma memcpy_copies:
  "mapped m src n \<Longrightarrow> mapped m dst n \<Longrightarrow> apart dst src n \<Longrightarrow> memcpy m dst src n = Some (copied m dst src n)"
  by (simp add: memcpy_def load_some store_some copied_def)

lemma memcpy_inlined_eq: "memcpy_inlined = memcpy"
  by (intro ext) (auto simp: memcpy_inlined_def)

lemma copy_until_from:
  assumes "mapped m src n" "mapped m dst n" "apart dst src n" "0 < w" "p \<le> n" "w dvd n - p"
  shows "copy_until w (copied m dst src p) (dst + p) (src + p) (src + n) = Some (copied m dst src n, dst + n, src + n)"
  using assms(5,6)
proof (induction "n - p" arbitrary: p rule: less_induct)
  case less
  show ?case
  proof (cases "p < n")
    case True
    then have p: "p + w \<le> n" using dvd_imp_le [OF less.prems(2)] by simp
    let ?m = "copied m dst src p"
    have mp: "mapped ?m (src + p) w" "mapped ?m (dst + p) w"
      using p by (auto intro!: copied_mapped intro: mapped_part [OF assms(1)] mapped_part [OF assms(2)])
    have "put_bytes ?m (dst + p) (bytes_at ?m (src + p) w) = copied m dst src (p + w)"
      using copied_extend [OF assms(3), of p p w m] p less.prems(1) by (simp add: copied_def [of "copied m dst src p"])
    then have "copy_until w ?m (dst + p) (src + p) (src + n) = copy_until w (copied m dst src (p + w)) (dst + (p + w)) (src + (p + w)) (src + n)"
      using True assms(4) mp by (subst copy_until.simps) (simp add: load_some store_some add.assoc)
    moreover have "w dvd n - (p + w)" using less.prems(2) p by (simp add: dvd_minus_self flip: diff_diff_left)
    ultimately show ?thesis using less.hyps [of "p + w"] p assms(4) True by simp
  next
    case False
    then show ?thesis using less.prems(1) by (subst copy_until.simps) simp
  qed
qed

lemma copy_until_copies:
  assumes "mapped m src n" "mapped m dst n" "apart dst src n" "w dvd n" "0 < w"
  shows "copy_until w m dst src (src + n) = Some (copied m dst src n, dst + n, src + n)"
  using copy_until_from [OF assms(1,2,3,5), of 0] assms(4) by simp

interpretation std_copy: copier memcpy
  by unfold_locales (rule memcpy_copies)

interpretation inlined_copy: copier memcpy_inlined
  by unfold_locales (simp add: memcpy_inlined_eq memcpy_copies)

interpretation fast_copy: copier copy_fast
  by unfold_locales (simp add: copy_fast_def memcpy_fast_eq)

text \<open>A copy in two parts, the first of whole vectors.\<close>

lemma copy_vectors:
  assumes "mapped m src n" "mapped m dst n" "apart dst src n"
  shows "copy_until 16 m dst src (src + (n - n mod 16)) =
      Some (copied m dst src (n - n mod 16), dst + (n - n mod 16), src + (n - n mod 16))"
  using assms by (intro copy_until_copies) (auto simp: apart_def dvd_minus_mod intro: mapped_part)

lemma copy_rest:
  fixes n :: nat
  defines "k \<equiv> n - n mod 16"
  assumes "mapped m src n" "mapped m dst n" "apart dst src n"
  shows "mapped (copied m dst src k) (src + k) (n mod 16)" "mapped (copied m dst src k) (dst + k) (n mod 16)"
    "apart (dst + k) (src + k) (n mod 16)" "copied (copied m dst src k) (dst + k) (src + k) (n mod 16) = copied m dst src n"
proof -
  have k: "k + n mod 16 = n" by (simp add: k_def)
  show "mapped (copied m dst src k) (src + k) (n mod 16)" "mapped (copied m dst src k) (dst + k) (n mod 16)"
    using k by (auto intro!: copied_mapped intro: mapped_part [OF assms(2)] mapped_part [OF assms(3)])
  show "apart (dst + k) (src + k) (n mod 16)" using assms(4) k by (auto simp: apart_def)
  show "copied (copied m dst src k) (dst + k) (src + k) (n mod 16) = copied m dst src n"
    using copied_extend [OF assms(4), of k k "n mod 16" m] k by simp
qed

interpretation simd_copy: copier simd_memcpy_inline
proof
  fix m src n dst assume a: "mapped m src n" "mapped m dst n" "apart dst src n"
  have "copy_until 1 (copied m dst src (n - n mod 16)) (dst + (n - n mod 16)) (src + (n - n mod 16)) (src + (n - n mod 16) + n mod 16)
      = Some (copied m dst src n, dst + (n - n mod 16) + n mod 16, src + (n - n mod 16) + n mod 16)"
    using copy_until_copies [OF copy_rest(1-3) [OF a]] copy_rest(4) [OF a] by simp
  then show "simd_memcpy_inline m dst src n = Some (copied m dst src n)"
    using copy_vectors [OF a] by (simp add: simd_memcpy_inline_def Let_def)
qed

interpretation simd_copy_rest: copier simd_memcpy_inline_memcpy_rest
proof
  fix m src n dst assume a: "mapped m src n" "mapped m dst n" "apart dst src n"
  have "src + n - (src + (n - n mod 16)) = n mod 16" by simp
  then show "simd_memcpy_inline_memcpy_rest m dst src n = Some (copied m dst src n)"
    using copy_vectors [OF a] memcpy_copies [OF copy_rest(1-3) [OF a]] copy_rest(4) [OF a]
    by (simp add: simd_memcpy_inline_memcpy_rest_def Let_def)
qed

interpretation simd_copy_gutil: copier simd_memcpy_inline_gutil_memcpy_rest
proof
  fix m src n dst assume a: "mapped m src n" "mapped m dst n" "apart dst src n"
  show "simd_memcpy_inline_gutil_memcpy_rest m dst src n = Some (copied m dst src n)"
    using copy_vectors [OF a] memcpy_copies [OF copy_rest(1-3) [OF a]] copy_rest(4) [OF a]
    by (simp add: simd_memcpy_inline_gutil_memcpy_rest_def memcpy_inlined_eq)
qed

section \<open>Repetition\<close>

lemma length_repeated [simp]: "length (concat (replicate c S)) = length S * c"
  by (induction c) simp_all

lemma repeated_add: "concat (replicate (c + j) S) = concat (replicate c S) @ concat (replicate j S)"
  by (simp add: replicate_add)

lemma bytes_at_take: "k \<le> n \<Longrightarrow> bytes_at m a k = take k (bytes_at m a n)"
  by (simp add: bytes_at_def take_map)

lemma filled_copy:
  assumes f: "filled m0 S base N c (m, cur)" and j: "j \<le> c" "c + j \<le> N"
  shows "mapped m base (length S * j)" "mapped m cur (length S * j)" "apart cur base (length S * j)"
    "filled m0 S base N (c + j) (copied m cur base (length S * j), cur + length S * j)"
proof -
  let ?s = "length S"
  have f': "cur = base + ?s * c" "bytes_at m base (?s * c) = concat (replicate c S)" "mapped m base (?s * N)"
    "\<And>y. y < base \<or> base + ?s * N \<le> y \<Longrightarrow> m y = m0 y"
    using f by (auto simp: filled_def)
  have le: "?s * j \<le> ?s * c" "?s * c + ?s * j \<le> ?s * N"
    using j by (simp_all flip: add_mult_distrib2)
  show "mapped m base (?s * j)" by (rule mapped_part [OF f'(3)]) (use le in linarith)+
  show "mapped m cur (?s * j)" by (rule mapped_part [OF f'(3)]) (use le f'(1) in linarith)+
  show "apart cur base (?s * j)" unfolding apart_def using le f'(1) by linarith
  let ?m = "copied m cur base (?s * j)"
  have old: "bytes_at ?m base (?s * c) = concat (replicate c S)"
    unfolding f'(2) [symmetric] using f'(1) by (intro bytes_at_cong) (simp add: copied_at)
  have "bytes_at ?m cur (?s * j) = bytes_at m base (?s * j)"
    by (rule nth_equalityI) (simp_all add: bytes_at_def copied_at)
  also have "\<dots> = take (?s * j) (concat (replicate c S))" using le(1) f'(2) bytes_at_take by metis
  also have "\<dots> = concat (replicate j S)"
    using repeated_add [of j "c - j" S] j(1) by simp
  finally have "bytes_at ?m base (?s * (c + j)) = concat (replicate (c + j) S)"
    using old bytes_at_append [of cur base "?s * c" ?m "?s * j"] f'(1) by (simp add: repeated_add add_mult_distrib2)
  moreover have "?m y = m0 y" if "y < base \<or> base + ?s * N \<le> y" for y
    using f'(4) [OF that] that f'(1) le(2) by (auto simp: copied_at)
  ultimately show "filled m0 S base N (c + j) (?m, cur + ?s * j)"
    using f'(1,3) by (simp add: filled_def add_mult_distrib2)
qed

lemma filled_full:
  assumes "filled m0 S base N N (m, cur)"
  shows "m = put_bytes m0 base (concat (replicate N S))"
proof
  fix y
  let ?n = "length S * N"
  have f: "bytes_at m base ?n = concat (replicate N S)" "mapped m base ?n" "y < base \<or> base + ?n \<le> y \<Longrightarrow> m y = m0 y"
    using assms by (auto simp: filled_def)
  have "m y = Some (concat (replicate N S) ! (y - base))" if "base \<le> y" "y < base + ?n"
  proof -
    have "bytes_at m base ?n ! (y - base) = the (m y)" 
      using that nth_upt [of base "y - base" "base + ?n"] by (simp add: bytes_at_def)
    then show ?thesis using f(1,2) that by (auto simp: mapped_def)
  qed
  then show "m y = put_bytes m0 base (concat (replicate N S)) y" using f(3) by (auto simp: put_bytes_def)
qed

lemma sint_of_nat_small:
  assumes "v < 2 ^ 31"
  shows "sint (of_nat v :: 32 word) = int v"
proof -
  have "uint (of_nat v :: 32 word) = int v" using assms by (simp add: uint_nat unat_of_nat_eq32)
  then show ?thesis using assms by (simp add: sint_uint signed_take_bit_int_eq_self)
qed

lemma int32_len_small:
  assumes "2 * 2 ^ k \<le> N" "N < 2 ^ 31" "s * N < 2 ^ 31"
  shows "int32_len s k = Some (s * 2 ^ k)"
proof -
  have "(2 :: nat) ^ Suc k < 2 ^ 31" using le_less_trans [OF assms(1,2)] by simp
  then have k: "k < 31" using power_less_imp_less_exp [of "2 :: nat" "Suc k" 31] by simp
  have "s * 2 ^ k \<le> s * N" using assms(1) by (intro mult_le_mono2) simp
  then have "s * 2 ^ k < 2 ^ 31" using assms(3) by linarith
  then show ?thesis using k sint_of_nat_small [of "s * 2 ^ k"] unfolding int32_len_def by (simp del: of_nat_mult of_nat_power)
qed

context copier
begin

lemma step_fills:
  assumes "\<And>k. 2 * 2 ^ k \<le> N \<Longrightarrow> size_at k = Some (length S * 2 ^ k)"
  shows "doubling (repeat_step copy size_at base) (filled m0 S base N) N"
proof
  fix c k b and x :: "mem \<times> nat"
  assume f: "filled m0 S base N c x" and k: "2 ^ k \<le> c" and le: "c + 2 ^ k + (if b then 2 ^ k else 0) \<le> N"
  obtain m cur where x: "x = (m, cur)" by (cases x)
  let ?l = "length S * 2 ^ k"
  have len: "size_at k = Some ?l" using assms [of k] k le by simp
  note f1 = filled_copy [OF f [unfolded x] k, OF order_trans [OF le_add1 le]]
  have c1: "copy m cur base ?l = Some (copied m cur base ?l)" by (rule copies [OF f1(1-3)])
  show "\<exists>y. repeat_step copy size_at base k b x = Some y \<and> filled m0 S base N (c + 2 ^ k + (if b then 2 ^ k else 0)) y"
  proof (cases b)
    case False
    then show ?thesis using c1 len f1(4) x by (simp add: repeat_step_def)
  next
    case True
    then have le2: "c + 2 ^ k + 2 ^ k \<le> N" using le by simp
    note f2 = filled_copy [OF f1(4) order_trans [OF k le_add1] le2]
    have "copy (copied m cur base ?l) (cur + ?l) base ?l = Some (copied (copied m cur base ?l) (cur + ?l) base ?l)"
      by (rule copies [OF f2(1-3)])
    then show ?thesis using True c1 len f2(4) x by (simp add: repeat_step_def Let_def)
  qed
qed

lemma loop_fills:
  assumes m: "mapped m src (length S)" "bytes_at m src (length S) = S" "mapped m base (length S * N)"
    and apart: "base + length S * N \<le> src \<or> src + length S \<le> base" and N: "0 < N"
    and size_at: "\<And>k. 2 * 2 ^ k \<le> N \<Longrightarrow> size_at k = Some (length S * 2 ^ k)"
  shows "copy m base src (length S) = Some (copied m base src (length S))"
    "\<exists>m'. doubling_loop (repeat_step copy size_at base) 0 (odd N) (N div 2) (copied m base src (length S), base + length S)
      = Some (m', base + length S * N) \<and> filled m S base N N (m', base + length S * N)"
proof -
  let ?s = "length S"
  have s: "?s \<le> ?s * N" using N by simp
  have mb: "mapped m base ?s" by (rule mapped_part [OF m(3)]) (use s in linarith)+
  have ap: "apart base src ?s" using apart s unfolding apart_def by linarith
  show "copy m base src ?s = Some (copied m base src ?s)" by (rule copies [OF m(1) mb ap])
  have "bytes_at (copied m base src ?s) base ?s = bytes_at m src ?s"
    by (rule nth_equalityI) (simp_all add: bytes_at_def copied_at)
  moreover have "copied m base src ?s y = m y" if "y < base \<or> base + ?s * N \<le> y" for y
  proof -
    have "\<not> (base \<le> y \<and> y < base + ?s)" using that s by linarith
    then show ?thesis by (auto simp: copied_at)
  qed
  ultimately have "filled m S base N 1 (copied m base src ?s, base + ?s)"
    using m by (simp add: filled_def)
  from doubling.loop_from_one [OF step_fills [OF size_at] this N]
  obtain m' c where *: "doubling_loop (repeat_step copy size_at base) 0 (odd N) (N div 2) (copied m base src ?s, base + ?s) = Some (m', c)"
    "filled m S base N N (m', c)" by auto
  then have "c = base + ?s * N" by (simp add: filled_def)
  then show "\<exists>m'. doubling_loop (repeat_step copy size_at base) 0 (odd N) (N div 2) (copied m base src ?s, base + ?s)
      = Some (m', base + ?s * N) \<and> filled m S base N N (m', base + ?s * N)" using * by blast
qed

lemma repeat_logn_fills:
  assumes m: "mapped m src (length S)" "bytes_at m src (length S) = S" "mapped m base (length S * N)"
    and apart: "base + length S * N \<le> src \<or> src + length S \<le> base"
    and N: "0 < N" "N < 2 ^ 31" "length S * N < 2 ^ 31"
  shows "repeat_logn copy m base src (length S) (int N) = Some (put_bytes m base (concat (replicate N S)))"
proof -
  have len: "int32_len (length S) k = Some (length S * 2 ^ k)" if "2 * 2 ^ k \<le> N" for k
    by (rule int32_len_small [OF that N(2,3)])
  obtain m' where "doubling_loop (repeat_step copy (int32_len (length S)) base) 0 (odd N) (N div 2) (copied m base src (length S), base + length S)
      = Some (m', base + length S * N)" "filled m S base N N (m', base + length S * N)"
    using loop_fills(2) [OF m apart N(1) len] by blast
  then show ?thesis
    using loop_fills(1) [OF m apart N(1) len] filled_full by (simp add: repeat_logn_def Let_def)
qed

end

text \<open>The one with memcpy\_fast, and the repetition without doubling.\<close>

lemma shifted_size_small:
  assumes "2 * 2 ^ k \<le> N" "N < 2 ^ 31" "unat n * N < 2 ^ 64"
  shows "shifted_size n k = Some (unat n * 2 ^ k)"
proof -
  have "(2 :: nat) ^ Suc k < 2 ^ 31" using le_less_trans [OF assms(1,2)] by simp
  then have k: "k < 31" using power_less_imp_less_exp [of "2 :: nat" "Suc k" 31] by simp
  have "unat n * 2 ^ k \<le> unat n * N" using assms(1) by (intro mult_le_mono2) simp
  then have lt: "unat n * 2 ^ k < 2 ^ 64" using assms(3) by linarith
  have "unat (2 ^ k :: u64) = 2 ^ k" using k by (intro unat_2p) simp
  then have "unat (n * 2 ^ k) = unat n * 2 ^ k" using lt unat_mult_lem [of n "2 ^ k"] by simp
  then show ?thesis using k by (simp add: shifted_size_def)
qed

lemma put_nil: "put_bytes m a [] = m"
  by (rule ext) (auto simp: put_bytes_def)

lemma put_more:
  assumes "b = a + length xs" "mapped m0 src (length S)" "bytes_at m0 src (length S) = S"
    and "a + length xs \<le> src \<or> src + length S \<le> a"
  shows "copied (put_bytes m0 a xs) b src (length S) = put_bytes m0 a (xs @ S)"
proof -
  have "bytes_at (put_bytes m0 a xs) src (length S) = bytes_at m0 src (length S)"
    using assms(4) by (intro bytes_at_cong) (auto simp: put_bytes_def)
  then show ?thesis using put_append [OF assms(1)] by (simp add: copied_def assms(3))
qed

lemma original_loop_fills:
  assumes m: "mapped m src (length S)" "bytes_at m src (length S) = S" "mapped m base (length S * (c + i))"
    and apart: "base + length S * (c + i) \<le> src \<or> src + length S \<le> base"
  shows "original_loop i (put_bytes m base (concat (replicate c S))) src (base + length S * c) (length S)
    = Some (put_bytes m base (concat (replicate (c + i) S)), base + length S * (c + i))"
  using m(3) apart
proof (induction i arbitrary: c)
  case (Suc i)
  let ?s = "length S" and ?m = "put_bytes m base (concat (replicate c S))"
  have le: "?s * c + ?s \<le> ?s * (c + Suc i)" by (simp add: add_mult_distrib2)
  have mp: "mapped ?m src ?s" "mapped ?m (base + ?s * c) ?s"
    using m(1) le by (auto intro!: mapped_put intro: mapped_part [OF Suc.prems(1)])
  have ap: "apart (base + ?s * c) src ?s" using Suc.prems(2) le unfolding apart_def by linarith
  have dis: "base + ?s * c \<le> src \<or> src + ?s \<le> base" using Suc.prems(2) le by linarith
  have "copied ?m (base + ?s * c) src ?s = put_bytes m base (concat (replicate c S) @ S)"
    using dis m(1,2) by (intro put_more) simp_all
  also have "concat (replicate c S) @ S = concat (replicate (Suc c) S)"
    using repeated_add [of c 1 S] by simp
  finally have "copy_fast ?m (base + ?s * c) src ?s = Some (put_bytes m base (concat (replicate (Suc c) S)))"
    using fast_copy.copies [OF mp ap] by simp
  then show ?case using Suc.IH [of "Suc c"] Suc.prems by (simp add: ac_simps)
qed simp

section \<open>Strings and counts\<close>

interpretation counting: doubling "\<lambda>k last_bit x. do { guard (k + of_bool last_bit < 31); count_n_delta (2 ^ (k + of_bool last_bit)) x }"
  "\<lambda>c x. x = c \<and> N < 2 ^ 31" N for N :: nat
proof
  fix c x k :: nat and b
  assume x: "x = c \<and> N < 2 ^ 31" and le: "c + 2 ^ k + (if b then 2 ^ k else 0) \<le> N" and k: "2 ^ k \<le> c"
  have e: "(2 :: nat) ^ (k + of_bool b) = 2 ^ k + (if b then 2 ^ k else 0)" by simp
  then have "(2 :: nat) ^ (k + of_bool b) < 2 ^ 31" using le x k by linarith
  then have "k + of_bool b < 31" using power_less_imp_less_exp [of "2 :: nat" "k + of_bool b" 31] by simp
  moreover have "count_n_delta (2 ^ (k + of_bool b)) x = Some (c + 2 ^ k + (if b then 2 ^ k else 0))"
    using x le unfolding count_n_delta_def e by (auto simp: add.assoc)
  ultimately show "\<exists>y. (do { guard (k + of_bool b < 31); count_n_delta (2 ^ (k + of_bool b)) x }) = Some y \<and>
      (y = c + 2 ^ k + (if b then 2 ^ k else 0) \<and> N < 2 ^ 31)"
    using x by simp
qed

lemma append_loop_eq: "append_loop i s r = r @ concat (replicate i s)"
  by (induction i arbitrary: r) simp_all

lemma insert_step_zeros:
  assumes "s * N < 2 ^ 31" "N < 2 ^ 31"
  shows "doubling (insert_step s) (\<lambda>c x. 0 < c \<and> x = replicate (s * N) 0 @ S @ replicate (s * (c - 1)) 0) N"
proof
  fix c k b and x :: bytes
  assume x: "0 < c \<and> x = replicate (s * N) 0 @ S @ replicate (s * (c - 1)) 0" and k: "2 ^ k \<le> c"
    and le: "c + 2 ^ k + (if b then 2 ^ k else 0) \<le> N"
  have len: "int32_len s k = Some (s * 2 ^ k)" using assms k le by (intro int32_len_small [of k N]) auto
  have "2 ^ k \<le> N" using k le by linarith
  then have z: "s * 2 ^ k \<le> s * N" by (intro mult_le_mono2)
  have t: "take (s * 2 ^ k) (replicate (s * N) 0 @ ys) = replicate (s * 2 ^ k) 0" for ys :: bytes
    using z by (simp add: min_def)
  have r: "replicate (s * i) (0 :: byte) @ replicate (s * j) 0 = replicate (s * (i + j)) 0" for i j
    by (simp add: replicate_add add_mult_distrib2)
  have e: "c - 1 + 2 ^ k = c + 2 ^ k - 1" "c + 2 ^ k - 1 + 2 ^ k = c + 2 ^ k + 2 ^ k - 1" using x by simp_all
  have "length x = s * N + (length S + s * (c - 1))" using x by simp
  then have le1: "s * 2 ^ k \<le> length x" using z by linarith
  have s1: "x @ take (s * 2 ^ k) x = replicate (s * N) 0 @ S @ replicate (s * (c + 2 ^ k - 1)) 0"
    using x t [of "S @ replicate (s * (c - 1)) 0"] r [of "c - 1" "2 ^ k"] by (simp only: append_assoc e)
  have s2: "(x @ take (s * 2 ^ k) x) @ take (s * 2 ^ k) (x @ take (s * 2 ^ k) x)
      = replicate (s * N) 0 @ S @ replicate (s * (c + 2 ^ k + 2 ^ k - 1)) 0"
    unfolding s1 using t [of "S @ replicate (s * (c + 2 ^ k - 1)) 0"] r [of "c + 2 ^ k - 1" "2 ^ k"] by (simp only: append_assoc e)
  show "\<exists>y. insert_step s k b x = Some y \<and> (0 < c + 2 ^ k + (if b then 2 ^ k else 0) \<and>
      y = replicate (s * N) 0 @ S @ replicate (s * (c + 2 ^ k + (if b then 2 ^ k else 0) - 1)) 0)"
  proof (cases b)
    case True
    then have "insert_step s k b x = Some ((x @ take (s * 2 ^ k) x) @ take (s * 2 ^ k) (x @ take (s * 2 ^ k) x))"
      using len le1 by (simp only: insert_step_def Let_def bind.bind_lunit guard_True if_True)
    then show ?thesis unfolding s2 using True x by simp
  next
    case False
    then have "insert_step s k b x = Some (x @ take (s * 2 ^ k) x)"
      using len le1 by (simp only: insert_step_def Let_def bind.bind_lunit guard_True if_False)
    then show ?thesis unfolding s1 using False x by simp
  qed
qed

section \<open>Properties\<close>

text \<open>
  C29. Repetition by doubling is repetition: for a count of at least one whose result is shorter
  than 2 ^ 31 bytes, and room for it that does not overlap the string, each of the four variants
  leaves the count copies of the string in that room, whatever it held, and the rest of the
  memory as it was; the bytes written are what repeat\_string\_n returns by appending.
\<close>
theorem repeat_strings_agree:
  assumes "mapped m s_begin (length s)" "bytes_at m s_begin (length s) = s" "mapped m result (length s * n)"
    "result + length s * n \<le> s_begin \<or> s_begin + length s \<le> result"
    "0 < n" "n < 2 ^ 31" "length s * n < 2 ^ 31"
  shows "\<exists>r. repeat_string_n s (int n) = Some r \<and>
    repeat_string_logn_gutil_memcpy_inline m result s_begin (length s) (int n) = Some (put_bytes m result r) \<and>
    repeat_string_logn_simd_memcpy_inline_1 m result s_begin (length s) (int n) = Some (put_bytes m result r) \<and>
    repeat_string_logn_memcpy m result s_begin (length s) (int n) = Some (put_bytes m result r) \<and>
    repeat_string_logn_simd_memcpy_inline_2 m result s_begin (length s) (int n) = Some (put_bytes m result r)"
  unfolding repeat_string_logn_gutil_memcpy_inline_def repeat_string_logn_simd_memcpy_inline_1_def
    repeat_string_logn_memcpy_def repeat_string_logn_simd_memcpy_inline_2_def
    inlined_copy.repeat_logn_fills [OF assms] simd_copy_gutil.repeat_logn_fills [OF assms]
    std_copy.repeat_logn_fills [OF assms] simd_copy_rest.repeat_logn_fills [OF assms]
  by (simp add: repeat_string_n_def append_loop_eq)

theorem repeat_strings_agree_witness:
  "\<exists>r. repeat_string_n [0x61, 0x62] (int 3) = Some r \<and>
    repeat_string_logn_gutil_memcpy_inline repeat_memory 10 1 (length [0x61 :: byte, 0x62]) (int 3) = Some (put_bytes repeat_memory 10 r) \<and>
    repeat_string_logn_simd_memcpy_inline_1 repeat_memory 10 1 (length [0x61 :: byte, 0x62]) (int 3) = Some (put_bytes repeat_memory 10 r) \<and>
    repeat_string_logn_memcpy repeat_memory 10 1 (length [0x61 :: byte, 0x62]) (int 3) = Some (put_bytes repeat_memory 10 r) \<and>
    repeat_string_logn_simd_memcpy_inline_2 repeat_memory 10 1 (length [0x61 :: byte, 0x62]) (int 3) = Some (put_bytes repeat_memory 10 r)"
proof -
  have "mapped repeat_memory 1 (length [0x61 :: byte, 0x62])" "mapped repeat_memory 10 (length [0x61 :: byte, 0x62] * 3)"
    by (auto simp: mapped_def repeat_memory_def)
  moreover have "bytes_at repeat_memory 1 (length [0x61 :: byte, 0x62]) = [0x61, 0x62]"
    by (simp add: bytes_at_def repeat_memory_def upt_rec)
  ultimately show ?thesis by (intro repeat_strings_agree) simp_all
qed

text \<open>
  fast\_repeat and original\_repeat leave the same memory behind, for every repeat\_time below
  2 ^ 31: the repeated string and its terminator, the copies made by memcpy\_fast.
\<close>
theorem fast_repeat_is_original:
  assumes m: "mapped m src (length s)" "bytes_at m src (length s) = s" "mapped m dst (length s * unat t + 1)"
    and apart: "dst + length s * unat t \<le> src \<or> src + length s \<le> dst"
    and n: "unat (n - 1) = length s" "unat t < 2 ^ 31" "length s * unat t < 2 ^ 64"
  shows "fast_repeat m src dst n t = Some (put_bytes m dst (concat (replicate (unat t) s) @ [0])) \<and>
    original_repeat m src dst n t = fast_repeat m src dst n t"
proof -
  let ?s = "length s" and ?t = "unat t"
  have md: "mapped m dst (?s * ?t)" "mapped m (dst + ?s * ?t) 1" by (auto intro: mapped_part [OF m(3)])
  let ?m = "put_bytes m dst (concat (replicate ?t s))"
  have fin: "store ?m (dst + ?s * ?t) [0] = Some (put_bytes m dst (concat (replicate ?t s) @ [0]))"
    using md(2) put_append [of "dst + ?s * ?t" dst "concat (replicate ?t s)" m "[0]"] by (simp add: store_some)
  have "original_loop ?t m src dst ?s = Some (?m, dst + ?s * ?t)"
    using original_loop_fills [OF m(1,2), of dst 0 ?t] md(1) apart by (simp add: put_nil)
  then have orig: "original_repeat m src dst n t = Some (put_bytes m dst (concat (replicate ?t s) @ [0]))"
    using fin n(1) by (simp add: original_repeat_def)
  have "fast_repeat m src dst n t = Some (put_bytes m dst (concat (replicate ?t s) @ [0]))"
  proof (cases "t = 0")
    case True
    then show ?thesis using fin by (simp add: fast_repeat_def put_nil)
  next
    case False
    then have t0: "0 < ?t" by (simp add: unat_gt_0)
    have sz: "shifted_size (n - 1) k = Some (?s * 2 ^ k)" if "2 * 2 ^ k \<le> ?t" for k
      using shifted_size_small [OF that n(2), of "n - 1"] n(1,3) by simp
    obtain m' where "doubling_loop (repeat_step copy_fast (shifted_size (n - 1)) dst) 0 (odd ?t) (?t div 2) (copied m dst src ?s, dst + ?s)
        = Some (m', dst + ?s * ?t)" "filled m s dst ?t ?t (m', dst + ?s * ?t)"
      using fast_copy.loop_fills(2) [OF m(1,2) md(1) apart t0 sz] by blast
    then show ?thesis
      using fast_copy.loop_fills(1) [OF m(1,2) md(1) apart t0 sz] filled_full fin False n(1)
      by (simp add: fast_repeat_def Let_def)
  qed
  then show ?thesis using orig by simp
qed

theorem fast_repeat_is_original_witness:
  "fast_repeat repeat_memory 1 10 3 2 = Some (put_bytes repeat_memory 10 [0x61, 0x62, 0x61, 0x62, 0]) \<and>
   original_repeat repeat_memory 1 10 3 2 = fast_repeat repeat_memory 1 10 3 2"
proof -
  have "mapped repeat_memory 1 (length [0x61 :: byte, 0x62])" "mapped repeat_memory 10 (length [0x61 :: byte, 0x62] * unat (2 :: u64) + 1)"
    by (auto simp: mapped_def repeat_memory_def)
  moreover have "bytes_at repeat_memory 1 (length [0x61 :: byte, 0x62]) = [0x61, 0x62]"
    by (simp add: bytes_at_def repeat_memory_def upt_rec)
  ultimately have "fast_repeat repeat_memory 1 10 3 2 = Some (put_bytes repeat_memory 10 (concat (replicate (unat (2 :: u64)) [0x61, 0x62]) @ [0])) \<and>
      original_repeat repeat_memory 1 10 3 2 = fast_repeat repeat_memory 1 10 3 2"
    by (intro fast_repeat_is_original) simp_all
  moreover have "unat (2 :: u64) = Suc (Suc 0)" by simp
  then have "concat (replicate (unat (2 :: u64)) [0x61, 0x62]) @ [0] = [0x61, 0x62, 0x61, 0x62, 0 :: byte]"
    by (simp only:) simp
  ultimately show ?thesis by (simp only:)
qed

text \<open>
  repeat\_string\_logn does not repeat: it resizes the result to its final size before it
  starts to append, so the result begins with that many zero bytes, has the string once, and
  what it appends afterwards are again zero bytes of its own beginning.
\<close>
theorem repeat_string_logn_zeros:
  assumes "0 < n" "n < 2 ^ 31" "length s * n < 2 ^ 31"
  shows "repeat_string_logn s (int n) = Some (replicate (length s * n) 0 @ s @ replicate (length s * (n - 1)) 0)"
  using doubling.loop_from_one [OF insert_step_zeros [OF assms(3,2), of s], of "replicate (length s * n) 0 @ s"] assms(1)
  by (auto simp: repeat_string_logn_def Let_def)

theorem repeat_string_logn_zeros_witness: "repeat_string_logn [0x61] (int 2) = Some [0, 0, 0x61, 0] \<and> repeat_string_n [0x61] 2 = Some [0x61, 0x61]"
proof -
  have "repeat_string_logn [0x61] (int 2) = Some (replicate (length [0x61 :: byte] * 2) 0 @ [0x61] @ replicate (length [0x61 :: byte] * (2 - 1)) 0)"
    by (rule repeat_string_logn_zeros) simp_all
  then show ?thesis by (simp add: repeat_string_n_def numeral_2_eq_2)
qed

text \<open>The template fast\_repeat advances its client by exactly its count: count\_n returns its argument.\<close>
theorem count_n_counts:
  assumes "0 < num" "num < 2 ^ 31"
  shows "count_n num = Some num"
  using counting.loop_from_one [of 1 num] assms
  by (auto simp: count_n_def fast_repeat_with_def count_n_init_def Let_def)

theorem count_n_counts_witness: "count_n 13 = Some 13"
  by (rule count_n_counts) simp_all

end
