(* ===== verification/HashMix.thy ===== *)
theory HashMix
  imports Prelude "HOL-Library.Multiset"
begin

unbundle bit_operations_syntax

text \<open>
  The integer hash functions of include/folly/hash/Hash.h: the mixers of Wang and Jenkins with
  their inverses, the reduction of two hashes to one, FNV and Hsieh hashes of byte strings, and
  the combination of the hashes of several values.  Unsigned arithmetic wraps at its width.  The
  hashers of the values that are combined are parameters: only their results are used.
\<close>

section \<open>Mixers\<close>

definition hash_128_to_64 :: "u64 \<Rightarrow> u64 \<Rightarrow> u64" where
  "hash_128_to_64 upper lower =
     (let kMul = 0x9ddfea08eb382d69;
          a = (lower XOR upper) * kMul;
          a = a XOR drop_bit 47 a;
          b = (upper XOR a) * kMul;
          b = b XOR drop_bit 47 b
      in b * kMul)"

definition commutative_hash_128_to_64 :: "u64 \<Rightarrow> u64 \<Rightarrow> u64" where
  "commutative_hash_128_to_64 upper lower = 3860031 + (upper + lower) * 2779 + (upper * lower * 2)"

definition twang_mix64 :: "u64 \<Rightarrow> u64" where
  "twang_mix64 key =
     (let key = NOT key + push_bit 21 key;
          key = key XOR drop_bit 24 key;
          key = key + push_bit 3 key + push_bit 8 key;
          key = key XOR drop_bit 14 key;
          key = key + push_bit 2 key + push_bit 4 key;
          key = key XOR drop_bit 28 key
      in key + push_bit 31 key)"

definition twang_unmix64 :: "u64 \<Rightarrow> u64" where
  "twang_unmix64 key =
     (let key = key * 4611686016279904257;
          key = key XOR (drop_bit 28 key XOR drop_bit 56 key);
          key = key * 14933078535860113213;
          key = key XOR (drop_bit 14 key XOR drop_bit 28 key XOR drop_bit 42 key XOR drop_bit 56 key);
          key = key * 15244667743933553977;
          key = key XOR (drop_bit 24 key XOR drop_bit 48 key)
      in (key + 1) * 9223367638806167551)"

definition twang_32from64 :: "u64 \<Rightarrow> u32" where
  "twang_32from64 key =
     (let key = NOT key + push_bit 18 key;
          key = key XOR drop_bit 31 key;
          key = key * 21;
          key = key XOR drop_bit 11 key;
          key = key + push_bit 6 key;
          key = key XOR drop_bit 22 key
      in ucast key)"

definition jenkins_rev_mix32 :: "u32 \<Rightarrow> u32" where
  "jenkins_rev_mix32 key =
     (let key = key + push_bit 12 key;
          key = key XOR drop_bit 22 key;
          key = key + push_bit 4 key;
          key = key XOR drop_bit 9 key;
          key = key + push_bit 10 key;
          key = key XOR drop_bit 2 key;
          key = key + push_bit 7 key
      in key + push_bit 12 key)"

definition jenkins_rev_unmix32 :: "u32 \<Rightarrow> u32" where
  "jenkins_rev_unmix32 key =
     (let key = key * 2364026753;
          key = key XOR (drop_bit 2 key XOR drop_bit 4 key XOR drop_bit 6 key XOR drop_bit 8 key XOR drop_bit 10 key XOR
            drop_bit 12 key XOR drop_bit 14 key XOR drop_bit 16 key XOR drop_bit 18 key XOR drop_bit 20 key XOR
            drop_bit 22 key XOR drop_bit 24 key XOR drop_bit 26 key XOR drop_bit 28 key XOR drop_bit 30 key);
          key = key * 3222273025;
          key = key XOR (drop_bit 9 key XOR drop_bit 18 key XOR drop_bit 27 key);
          key = key * 4042322161;
          key = key XOR drop_bit 22 key
      in key * 16773121)"

section \<open>FNV\<close>

definition fnv32_hash_start :: u32 where "fnv32_hash_start = 2166136261"

definition fnv64_hash_start :: u64 where "fnv64_hash_start = 14695981039346656037"

definition fnva64_hash_start :: u64 where "fnva64_hash_start = 14695981039346656037"

text \<open>The byte is cast to int8\_t, so that its sign is extended.\<close>

definition fnv32_append_byte :: "u32 \<Rightarrow> byte \<Rightarrow> u32" where
  "fnv32_append_byte hash c =
     (let hash = hash + push_bit 1 hash + push_bit 4 hash + push_bit 7 hash + push_bit 8 hash + push_bit 24 hash
      in hash XOR scast c)"

text \<open>The loops over the n bytes of a buffer; a read past its end is a fault.\<close>

fun buf_loop :: "('h \<Rightarrow> byte \<Rightarrow> 'h) \<Rightarrow> bytes \<Rightarrow> nat \<Rightarrow> 'h \<Rightarrow> 'h option" where
  "buf_loop append_byte buf 0 hash = Some hash"
| "buf_loop append_byte [] (Suc n) hash = None"
| "buf_loop append_byte (c # buf) (Suc n) hash = buf_loop append_byte buf n (append_byte hash c)"

text \<open>The loops up to the terminating zero.\<close>

fun cstr_loop :: "('h \<Rightarrow> byte \<Rightarrow> 'h) \<Rightarrow> bytes \<Rightarrow> 'h \<Rightarrow> 'h option" where
  "cstr_loop append_byte [] hash = None"
| "cstr_loop append_byte (c # buf) hash = (if c = 0 then Some hash else cstr_loop append_byte buf (append_byte hash c))"

definition fnv32_buf :: "bytes \<Rightarrow> nat \<Rightarrow> u32 \<Rightarrow> u32 option" where
  "fnv32_buf = buf_loop fnv32_append_byte"

definition fnv32_cstr :: "bytes \<Rightarrow> u32 \<Rightarrow> u32 option" where
  "fnv32_cstr = cstr_loop fnv32_append_byte"

definition fnv32 :: "bytes \<Rightarrow> u32 \<Rightarrow> u32 option" where
  "fnv32 str hash = fnv32_buf str (length str) hash"

definition fnv64_append_byte :: "u64 \<Rightarrow> byte \<Rightarrow> u64" where
  "fnv64_append_byte hash c =
     (let hash = hash + push_bit 1 hash + push_bit 4 hash + push_bit 5 hash + push_bit 7 hash + push_bit 8 hash + push_bit 40 hash
      in hash XOR scast c)"

definition fnv64_buf :: "bytes \<Rightarrow> nat \<Rightarrow> u64 \<Rightarrow> u64 option" where
  "fnv64_buf = buf_loop fnv64_append_byte"

definition fnv64_cstr :: "bytes \<Rightarrow> u64 \<Rightarrow> u64 option" where
  "fnv64_cstr = cstr_loop fnv64_append_byte"

definition fnv64 :: "bytes \<Rightarrow> u64 \<Rightarrow> u64 option" where
  "fnv64 str hash = fnv64_buf str (length str) hash"

definition fnva64_append_byte :: "u64 \<Rightarrow> byte \<Rightarrow> u64" where
  "fnva64_append_byte hash c =
     (let hash = hash XOR ucast c
      in hash + push_bit 1 hash + push_bit 4 hash + push_bit 5 hash + push_bit 7 hash + push_bit 8 hash + push_bit 40 hash)"

definition fnva64_buf :: "bytes \<Rightarrow> nat \<Rightarrow> u64 \<Rightarrow> u64 option" where
  "fnva64_buf = buf_loop fnva64_append_byte"

definition fnva64 :: "bytes \<Rightarrow> u64 \<Rightarrow> u64 option" where
  "fnva64 str hash = fnva64_buf str (length str) hash"

section \<open>Hsieh\<close>

text \<open>The loads are little-endian; an empty list stands for what is left of the buffer at its end.\<close>

fun get16bits :: "bytes \<Rightarrow> u32 option" where
  "get16bits (a # b # s) = Some (ucast a + push_bit 8 (ucast b))"
| "get16bits s = None"

fun hsieh_loop :: "nat \<Rightarrow> bytes \<Rightarrow> u32 \<Rightarrow> (bytes \<times> u32) option" where
  "hsieh_loop 0 s hash = Some (s, hash)"
| "hsieh_loop (Suc len) s hash =
     do { lo \<leftarrow> get16bits s;
          let hash = hash + lo;
          hi \<leftarrow> get16bits (drop 2 s);
          let tmp = push_bit 11 hi XOR hash;
          let hash = push_bit 16 hash XOR tmp;
          hsieh_loop len (drop 4 s) (hash + drop_bit 11 hash) }"

definition hsieh_rest :: "nat \<Rightarrow> bytes \<Rightarrow> u32 \<Rightarrow> u32 option" where
  "hsieh_rest rem s hash =
     (if rem = 3 then do { w \<leftarrow> get16bits s;
                           let hash = hash + w;
                           let hash = hash XOR push_bit 16 hash;
                           guard (2 < length s);
                           let hash = hash XOR push_bit 18 (ucast (s ! 2));
                           Some (hash + drop_bit 11 hash) }
      else if rem = 2 then do { w \<leftarrow> get16bits s;
                                let hash = hash + w;
                                let hash = hash XOR push_bit 11 hash;
                                Some (hash + drop_bit 17 hash) }
      else if rem = 1 then do { guard (0 < length s);
                                let hash = hash + ucast (s ! 0);
                                let hash = hash XOR push_bit 10 hash;
                                Some (hash + drop_bit 1 hash) }
      else Some hash)"

definition hsieh_final :: "u32 \<Rightarrow> u32" where
  "hsieh_final hash =
     (let hash = hash XOR push_bit 3 hash;
          hash = hash + drop_bit 5 hash;
          hash = hash XOR push_bit 4 hash;
          hash = hash + drop_bit 17 hash;
          hash = hash XOR push_bit 25 hash
      in hash + drop_bit 6 hash)"

definition hsieh_hash32_buf_constexpr :: "bytes \<Rightarrow> nat \<Rightarrow> u32 option" where
  "hsieh_hash32_buf_constexpr buf len =
     (if len = 0 then Some 0
      else do { (s, hash) \<leftarrow> hsieh_loop (len div 4) buf (of_nat len);
                hash \<leftarrow> hsieh_rest (len mod 4) s hash;
                Some (hsieh_final hash) })"

definition hsieh_hash32_str :: "bytes \<Rightarrow> u32 option" where
  "hsieh_hash32_str str = hsieh_hash32_buf_constexpr str (length str)"

section \<open>Hashers and combinations\<close>

text \<open>integral\_hasher by the size of the type: four bytes or less, eight or less, sixteen.\<close>

definition integral_hasher32 :: "u32 \<Rightarrow> u64" where
  "integral_hasher32 i = ucast (jenkins_rev_mix32 i)"

definition integral_hasher64 :: "u64 \<Rightarrow> u64" where
  "integral_hasher64 i = twang_mix64 i"

definition integral_hasher128 :: "u128 \<Rightarrow> u64" where
  "integral_hasher128 i = hash_128_to_64 (ucast (drop_bit 64 i)) (ucast i)"

definition bool_hasher :: "bool \<Rightarrow> u64" where
  "bool_hasher key = (if key then - 1 else 0)"

text \<open>Hash of several values from their hashes.\<close>

fun Hash :: "u64 list \<Rightarrow> u64" where
  "Hash [] = 0"
| "Hash [h] = h"
| "Hash (h # hs) = hash_128_to_64 h (Hash hs)"

fun hash_combine_generic :: "('a \<Rightarrow> u64) \<Rightarrow> 'a list \<Rightarrow> u64" where
  "hash_combine_generic h [] = 0"
| "hash_combine_generic h (t # ts) =
     (let seed = h t
      in if ts = [] then seed
         else let remainder = hash_combine_generic h ts in hash_128_to_64 seed remainder)"

fun hash_range :: "('a \<Rightarrow> u64) \<Rightarrow> 'a list \<Rightarrow> u64 \<Rightarrow> u64" where
  "hash_range hasher [] hash = hash"
| "hash_range hasher (v # vs) hash = hash_range hasher vs (hash_128_to_64 hash (hasher v))"

definition commutative_hash_combine_value_generic :: "bool \<Rightarrow> u64 \<Rightarrow> ('a \<Rightarrow> u64) \<Rightarrow> 'a \<Rightarrow> u64" where
  "commutative_hash_combine_value_generic avalanching seed hasher v =
     (let x = hasher v; y = (if avalanching then x else twang_mix64 x) in commutative_hash_128_to_64 seed y)"

fun commutative_hash_combine_range_generic :: "bool \<Rightarrow> u64 \<Rightarrow> ('a \<Rightarrow> u64) \<Rightarrow> 'a list \<Rightarrow> u64" where
  "commutative_hash_combine_range_generic av seed hasher [] = seed"
| "commutative_hash_combine_range_generic av seed hasher (v # vs) =
     commutative_hash_combine_range_generic av (commutative_hash_combine_value_generic av seed hasher v) hasher vs"

text \<open>The shifted copies of a word, combined: what undoes one step of shift and exclusive or.\<close>

fun shifts :: "nat \<Rightarrow> nat \<Rightarrow> 'a::len word \<Rightarrow> 'a word" where
  "shifts n 0 x = x"
| "shifts n (Suc m) x = x XOR drop_bit n (shifts n m x)"

text \<open>With one of the two hashes fixed, the reduction to one hash is a composition of such steps.\<close>

definition hash_128_to_64_lower :: "u64 \<Rightarrow> u64 \<Rightarrow> u64" where
  "hash_128_to_64_lower upper h =
     (let kInv = 15877131476434367193; b = shifts 47 1 (h * kInv); a = shifts 47 1 ((b * kInv) XOR upper) in (a * kInv) XOR upper)"

section \<open>Invertible steps\<close>

text \<open>A step of a mixer and the step that undoes it.\<close>

locale invertible =
  fixes f g :: "'a \<Rightarrow> 'a"
  assumes undo: "g (f x) = x" and redo: "f (g x) = x"
begin

lemma bijective: "bij f"
  by (rule o_bij [of g]) (auto simp: fun_eq_iff undo redo)

end

lemma invertible_comp:
  assumes "invertible f f'" "invertible g g'"
  shows "invertible (\<lambda>x. g (f x)) (\<lambda>x. f' (g' x))"
  using assms by (simp add: invertible_def)

lemma invertible_mult: "a * b = 1 \<Longrightarrow> invertible (\<lambda>x :: 'a::len word. x * a) (\<lambda>x. x * b)"
  by unfold_locales (simp_all add: mult.assoc mult.commute [of b a])

lemma shifts_xor: "shifts n m (x XOR drop_bit n x) = x XOR drop_bit (n * Suc m) x"
proof (induction m)
  case (Suc m)
  have "shifts n (Suc m) (x XOR drop_bit n x) = (x XOR drop_bit n x) XOR (drop_bit n x XOR drop_bit n (drop_bit (n * Suc m) x))"
    using Suc by (simp add: drop_bit_xor)
  also have "\<dots> = x XOR drop_bit (n * Suc (Suc m)) x" by (simp add: xor.assoc drop_bit_drop_bit add.commute)
  finally show ?case .
qed simp

lemma xor_shifts: "shifts n m x XOR drop_bit n (shifts n m x) = x XOR drop_bit (n * Suc m) x"
proof (induction m)
  case (Suc m)
  have "shifts n (Suc m) x XOR drop_bit n (shifts n (Suc m) x)
      = (x XOR drop_bit n (shifts n m x)) XOR (drop_bit n x XOR drop_bit n (drop_bit n (shifts n m x)))"
    by (simp add: drop_bit_xor)
  also have "\<dots> = (x XOR drop_bit n x) XOR drop_bit n (shifts n m x XOR drop_bit n (shifts n m x))"
    by (simp add: drop_bit_xor ac_simps)
  also have "\<dots> = x XOR drop_bit (n * Suc (Suc m)) x"
    unfolding Suc by (simp add: drop_bit_xor xor.assoc drop_bit_drop_bit add.commute)
  finally show ?case .
qed simp

lemma invertible_xorshift:
  assumes "LENGTH('a) \<le> n * Suc m"
  shows "invertible (\<lambda>x :: 'a::len word. x XOR drop_bit n x) (shifts n m)"
proof -
  have "drop_bit (n * Suc m) x = 0" for x :: "'a word"
    using assms by (intro bit_word_eqI) (auto simp: bit_drop_bit_eq dest: bit_imp_le_length)
  then show ?thesis by unfold_locales (simp_all add: shifts_xor xor_shifts)
qed

lemmas shift_sums = push_bit_eq_mult algebra_simps

lemma invertible_affine:
  assumes "a * b = 1"
  shows "invertible (\<lambda>x :: 'a::len word. x * a - 1) (\<lambda>x. (x + 1) * b)"
  by unfold_locales (use assms in \<open>simp_all add: mult.assoc mult.commute [of b a]\<close>)

lemma twang_steps:
  "invertible (\<lambda>key :: u64. NOT key + push_bit 21 key) (\<lambda>key. (key + 1) * 9223367638806167551)"
  "invertible (\<lambda>key :: u64. key + push_bit 3 key + push_bit 8 key) (\<lambda>key. key * 15244667743933553977)"
  "invertible (\<lambda>key :: u64. key + push_bit 2 key + push_bit 4 key) (\<lambda>key. key * 14933078535860113213)"
  "invertible (\<lambda>key :: u64. key + push_bit 31 key) (\<lambda>key. key * 4611686016279904257)"
proof -
  have "(\<lambda>key :: u64. NOT key + push_bit 21 key) = (\<lambda>key. key * (2 ^ 21 - 1) - 1)"
    by (simp add: fun_eq_iff not_eq_complement push_bit_eq_mult algebra_simps)
  then show "invertible (\<lambda>key :: u64. NOT key + push_bit 21 key) (\<lambda>key. (key + 1) * 9223367638806167551)"
    using invertible_affine [of "2 ^ 21 - 1 :: u64" 9223367638806167551] by simp
  have "(\<lambda>key :: u64. key + push_bit 3 key + push_bit 8 key) = (\<lambda>key. key * 265)"
    "(\<lambda>key :: u64. key + push_bit 2 key + push_bit 4 key) = (\<lambda>key. key * 21)"
    "(\<lambda>key :: u64. key + push_bit 31 key) = (\<lambda>key. key * 2147483649)"
    by (simp_all add: fun_eq_iff push_bit_eq_mult)
  then show "invertible (\<lambda>key :: u64. key + push_bit 3 key + push_bit 8 key) (\<lambda>key. key * 15244667743933553977)"
    "invertible (\<lambda>key :: u64. key + push_bit 2 key + push_bit 4 key) (\<lambda>key. key * 14933078535860113213)"
    "invertible (\<lambda>key :: u64. key + push_bit 31 key) (\<lambda>key. key * 4611686016279904257)"
    by (simp_all add: invertible_mult)
qed

lemma shifts_fold: "shifts n m x = foldr (\<lambda>i y. drop_bit (n * i) x XOR y) [0..<Suc m] 0"
proof (induction m)
  case (Suc m)
  have fold: "drop_bit n (foldr (\<lambda>i y. drop_bit (n * i) x XOR y) is 0) = foldr (\<lambda>i y. drop_bit (n * i) x XOR y) (map Suc is) 0" for "is"
    by (induction "is") (simp_all add: drop_bit_xor drop_bit_drop_bit add.commute)
  have l: "[0..<Suc (Suc m)] = 0 # map Suc [0..<Suc m]"
    unfolding map_Suc_upt by (rule upt_conv_Cons) simp
  show ?case unfolding l shifts.simps Suc fold by (simp del: upt_Suc)
qed simp

lemma upto_lists:
  "[0..<Suc 1] = [0, 1]" "[0..<Suc 2] = [0, 1, 2]" "[0..<Suc 3] = [0, 1, 2, 3]" "[0..<Suc 4] = [0, 1, 2, 3, 4]"
  "[0..<Suc 15] = [0, 1, 2, 3, 4, 5, 6, 7, 8, 9, 10, 11, 12, 13, 14, 15]"
  by code_simp+

lemma unshifts:
  "(\<lambda>x :: u64. x XOR drop_bit 28 x XOR drop_bit 56 x) = shifts 28 2"
  "(\<lambda>x :: u64. x XOR drop_bit 14 x XOR drop_bit 28 x XOR drop_bit 42 x XOR drop_bit 56 x) = shifts 14 4"
  "(\<lambda>x :: u64. x XOR drop_bit 24 x XOR drop_bit 48 x) = shifts 24 2"
  "(\<lambda>x :: u32. x XOR drop_bit 9 x XOR drop_bit 18 x XOR drop_bit 27 x) = shifts 9 3"
  "(\<lambda>x :: u32. x XOR drop_bit 22 x) = shifts 22 1"
  "(\<lambda>x :: u32. x XOR drop_bit 2 x XOR drop_bit 4 x XOR drop_bit 6 x XOR drop_bit 8 x XOR drop_bit 10 x XOR
      drop_bit 12 x XOR drop_bit 14 x XOR drop_bit 16 x XOR drop_bit 18 x XOR drop_bit 20 x XOR
      drop_bit 22 x XOR drop_bit 24 x XOR drop_bit 26 x XOR drop_bit 28 x XOR drop_bit 30 x) = shifts 2 15"
  by (simp_all only: fun_eq_iff shifts_fold upto_lists) simp_all

interpretation twang: invertible twang_mix64 twang_unmix64
proof -
  note xs = invertible_xorshift [where 'a = 64, of 24 2] invertible_xorshift [where 'a = 64, of 14 4] invertible_xorshift [where 'a = 64, of 28 2]
  have "twang_mix64 = (\<lambda>x. (\<lambda>k. k + push_bit 31 k) ((\<lambda>k. k XOR drop_bit 28 k) ((\<lambda>k. k + push_bit 2 k + push_bit 4 k)
      ((\<lambda>k. k XOR drop_bit 14 k) ((\<lambda>k. k + push_bit 3 k + push_bit 8 k) ((\<lambda>k. k XOR drop_bit 24 k) (NOT x + push_bit 21 x)))))))"
    by (simp only: fun_eq_iff twang_mix64_def Let_def simp_thms)
  moreover have "twang_unmix64 = (\<lambda>x. (\<lambda>k. (k + 1) * 9223367638806167551) (shifts 24 2 ((\<lambda>k. k * 15244667743933553977)
      (shifts 14 4 ((\<lambda>k. k * 14933078535860113213) (shifts 28 2 (x * 4611686016279904257)))))))"
    by (simp only: fun_eq_iff twang_unmix64_def Let_def unshifts [symmetric] simp_thms)
  ultimately show "invertible twang_mix64 twang_unmix64"
    using invertible_comp [OF invertible_comp [OF invertible_comp [OF invertible_comp [OF invertible_comp [OF invertible_comp
      [OF twang_steps(1) xs(1)] twang_steps(2)] xs(2)] twang_steps(3)] xs(3)] twang_steps(4)] by simp
qed

interpretation jenkins: invertible jenkins_rev_mix32 jenkins_rev_unmix32
proof -
  note xs = invertible_xorshift [where 'a = 32, of 22 1] invertible_xorshift [where 'a = 32, of 9 3] invertible_xorshift [where 'a = 32, of 2 15]
  have m: "invertible (\<lambda>k :: u32. k * 4097) (\<lambda>k. k * 16773121)" "invertible (\<lambda>k :: u32. k * 17) (\<lambda>k. k * 4042322161)"
    "invertible (\<lambda>k :: u32. k * 1025) (\<lambda>k. k * 3222273025)" "invertible (\<lambda>k :: u32. k * 528513) (\<lambda>k. k * 2364026753)"
    by (simp_all add: invertible_mult)
  have p: "(k :: u32) + push_bit 12 k = k * 4097" "k + push_bit 4 k = k * 17" "k + push_bit 10 k = k * 1025" "k + push_bit 7 k = k * 129"
    "k * 129 * 4097 = k * 528513" for k
    by (simp_all add: push_bit_eq_mult)
  have "jenkins_rev_mix32 = (\<lambda>x. (\<lambda>k. k * 528513) ((\<lambda>k. k XOR drop_bit 2 k) ((\<lambda>k. k * 1025) ((\<lambda>k. k XOR drop_bit 9 k)
      ((\<lambda>k. k * 17) ((\<lambda>k. k XOR drop_bit 22 k) (x * 4097)))))))"
    by (simp only: fun_eq_iff jenkins_rev_mix32_def Let_def p simp_thms)
  moreover have "jenkins_rev_unmix32 = (\<lambda>x. (\<lambda>k. k * 16773121) (shifts 22 1 ((\<lambda>k. k * 4042322161) (shifts 9 3
      ((\<lambda>k. k * 3222273025) (shifts 2 15 (x * 2364026753)))))))"
    by (simp only: fun_eq_iff jenkins_rev_unmix32_def Let_def unshifts [symmetric] simp_thms)
  ultimately show "invertible jenkins_rev_mix32 jenkins_rev_unmix32"
    using invertible_comp [OF invertible_comp [OF invertible_comp [OF invertible_comp [OF invertible_comp [OF invertible_comp
      [OF m(1) xs(1)] m(2)] xs(2)] m(3)] xs(3)] m(4)] by simp
qed

interpretation reduction: invertible "hash_128_to_64 upper" "hash_128_to_64_lower upper" for upper
proof -
  let ?m = "0x9ddfea08eb382d69 :: u64" and ?i = "15877131476434367193 :: u64"
  have x: "invertible (\<lambda>x :: u64. upper XOR x) (\<lambda>x. x XOR upper)" "invertible (\<lambda>x :: u64. x XOR upper) (\<lambda>x. x XOR upper)"
    by unfold_locales (simp_all add: xor.assoc xor.commute [of upper] xor_self_eq)
  have m: "invertible (\<lambda>x. x * ?m) (\<lambda>x. x * ?i)" by (rule invertible_mult) simp
  note s = invertible_xorshift [where 'a = 64, of 47 1]
  show "invertible (hash_128_to_64 upper) (hash_128_to_64_lower upper)"
    using invertible_comp [OF invertible_comp [OF invertible_comp [OF invertible_comp [OF invertible_comp [OF invertible_comp
      [OF x(2) m] s] x(1)] m] s] m]
    by (simp add: hash_128_to_64_def [abs_def] hash_128_to_64_lower_def [abs_def] Let_def)
qed

section \<open>Strings\<close>

lemma buf_loop_foldl: "n \<le> length buf \<Longrightarrow> buf_loop ap buf n h = Some (foldl ap h (take n buf))"
  by (induction ap buf n h rule: buf_loop.induct) simp_all

lemma buf_loop_short: "length buf < n \<Longrightarrow> buf_loop ap buf n h = None"
  by (induction ap buf n h rule: buf_loop.induct) simp_all

lemma cstr_loop_foldl: "0 \<notin> set s \<Longrightarrow> cstr_loop ap (s @ 0 # rest) h = Some (foldl ap h s)"
  by (induction s arbitrary: h) auto

lemma hsieh_loop_some:
  assumes "4 * len \<le> length s"
  obtains h' where "hsieh_loop len s h = Some (drop (4 * len) s, h')" "\<And>t. hsieh_loop len (s @ t) h = Some (drop (4 * len) s @ t, h')"
proof -
  have "\<exists>h'. \<forall>t. hsieh_loop len (s @ t) h = Some (drop (4 * len) s @ t, h')" using assms
  proof (induction len arbitrary: s h)
    case (Suc len)
    obtain a b c d r where s: "s = a # b # c # d # r" and r: "4 * len \<le> length r"
      using Suc.prems by (cases s; cases "tl s"; cases "tl (tl s)"; cases "tl (tl (tl s))") auto
    obtain h' where "\<forall>t. hsieh_loop len (r @ t)
        ((\<lambda>hash. hash + drop_bit 11 hash) (push_bit 16 (h + (ucast a + push_bit 8 (ucast b))) XOR (push_bit 11 (ucast c + push_bit 8 (ucast d)) XOR (h + (ucast a + push_bit 8 (ucast b))))))
        = Some (drop (4 * len) r @ t, h')" using Suc.IH [OF r] by blast
    moreover have "drop (4 * Suc len) s = drop (4 * len) (drop 4 s)" by (simp add: add.commute)
    then have "drop (4 * Suc len) s = drop (4 * len) r" by (simp add: s)
    ultimately show ?case by (intro exI [of _ h']) (simp add: s Let_def del: mult_Suc_right)
  qed simp
  then obtain h' where "\<And>t. hsieh_loop len (s @ t) h = Some (drop (4 * len) s @ t, h')" by blast
  then show ?thesis using that [of h'] by (metis append_Nil2)
qed

lemma hsieh_rest_some:
  assumes "rem \<le> length s" "rem < 4"
  obtains h' where "\<And>t. hsieh_rest rem (s @ t) h = Some h'"
proof -
  consider "rem = 0" | a r where "rem = 1" "s = a # r" | a b r where "rem = 2" "s = a # b # r" | a b c r where "rem = 3" "s = a # b # c # r"
    using assms by (cases s; cases "tl s"; cases "tl (tl s)") (auto simp: numeral_eq_Suc less_Suc_eq)
  then show ?thesis by cases (auto simp: hsieh_rest_def Let_def intro: that)
qed

section \<open>Combinations\<close>

lemma commutative_left: "commutative_hash_128_to_64 (commutative_hash_128_to_64 s x) y = commutative_hash_128_to_64 (commutative_hash_128_to_64 s y) x"
  by (simp add: commutative_hash_128_to_64_def algebra_simps)

lemma commutative_fold:
  "commutative_hash_combine_range_generic av seed hasher vs
    = foldl commutative_hash_128_to_64 seed (map (\<lambda>v. if av then hasher v else twang_mix64 (hasher v)) vs)"
  by (induction av seed hasher vs rule: commutative_hash_combine_range_generic.induct)
    (simp_all add: commutative_hash_combine_value_generic_def Let_def)

section \<open>Properties\<close>

text \<open>
  C30. The mixers are permutations: twang\_unmix64 inverts twang\_mix64 and jenkins\_rev\_unmix32
  inverts jenkins\_rev\_mix32, on both sides and for every key, and hash\_128\_to\_64 with a fixed
  upper hash loses nothing of the lower one.
\<close>
theorem mixers_are_permutations:
  "twang_unmix64 (twang_mix64 k) = k \<and> twang_mix64 (twang_unmix64 k) = k \<and>
   jenkins_rev_unmix32 (jenkins_rev_mix32 j) = j \<and> jenkins_rev_mix32 (jenkins_rev_unmix32 j) = j \<and>
   bij twang_mix64 \<and> bij jenkins_rev_mix32 \<and> bij (hash_128_to_64 upper)"
  using twang.undo twang.redo jenkins.undo jenkins.redo twang.bijective jenkins.bijective reduction.bijective by blast

text \<open>
  C31. The commutative combination of a range does not depend on the order of its values: two
  ranges with the same values, counted with their multiplicity, have the same hash, for every
  hasher, avalanching or not, and every seed.
\<close>
theorem commutative_hash_order_free:
  assumes "mset vs = mset ws"
  shows "commutative_hash_combine_range_generic av seed hasher vs = commutative_hash_combine_range_generic av seed hasher ws"
proof -
  let ?f = "\<lambda>v. if av then hasher v else twang_mix64 (hasher v)"
  have "fold (\<lambda>x s. commutative_hash_128_to_64 s x) (map ?f vs) = fold (\<lambda>x s. commutative_hash_128_to_64 s x) (map ?f ws)"
    by (rule fold_multiset_equiv) (simp_all add: fun_eq_iff commutative_left assms)
  then show ?thesis unfolding commutative_fold foldl_conv_fold by simp
qed

theorem commutative_hash_order_free_witness:
  "commutative_hash_combine_range_generic False 0 (\<lambda>v. v) [1, 2, 3] = commutative_hash_combine_range_generic False 0 (\<lambda>v. v) [3, 1, 2]"
  by (rule commutative_hash_order_free) simp

text \<open>
  The FNV hashes of a zero-terminated string, of a buffer and of a std::string agree, the
  hash of a concatenation continues the hash of its first part, and the sums of shifts are the
  multiplication by the FNV prime.
\<close>
theorem fnv_agrees:
  assumes "0 \<notin> set s"
  shows "fnv32_cstr (s @ 0 # rest) h = fnv32 s h \<and> fnv64_cstr (s @ 0 # rest) g = fnv64 s g \<and>
    fnv32 (s @ u) h = do { h \<leftarrow> fnv32 s h; fnv32 u h } \<and> fnv64 (s @ u) g = do { g \<leftarrow> fnv64 s g; fnv64 u g } \<and>
    fnva64 (s @ u) g = do { g \<leftarrow> fnva64 s g; fnva64 u g } \<and>
    fnv32_append_byte h c = (16777619 * h) XOR scast c \<and> fnv64_append_byte g c = (1099511628211 * g) XOR scast c \<and>
    fnva64_append_byte g c = (g XOR ucast c) * 1099511628211"
  using assms
  by (simp add: fnv32_cstr_def fnv32_def fnv32_buf_def fnv64_cstr_def fnv64_def fnv64_buf_def fnva64_def fnva64_buf_def
      cstr_loop_foldl buf_loop_foldl fnv32_append_byte_def fnv64_append_byte_def fnva64_append_byte_def push_bit_eq_mult Let_def)

theorem fnv_agrees_witness: "fnv32_cstr ([0x61, 0x62] @ 0 # []) fnv32_hash_start = fnv32 [0x61, 0x62] fnv32_hash_start"
  by (rule conjunct1 [OF fnv_agrees]) simp

text \<open>
  hsieh\_hash32\_buf reads the len bytes it is given and no others: on a buffer that holds
  them it returns, and what follows them does not change the hash.
\<close>
theorem hsieh_reads_len:
  assumes "len \<le> length buf"
  shows "\<exists>h. \<forall>t. hsieh_hash32_buf_constexpr (buf @ t) len = Some h"
proof (cases "len = 0")
  case False
  have "4 * (len div 4) \<le> length buf" using assms by simp
  then obtain h where h: "\<And>t. hsieh_loop (len div 4) (buf @ t) (of_nat len) = Some (drop (4 * (len div 4)) buf @ t, h)"
    by (rule hsieh_loop_some [of "len div 4" buf "of_nat len"]) blast
  have "4 * (len div 4) + len mod 4 = len" by (rule mult_div_mod_eq)
  then have "len mod 4 \<le> length (drop (4 * (len div 4)) buf)" unfolding length_drop using assms by linarith
  moreover have "len mod 4 < 4" by simp
  ultimately obtain h' where "\<And>t. hsieh_rest (len mod 4) (drop (4 * (len div 4)) buf @ t) h = Some h'"
    by (rule hsieh_rest_some [where h = h]) blast
  then show ?thesis using False h by (simp add: hsieh_hash32_buf_constexpr_def)
qed (simp add: hsieh_hash32_buf_constexpr_def)

theorem hsieh_reads_len_witness: "\<exists>h. \<forall>t. hsieh_hash32_buf_constexpr ([1, 2, 3, 4, 5, 6, 7] @ t) 7 = Some h"
  by (rule hsieh_reads_len) simp

end
