(* ===== verification/Spooky.thy ===== *)
theory Spooky
  imports HashMix
begin

unbundle bit_operations_syntax

text \<open>
  The mixing functions of SpookyHash, versions 1 and 2
  (include/folly/hash/SpookyHashV1.h and SpookyHashV2.h).  They are straight-line code on
  four or twelve words passed by reference: lists of statements here, in the order and with the
  operands of the source, executed on a list of words.  Hash128 is defined outside of the
  repository's sources and is a parameter.
\<close>

section \<open>Statements\<close>

definition Rot64 :: "u64 \<Rightarrow> nat \<Rightarrow> u64" where
  "Rot64 x k = push_bit k x OR drop_bit (64 - k) x"

text \<open>s\_i += data[j], s\_i += s\_j, s\_i ^= s\_j and s\_i = Rot64(s\_i, k).\<close>

datatype stmt = Feed nat nat | Add nat nat | Xor nat nat | Rot nat nat

fun exec_stmt :: "u64 list \<Rightarrow> u64 list \<Rightarrow> stmt \<Rightarrow> u64 list" where
  "exec_stmt d s (Feed i j) = s[i := s ! i + d ! j]"
| "exec_stmt d s (Add i j) = s[i := s ! i + s ! j]"
| "exec_stmt d s (Xor i j) = s[i := s ! i XOR s ! j]"
| "exec_stmt d s (Rot i k) = s[i := Rot64 (s ! i) k]"

definition exec_stmts :: "u64 list \<Rightarrow> stmt list \<Rightarrow> u64 list \<Rightarrow> u64 list" where
  "exec_stmts d p s = foldl (exec_stmt d) s p"

section \<open>The mixing functions\<close>

definition Mix_v2 :: "stmt list" where
  "Mix_v2 =
    [Feed 0 0, Xor 2 10, Xor 11 0, Rot 0 11, Add 11 1,
     Feed 1 1, Xor 3 11, Xor 0 1, Rot 1 32, Add 0 2,
     Feed 2 2, Xor 4 0, Xor 1 2, Rot 2 43, Add 1 3,
     Feed 3 3, Xor 5 1, Xor 2 3, Rot 3 31, Add 2 4,
     Feed 4 4, Xor 6 2, Xor 3 4, Rot 4 17, Add 3 5,
     Feed 5 5, Xor 7 3, Xor 4 5, Rot 5 28, Add 4 6,
     Feed 6 6, Xor 8 4, Xor 5 6, Rot 6 39, Add 5 7,
     Feed 7 7, Xor 9 5, Xor 6 7, Rot 7 57, Add 6 8,
     Feed 8 8, Xor 10 6, Xor 7 8, Rot 8 55, Add 7 9,
     Feed 9 9, Xor 11 7, Xor 8 9, Rot 9 54, Add 8 10,
     Feed 10 10, Xor 0 8, Xor 9 10, Rot 10 22, Add 9 11,
     Feed 11 11, Xor 1 9, Xor 10 11, Rot 11 46, Add 10 0]"

definition EndPartial_v2 :: "stmt list" where
  "EndPartial_v2 =
    [Add 11 1, Xor 2 11, Rot 1 44,
     Add 0 2, Xor 3 0, Rot 2 15,
     Add 1 3, Xor 4 1, Rot 3 34,
     Add 2 4, Xor 5 2, Rot 4 21,
     Add 3 5, Xor 6 3, Rot 5 38,
     Add 4 6, Xor 7 4, Rot 6 33,
     Add 5 7, Xor 8 5, Rot 7 10,
     Add 6 8, Xor 9 6, Rot 8 13,
     Add 7 9, Xor 10 7, Rot 9 38,
     Add 8 10, Xor 11 8, Rot 10 53,
     Add 9 11, Xor 0 9, Rot 11 42,
     Add 10 0, Xor 1 10, Rot 0 54]"

definition ShortMix_v2 :: "stmt list" where
  "ShortMix_v2 =
    [Rot 2 50, Add 2 3, Xor 0 2,
     Rot 3 52, Add 3 0, Xor 1 3,
     Rot 0 30, Add 0 1, Xor 2 0,
     Rot 1 41, Add 1 2, Xor 3 1,
     Rot 2 54, Add 2 3, Xor 0 2,
     Rot 3 48, Add 3 0, Xor 1 3,
     Rot 0 38, Add 0 1, Xor 2 0,
     Rot 1 37, Add 1 2, Xor 3 1,
     Rot 2 62, Add 2 3, Xor 0 2,
     Rot 3 34, Add 3 0, Xor 1 3,
     Rot 0 5, Add 0 1, Xor 2 0,
     Rot 1 36, Add 1 2, Xor 3 1]"

definition ShortEnd_v2 :: "stmt list" where
  "ShortEnd_v2 =
    [Xor 3 2, Rot 2 15, Add 3 2,
     Xor 0 3, Rot 3 52, Add 0 3,
     Xor 1 0, Rot 0 26, Add 1 0,
     Xor 2 1, Rot 1 51, Add 2 1,
     Xor 3 2, Rot 2 28, Add 3 2,
     Xor 0 3, Rot 3 9, Add 0 3,
     Xor 1 0, Rot 0 47, Add 1 0,
     Xor 2 1, Rot 1 54, Add 2 1,
     Xor 3 2, Rot 2 32, Add 3 2,
     Xor 0 3, Rot 3 25, Add 0 3,
     Xor 1 0, Rot 0 63, Add 1 0]"

definition Mix_v1 :: "stmt list" where
  "Mix_v1 =
    [Feed 0 0, Xor 2 10, Xor 11 0, Rot 0 11, Add 11 1,
     Feed 1 1, Xor 3 11, Xor 0 1, Rot 1 32, Add 0 2,
     Feed 2 2, Xor 4 0, Xor 1 2, Rot 2 43, Add 1 3,
     Feed 3 3, Xor 5 1, Xor 2 3, Rot 3 31, Add 2 4,
     Feed 4 4, Xor 6 2, Xor 3 4, Rot 4 17, Add 3 5,
     Feed 5 5, Xor 7 3, Xor 4 5, Rot 5 28, Add 4 6,
     Feed 6 6, Xor 8 4, Xor 5 6, Rot 6 39, Add 5 7,
     Feed 7 7, Xor 9 5, Xor 6 7, Rot 7 57, Add 6 8,
     Feed 8 8, Xor 10 6, Xor 7 8, Rot 8 55, Add 7 9,
     Feed 9 9, Xor 11 7, Xor 8 9, Rot 9 54, Add 8 10,
     Feed 10 10, Xor 0 8, Xor 9 10, Rot 10 22, Add 9 11,
     Feed 11 11, Xor 1 9, Xor 10 11, Rot 11 46, Add 10 0]"

definition EndPartial_v1 :: "stmt list" where
  "EndPartial_v1 =
    [Add 11 1, Xor 2 11, Rot 1 44,
     Add 0 2, Xor 3 0, Rot 2 15,
     Add 1 3, Xor 4 1, Rot 3 34,
     Add 2 4, Xor 5 2, Rot 4 21,
     Add 3 5, Xor 6 3, Rot 5 38,
     Add 4 6, Xor 7 4, Rot 6 33,
     Add 5 7, Xor 8 5, Rot 7 10,
     Add 6 8, Xor 9 6, Rot 8 13,
     Add 7 9, Xor 10 7, Rot 9 38,
     Add 8 10, Xor 11 8, Rot 10 53,
     Add 9 11, Xor 0 9, Rot 11 42,
     Add 10 0, Xor 1 10, Rot 0 54]"

definition ShortMix_v1 :: "stmt list" where
  "ShortMix_v1 =
    [Rot 2 50, Add 2 3, Xor 0 2,
     Rot 3 52, Add 3 0, Xor 1 3,
     Rot 0 30, Add 0 1, Xor 2 0,
     Rot 1 41, Add 1 2, Xor 3 1,
     Rot 2 54, Add 2 3, Xor 0 2,
     Rot 3 48, Add 3 0, Xor 1 3,
     Rot 0 38, Add 0 1, Xor 2 0,
     Rot 1 37, Add 1 2, Xor 3 1,
     Rot 2 62, Add 2 3, Xor 0 2,
     Rot 3 34, Add 3 0, Xor 1 3,
     Rot 0 5, Add 0 1, Xor 2 0,
     Rot 1 36, Add 1 2, Xor 3 1]"

definition ShortEnd_v1 :: "stmt list" where
  "ShortEnd_v1 =
    [Xor 3 2, Rot 2 15, Add 3 2,
     Xor 0 3, Rot 3 52, Add 0 3,
     Xor 1 0, Rot 0 26, Add 1 0,
     Xor 2 1, Rot 1 51, Add 2 1,
     Xor 3 2, Rot 2 28, Add 3 2,
     Xor 0 3, Rot 3 9, Add 0 3,
     Xor 1 0, Rot 0 47, Add 1 0,
     Xor 2 1, Rot 1 54, Add 2 1,
     Xor 3 2, Rot 2 32, Add 3 2,
     Xor 0 3, Rot 3 25, Add 0 3,
     Xor 1 0, Rot 0 63, Add 1 0]"

text \<open>End: version 2 adds the last block first, version 1 has been fed it before.\<close>

definition End_v2 :: "stmt list" where
  "End_v2 =
    [Feed 0 0, Feed 1 1, Feed 2 2, Feed 3 3,
     Feed 4 4, Feed 5 5, Feed 6 6, Feed 7 7,
     Feed 8 8, Feed 9 9, Feed 10 10, Feed 11 11] @ EndPartial_v2 @ EndPartial_v2 @ EndPartial_v2"

definition End_v1 :: "stmt list" where
  "End_v1 = EndPartial_v1 @ EndPartial_v1 @ EndPartial_v1"

section \<open>One-call hashes\<close>

definition Hash64 :: "(bytes \<Rightarrow> u64 \<Rightarrow> u64 \<Rightarrow> u64 \<times> u64) \<Rightarrow> bytes \<Rightarrow> u64 \<Rightarrow> u64" where
  "Hash64 hash128 message seed = (let hash1 = seed; (hash1, seed) = hash128 message hash1 seed in hash1)"

definition Hash32 :: "(bytes \<Rightarrow> u64 \<Rightarrow> u64 \<Rightarrow> u64 \<times> u64) \<Rightarrow> bytes \<Rightarrow> u32 \<Rightarrow> u32" where
  "Hash32 hash128 message seed =
     (let hash1 = ucast seed; hash2 = ucast seed; (hash1, hash2) = hash128 message hash1 hash2 in ucast hash1)"

definition string_hasher :: "(bytes \<Rightarrow> u64 \<Rightarrow> u64 \<Rightarrow> u64 \<times> u64) \<Rightarrow> bytes \<Rightarrow> u64" where
  "string_hasher hash128 key = Hash64 hash128 key 0"

section \<open>Running backwards\<close>

fun undo_stmt :: "u64 list \<Rightarrow> u64 list \<Rightarrow> stmt \<Rightarrow> u64 list" where
  "undo_stmt d s (Feed i j) = s[i := s ! i - d ! j]"
| "undo_stmt d s (Add i j) = s[i := s ! i - s ! j]"
| "undo_stmt d s (Xor i j) = s[i := s ! i XOR s ! j]"
| "undo_stmt d s (Rot i k) = s[i := Rot64 (s ! i) (64 - k)]"

definition undo_stmts :: "u64 list \<Rightarrow> stmt list \<Rightarrow> u64 list \<Rightarrow> u64 list" where
  "undo_stmts d p s = foldl (undo_stmt d) s (rev p)"

text \<open>Statements on n words whose two operands are different words, with rotations by 1 to 63.\<close>

fun stmt_ok :: "nat \<Rightarrow> stmt \<Rightarrow> bool" where
  "stmt_ok n (Feed i j) \<longleftrightarrow> i < n"
| "stmt_ok n (Add i j) \<longleftrightarrow> i < n \<and> i \<noteq> j"
| "stmt_ok n (Xor i j) \<longleftrightarrow> i < n \<and> i \<noteq> j"
| "stmt_ok n (Rot i k) \<longleftrightarrow> i < n \<and> 0 < k \<and> k < 64"

section \<open>Reference\<close>

text \<open>
  The functions are unrolled loops: every line is the line before with all words moved on by
  one, and a rotation of its own.
\<close>

definition mix_round :: "nat \<Rightarrow> nat \<Rightarrow> stmt list" where
  "mix_round i k =
     [Feed i i, Xor ((i + 2) mod 12) ((i + 10) mod 12), Xor ((i + 11) mod 12) i, Rot i k,
      Add ((i + 11) mod 12) ((i + 1) mod 12)]"

definition end_round :: "nat \<Rightarrow> nat \<Rightarrow> stmt list" where
  "end_round i k =
     [Add ((i + 11) mod 12) ((i + 1) mod 12), Xor ((i + 2) mod 12) ((i + 11) mod 12), Rot ((i + 1) mod 12) k]"

definition short_mix_round :: "nat \<Rightarrow> nat \<Rightarrow> stmt list" where
  "short_mix_round i k = [Rot (i mod 4) k, Add (i mod 4) ((i + 1) mod 4), Xor ((i + 2) mod 4) (i mod 4)]"

definition short_end_round :: "nat \<Rightarrow> nat \<Rightarrow> stmt list" where
  "short_end_round i k = [Xor ((i + 1) mod 4) (i mod 4), Rot (i mod 4) k, Add ((i + 1) mod 4) (i mod 4)]"

text \<open>The rounds from number i on, one for each rotation.\<close>

fun rounds :: "(nat \<Rightarrow> nat \<Rightarrow> stmt list) \<Rightarrow> nat \<Rightarrow> nat list \<Rightarrow> stmt list" where
  "rounds f i [] = []"
| "rounds f i (k # ks) = f i k @ rounds f (i + 1) ks"

abbreviation words :: "nat \<Rightarrow> u64 list set" where
  "words n \<equiv> {s. length s = n}"

section \<open>Inverses\<close>

lemma bit_Rot64:
  assumes "0 < k" "k < 64"
  shows "bit (Rot64 x k) n \<longleftrightarrow> n < 64 \<and> bit x (if k \<le> n then n - k else n + (64 - k))"
  using assms by (auto simp: Rot64_def bit_or_iff bit_push_bit_iff bit_drop_bit_eq add.commute dest: bit_imp_le_length)

lemma Rot64_back:
  assumes "0 < k" "k < 64"
  shows "Rot64 (Rot64 x k) (64 - k) = x"
proof (rule bit_word_eqI)
  fix n assume n: "n < LENGTH(64)"
  have k: "0 < 64 - k" "64 - k < 64" using assms by simp_all
  show "bit (Rot64 (Rot64 x k) (64 - k)) n = bit x n"
    unfolding bit_Rot64 [OF k] bit_Rot64 [OF assms] using n assms by (auto simp: not_le)
qed

lemma Rot64_forth: "0 < k \<Longrightarrow> k < 64 \<Longrightarrow> Rot64 (Rot64 x (64 - k)) k = x"
  using Rot64_back [of "64 - k" x] by simp

lemma undo_exec: "stmt_ok n st \<Longrightarrow> length s = n \<Longrightarrow> undo_stmt d (exec_stmt d s st) st = s"
  by (cases st) (simp_all add: xor.assoc Rot64_back)

lemma exec_undo: "stmt_ok n st \<Longrightarrow> length s = n \<Longrightarrow> exec_stmt d (undo_stmt d s st) st = s"
  by (cases st) (simp_all add: xor.assoc Rot64_forth)

lemma length_exec [simp]: "length (exec_stmt d s st) = length s" "length (undo_stmt d s st) = length s"
  by (cases st; simp)+

lemma length_undo_stmts: "length (undo_stmts d p s) = length s"
  by (induction p arbitrary: s rule: rev_induct) (simp_all add: undo_stmts_def)

lemma undo_exec_stmts:
  assumes "list_all (stmt_ok n) p" "length s = n"
  shows "undo_stmts d p (exec_stmts d p s) = s"
  using assms
proof (induction p arbitrary: s)
  case (Cons st p)
  have "undo_stmts d p (exec_stmts d p (exec_stmt d s st)) = exec_stmt d s st"
    using Cons.prems by (intro Cons.IH) simp_all
  then show ?case using Cons.prems undo_exec [of n st s d] by (simp add: undo_stmts_def exec_stmts_def)
qed (simp add: undo_stmts_def exec_stmts_def)

lemma exec_undo_stmts:
  assumes "list_all (stmt_ok n) p" "length s = n"
  shows "exec_stmts d p (undo_stmts d p s) = s"
  using assms
proof (induction p arbitrary: s)
  case (Cons st p)
  have "exec_stmts d (st # p) (undo_stmts d (st # p) s)
      = exec_stmts d p (exec_stmt d (undo_stmt d (undo_stmts d p s) st) st)"
    by (simp add: undo_stmts_def exec_stmts_def)
  also have "exec_stmt d (undo_stmt d (undo_stmts d p s) st) st = undo_stmts d p s"
    using Cons.prems by (intro exec_undo [of n]) (simp_all add: length_undo_stmts)
  finally show ?case using Cons.IH [of s] Cons.prems by simp
qed (simp add: undo_stmts_def exec_stmts_def)

lemma same_mixers: "Mix_v1 = Mix_v2" "EndPartial_v1 = EndPartial_v2" "ShortMix_v1 = ShortMix_v2" "ShortEnd_v1 = ShortEnd_v2"
  by (simp_all only: Mix_v1_def Mix_v2_def EndPartial_v1_def EndPartial_v2_def ShortMix_v1_def ShortMix_v2_def ShortEnd_v1_def ShortEnd_v2_def)

lemma mixers_ok:
  "list_all (stmt_ok 12) Mix_v2" "list_all (stmt_ok 12) EndPartial_v2" "list_all (stmt_ok 4) ShortMix_v2"
  "list_all (stmt_ok 4) ShortEnd_v2" "list_all (stmt_ok 12) End_v2" "list_all (stmt_ok 12) End_v1"
  by (simp_all add: Mix_v2_def EndPartial_v2_def ShortMix_v2_def ShortEnd_v2_def End_v2_def End_v1_def same_mixers)

lemma length_exec_stmts: "length (exec_stmts d p s) = length s"
  by (induction p arbitrary: s) (simp_all add: exec_stmts_def)

lemma exec_bij: "list_all (stmt_ok n) p \<Longrightarrow> bij_betw (exec_stmts d p) (words n) (words n)"
  by (rule bij_betw_byWitness [where f' = "undo_stmts d p"])
    (auto simp: undo_exec_stmts exec_undo_stmts length_exec_stmts length_undo_stmts)

lemma mixers_unrolled:
  "Mix_v2 = rounds mix_round 0 [11, 32, 43, 31, 17, 28, 39, 57, 55, 54, 22, 46]"
  "EndPartial_v2 = rounds end_round 0 [44, 15, 34, 21, 38, 33, 10, 13, 38, 53, 42, 54]"
  "ShortMix_v2 = rounds short_mix_round 2 [50, 52, 30, 41, 54, 48, 38, 37, 62, 34, 5, 36]"
  "ShortEnd_v2 = rounds short_end_round 2 [15, 52, 26, 51, 28, 9, 47, 54, 32, 25, 63]"
  by (simp_all add: Mix_v2_def EndPartial_v2_def ShortMix_v2_def ShortEnd_v2_def
      mix_round_def end_round_def short_mix_round_def short_end_round_def)

lemma feed_all:
  assumes "n \<le> length s" "n \<le> length d"
  shows "exec_stmts d (map (\<lambda>i. Feed i i) [0..<n]) s = map2 (+) (take n s) (take n d) @ drop n s"
  using assms
proof (induction n)
  case (Suc n)
  have "exec_stmts d (map (\<lambda>i. Feed i i) [0..<Suc n]) s = exec_stmt d (map2 (+) (take n s) (take n d) @ drop n s) (Feed n n)"
    using Suc by (simp add: exec_stmts_def)
  also have "\<dots> = map2 (+) (take n s) (take n d) @ (drop n s)[0 := s ! n + d ! n]"
    using Suc.prems by (simp add: nth_append list_update_append)
  also have "\<dots> = map2 (+) (take (Suc n) s) (take (Suc n) d) @ drop (Suc n) s"
    using Suc.prems by (simp add: take_Suc_conv_app_nth Cons_nth_drop_Suc [symmetric])
  finally show ?case .
qed (simp add: exec_stmts_def)

lemma End_v2_feeds:
  assumes "length s = 12" "length d = 12"
  shows "exec_stmts d End_v2 s = exec_stmts d End_v1 (map2 (+) s d)"
proof -
  have v2: "End_v2 = map (\<lambda>i. Feed i i) [0..<12] @ End_v1"
    by (simp add: End_v2_def End_v1_def same_mixers upt_rec)
  have "exec_stmts d (map (\<lambda>i. Feed i i) [0..<12]) s = map2 (+) s d" using feed_all [of 12 s d] assms by simp
  then show ?thesis unfolding v2 by (simp only: exec_stmts_def foldl_append)
qed

section \<open>Properties\<close>

text \<open>
  C32. The mixing functions of SpookyHash.  Mix, EndPartial, ShortMix and ShortEnd are, statement
  by statement, the unrolled form of one round each, applied with the words moved on by one
  and the next rotation every time.  Versions 1 and 2 have the same four functions, and End of
  version 2 is End of version 1 on the state with the last block added.  For every block each
  of them is a permutation of the states, of twelve words or of four, so no two states become
  one.
\<close>
theorem spooky_mixers_exact:
  "Mix_v2 = rounds mix_round 0 [11, 32, 43, 31, 17, 28, 39, 57, 55, 54, 22, 46] \<and>
   EndPartial_v2 = rounds end_round 0 [44, 15, 34, 21, 38, 33, 10, 13, 38, 53, 42, 54] \<and>
   ShortMix_v2 = rounds short_mix_round 2 [50, 52, 30, 41, 54, 48, 38, 37, 62, 34, 5, 36] \<and>
   ShortEnd_v2 = rounds short_end_round 2 [15, 52, 26, 51, 28, 9, 47, 54, 32, 25, 63] \<and>
   Mix_v1 = Mix_v2 \<and> EndPartial_v1 = EndPartial_v2 \<and> ShortMix_v1 = ShortMix_v2 \<and> ShortEnd_v1 = ShortEnd_v2 \<and>
   (length s = 12 \<and> length d = 12 \<longrightarrow> exec_stmts d End_v2 s = exec_stmts d End_v1 (map2 (+) s d)) \<and>
   (\<forall>p \<in> {Mix_v2, EndPartial_v2, End_v2, End_v1}. bij_betw (exec_stmts d p) (words 12) (words 12)) \<and>
   (\<forall>p \<in> {ShortMix_v2, ShortEnd_v2}. bij_betw (exec_stmts d p) (words 4) (words 4))"
  using mixers_ok by (intro conjI ballI impI mixers_unrolled same_mixers) (auto intro: exec_bij End_v2_feeds)

theorem spooky_mixers_exact_witness:
  "exec_stmts (replicate 12 7) End_v2 (replicate 12 1) = exec_stmts (replicate 12 7) End_v1 (replicate 12 8)"
  using spooky_mixers_exact [of "replicate 12 1" "replicate 12 7"] by simp

end
