(* ===== verification/ByteOrder.thy ===== *)
theory ByteOrder
  imports Prelude
begin

unbundle bit_operations_syntax

text \<open>
  Words as their bytes in memory, the lowest byte first, for the code that copies integers and
  pointers with memcpy or reads them through a union.
\<close>

fun le_bytes :: "nat \<Rightarrow> 'a::len word \<Rightarrow> bytes" where
  "le_bytes 0 w = []"
| "le_bytes (Suc n) w = ucast w # le_bytes n (drop_bit 8 w)"

fun le_word :: "bytes \<Rightarrow> 'a::len word" where
  "le_word [] = 0"
| "le_word (b # bs) = ucast b OR push_bit 8 (le_word bs)"

lemma length_le_bytes [simp]: "length (le_bytes n w) = n"
  by (induction n arbitrary: w) simp_all

lemma le_word_bytes: "le_word (le_bytes n w) = take_bit (8 * n) (w :: 'a::len word)"
proof (induction n arbitrary: w)
  case (Suc n)
  show ?case
  proof (rule bit_word_eqI)
    fix k assume "k < LENGTH('a)"
    then show "bit (le_word (le_bytes (Suc n) w) :: 'a word) k = bit (take_bit (8 * Suc n) w) k"
      by (cases "k < 8") (auto simp: Suc bit_or_iff bit_push_bit_iff bit_take_bit_iff bit_drop_bit_eq bit_ucast_iff)
  qed
qed simp

lemma le_word_u64 [simp]: "le_word (le_bytes 8 w) = (w :: u64)"
  using le_word_bytes [of 8 w] by (simp add: take_bit_word_eq_self)

lemma le_word_u32 [simp]: "le_word (le_bytes 4 w) = (w :: u32)"
  using le_word_bytes [of 4 w] by (simp add: take_bit_word_eq_self)

lemma le_bytes_inject: "le_bytes 8 v = le_bytes 8 w \<longleftrightarrow> v = (w :: u64)" "le_bytes 4 a = le_bytes 4 b \<longleftrightarrow> a = (b :: u32)"
  by (metis le_word_u64, metis le_word_u32)

end
