(* ===== verification/GermanString.thy ===== *)
theory GermanString
  imports RawMemory ByteOrder
begin

unbundle bit_operations_syntax

text \<open>
  Strings of sixteen bytes (include/german\_string.h): a length and either up to twelve
  characters inline, or a prefix of four and a pointer to the remaining ones.  The union is kept
  as its bytes, since equality compares them: the length and the twelve bytes after it, which
  short\_rep reads as characters and long\_rep as a prefix and a pointer.  Objects begin with
  arbitrary bytes.  The remaining characters are in a memory.  The allocator keeps, for each
  page and each large string, the address its block has got and the bytes in use.
\<close>

section \<open>The external allocator\<close>

record allocator =
  medium_string_pages :: "(nat \<times> nat) list"
  large_strings :: "(nat \<times> nat) list"

definition PAGE_SIZE :: nat where "PAGE_SIZE = 4096"

definition MEDIUM_STRING_MAX_SIZE :: nat where "MEDIUM_STRING_MAX_SIZE = 512"

definition INLINE_MAX_LENGTH :: nat where "INLINE_MAX_LENGTH = 12"

definition PREFIX_LENGTH :: nat where "PREFIX_LENGTH = 4"

lemmas german_sizes = PAGE_SIZE_def MEDIUM_STRING_MAX_SIZE_def INLINE_MAX_LENGTH_def PREFIX_LENGTH_def

definition alloc_size :: "allocator \<Rightarrow> nat" where
  "alloc_size st = sum_list (map snd (medium_string_pages st)) + sum_list (map snd (large_strings st))"

definition alloc_clear :: "allocator \<Rightarrow> allocator" where
  "alloc_clear st = st\<lparr>large_strings := [], medium_string_pages := []\<rparr>"

text \<open>fresh is the address of the block that a new page or a large string gets.\<close>

definition allocate :: "allocator \<Rightarrow> nat \<Rightarrow> nat \<Rightarrow> allocator \<times> nat" where
  "allocate st n fresh =
     (if n \<le> INLINE_MAX_LENGTH then (st, 0)
      else let n = n - PREFIX_LENGTH
      in if n \<le> MEDIUM_STRING_MAX_SIZE
         then let pages = (if medium_string_pages st = [] \<or> snd (last (medium_string_pages st)) + n > PAGE_SIZE
                           then medium_string_pages st @ [(fresh, 0)] else medium_string_pages st);
                  (base, used) = last pages
              in (st\<lparr>medium_string_pages := butlast pages @ [(base, used + n)]\<rparr>, base + (used + n) - n)
         else (st\<lparr>large_strings := large_strings st @ [(fresh, n)]\<rparr>, fresh))"

section \<open>Strings\<close>

definition memcompare :: "bytes \<Rightarrow> nat \<Rightarrow> bytes \<Rightarrow> nat \<Rightarrow> int option" where
  "memcompare p1 size1 p2 size2 =
     do { res \<leftarrow> memcmp p1 p2 (min size1 size2);
          if res \<noteq> 0 then Some (if res > 0 then 1 else - 1)
          else Some (if size1 < size2 then - 1 else if size1 > size2 then 1 else 0) }"

record german_string =
  gs_len :: u32
  gs_str :: bytes

definition long_prefix :: "german_string \<Rightarrow> bytes" where
  "long_prefix g = take PREFIX_LENGTH (gs_str g)"

definition long_ptr :: "german_string \<Rightarrow> nat" where
  "long_ptr g = unat (le_word (drop PREFIX_LENGTH (gs_str g)) :: u64)"

definition set_ptr :: "nat \<Rightarrow> german_string \<Rightarrow> german_string" where
  "set_ptr a g = g\<lparr>gs_str := take PREFIX_LENGTH (gs_str g) @ le_bytes 8 (of_nat a :: u64)\<rparr>"

definition is_inline :: "german_string \<Rightarrow> bool" where
  "is_inline g \<longleftrightarrow> unat (gs_len g) \<le> INLINE_MAX_LENGTH"

text \<open>The sixteen bytes of the object.\<close>

definition gs_bytes :: "german_string \<Rightarrow> bytes" where
  "gs_bytes g = le_bytes 4 (gs_len g) @ gs_str g"

definition german_default :: german_string where
  "german_default = \<lparr>gs_len = 0, gs_str = replicate 12 0\<rparr>"

definition german_new :: "bytes \<Rightarrow> mem \<Rightarrow> bytes \<Rightarrow> nat \<Rightarrow> nat \<Rightarrow> (mem \<times> german_string) option" where
  "german_new junk m str len remaining =
     do { let g = \<lparr>gs_len = of_nat len, gs_str = junk\<rparr>;
          guard (len \<le> length str);
          if len \<le> INLINE_MAX_LENGTH
          then do { let g = set_ptr 0 g;
                    Some (m, g\<lparr>gs_str := take len str @ drop len (gs_str g)\<rparr>) }
          else do { let g = g\<lparr>gs_str := take PREFIX_LENGTH str @ drop PREFIX_LENGTH (gs_str g)\<rparr>;
                    m \<leftarrow> store m remaining (take (len - PREFIX_LENGTH) (drop PREFIX_LENGTH str));
                    Some (m, set_ptr remaining g) } }"

definition german_copy :: "german_string \<Rightarrow> german_string" where
  "german_copy rhs = rhs"

definition german_copy_to :: "mem \<Rightarrow> german_string \<Rightarrow> nat \<Rightarrow> (mem \<times> german_string) option" where
  "german_copy_to m rhs remaining =
     (if unat (gs_len rhs) \<le> INLINE_MAX_LENGTH then Some (m, rhs)
      else do { let n = unat (gs_len rhs) - PREFIX_LENGTH;
                guard (apart remaining (long_ptr rhs) n);
                bs \<leftarrow> load n m (long_ptr rhs);
                m \<leftarrow> store m remaining bs;
                Some (m, set_ptr remaining rhs) })"

definition german_eq :: "mem \<Rightarrow> german_string \<Rightarrow> german_string \<Rightarrow> bool option" where
  "german_eq m g rhs =
     (if is_inline g \<or> is_inline rhs
      then do { c \<leftarrow> memcompare (gs_bytes g) 16 (gs_bytes rhs) 16; Some (c = 0) }
      else do { c \<leftarrow> memcompare (long_prefix g) PREFIX_LENGTH (long_prefix rhs) PREFIX_LENGTH;
                if c \<noteq> 0 then Some False
                else do { let n = unat (gs_len g) - PREFIX_LENGTH; let k = unat (gs_len rhs) - PREFIX_LENGTH;
                          p \<leftarrow> load n m (long_ptr g); q \<leftarrow> load k m (long_ptr rhs);
                          c \<leftarrow> memcompare p n q k;
                          Some (c = 0) } })"

definition german_compare :: "mem \<Rightarrow> german_string \<Rightarrow> german_string \<Rightarrow> int option" where
  "german_compare m g rhs =
     (let len = unat (gs_len g); rhs_len = unat (gs_len rhs)
      in if is_inline g \<and> is_inline rhs then memcompare (gs_str g) len (gs_str rhs) rhs_len
         else if is_inline g
         then do { let min_len = min len PREFIX_LENGTH;
                   r \<leftarrow> memcompare (gs_str g) min_len (long_prefix rhs) min_len;
                   if r \<noteq> 0 then Some r
                   else if min_len \<le> PREFIX_LENGTH then Some (- 1)
                   else do { q \<leftarrow> load (rhs_len - PREFIX_LENGTH) m (long_ptr rhs);
                             memcompare (drop PREFIX_LENGTH (gs_str g)) (len - PREFIX_LENGTH) q (rhs_len - PREFIX_LENGTH) } }
         else if is_inline rhs
         then do { let min_len = min rhs_len PREFIX_LENGTH;
                   r \<leftarrow> memcompare (long_prefix g) min_len (gs_str rhs) min_len;
                   if r \<noteq> 0 then Some r
                   else if min_len \<le> PREFIX_LENGTH then Some 1
                   else do { p \<leftarrow> load (len - PREFIX_LENGTH) m (long_ptr g);
                             memcompare p (len - PREFIX_LENGTH) (drop PREFIX_LENGTH (gs_str rhs)) (rhs_len - PREFIX_LENGTH) } }
         else do { r \<leftarrow> memcompare (long_prefix g) PREFIX_LENGTH (long_prefix rhs) PREFIX_LENGTH;
                   if r \<noteq> 0 then Some r
                   else do { p \<leftarrow> load (len - PREFIX_LENGTH) m (long_ptr g);
                             q \<leftarrow> load (rhs_len - PREFIX_LENGTH) m (long_ptr rhs);
                             memcompare p (len - PREFIX_LENGTH) q (rhs_len - PREFIX_LENGTH) } })"

text \<open>append tests the length of what is appended where the sum would be meant.\<close>

definition german_append :: "mem \<Rightarrow> german_string \<Rightarrow> bytes \<Rightarrow> nat \<Rightarrow> nat \<Rightarrow> (mem \<times> german_string) option" where
  "german_append m g str len remaining =
     do { let old_len = gs_len g;
          let g = g\<lparr>gs_len := old_len + of_nat len\<rparr>;
          guard (len \<le> length str);
          if len \<le> INLINE_MAX_LENGTH
          then do { guard (unat old_len + len \<le> length (gs_str g));
                    Some (m, g\<lparr>gs_str := take (unat old_len) (gs_str g) @ take len str @ drop (unat old_len + len) (gs_str g)\<rparr>) }
          else if unat old_len \<le> INLINE_MAX_LENGTH
          then do { let remaining_front_len = unat (old_len - of_nat PREFIX_LENGTH);
                    let remaining_front = long_ptr g;
                    guard (apart remaining remaining_front remaining_front_len);
                    front \<leftarrow> load remaining_front_len m remaining_front;
                    m \<leftarrow> store m remaining front;
                    m \<leftarrow> store m (remaining + remaining_front_len) (take len str);
                    Some (m, set_ptr remaining g) }
          else do { m \<leftarrow> store m remaining (take len str); Some (m, g) } }"

definition german_to_string :: "mem \<Rightarrow> german_string \<Rightarrow> bytes option" where
  "german_to_string m g =
     (let len = unat (gs_len g)
      in if len \<le> INLINE_MAX_LENGTH then do { guard (len \<le> length (gs_str g)); Some (take len (gs_str g)) }
         else do { rest \<leftarrow> load (len - PREFIX_LENGTH) m (long_ptr g); Some (long_prefix g @ rest) })"

section \<open>Representation\<close>

text \<open>The string an object stands for.\<close>

definition represents :: "mem \<Rightarrow> german_string \<Rightarrow> bytes \<Rightarrow> bool" where
  "represents m g s \<longleftrightarrow> unat (gs_len g) = length s \<and> length (gs_str g) = 12 \<and>
     (if length s \<le> 12 then take (length s) (gs_str g) = s
      else take 4 (gs_str g) = take 4 s \<and> mapped m (long_ptr g) (length s - 4) \<and>
        bytes_at m (long_ptr g) (length s - 4) = drop 4 s)"

text \<open>What compare returns for an inline string and a long one: it looks at no more than four bytes.\<close>

definition mixed_cmp :: "bytes \<Rightarrow> bytes \<Rightarrow> int" where
  "mixed_cmp s u = (let k = min (length s) 4; c = bytes_cmp (take k s) (take k u) in if c \<noteq> 0 then c else - 1)"

definition disjoint_regions :: "nat \<times> nat \<Rightarrow> nat \<times> nat \<Rightarrow> bool" where
  "disjoint_regions r q \<longleftrightarrow> fst r + snd r \<le> fst q \<or> fst q + snd q \<le> fst r"

definition blocks :: "allocator \<Rightarrow> (nat \<times> nat) list" where
  "blocks st = map (\<lambda>(b, used). (b, PAGE_SIZE)) (medium_string_pages st) @ large_strings st"

text \<open>
  The allocators that can arise, with the regions handed out and not cleared since: each new
  block is disjoint from those in use.
\<close>

inductive allocated :: "allocator \<Rightarrow> (nat \<times> nat) list \<Rightarrow> bool" where
  allocated_new: "allocated \<lparr>medium_string_pages = [], large_strings = []\<rparr> []"
| allocated_clear: "allocated st rs \<Longrightarrow> allocated (alloc_clear st) []"
| allocated_step: "allocated st rs \<Longrightarrow> list_all (disjoint_regions (fresh, max PAGE_SIZE n)) (blocks st) \<Longrightarrow>
    allocate st n fresh = (st', p) \<Longrightarrow>
    allocated st' (if n \<le> INLINE_MAX_LENGTH then rs else rs @ [(p, n - PREFIX_LENGTH)])"

text \<open>A region lies in the used part of a page or is a large string.\<close>

definition placed :: "allocator \<Rightarrow> nat \<times> nat \<Rightarrow> bool" where
  "placed st r \<longleftrightarrow> (\<exists>(b, used) \<in> set (medium_string_pages st). b \<le> fst r \<and> fst r + snd r \<le> b + used) \<or> r \<in> set (large_strings st)"

definition alloc_inv :: "allocator \<Rightarrow> (nat \<times> nat) list \<Rightarrow> bool" where
  "alloc_inv st rs \<longleftrightarrow> sorted_wrt disjoint_regions (blocks st) \<and> sorted_wrt disjoint_regions rs \<and>
     list_all (placed st) rs \<and> list_all (\<lambda>(b, used). used \<le> PAGE_SIZE) (medium_string_pages st) \<and>
     alloc_size st = sum_list (map snd rs)"

text \<open>Memory at 100 to 299, the strings Hello GermanString and Hellp.\<close>

definition german_memory :: mem where
  "german_memory = (\<lambda>x. if 100 \<le> x \<and> x < 300 then Some 0 else None)"

definition hello_german :: bytes where
  "hello_german = [0x48, 0x65, 0x6c, 0x6c, 0x6f, 0x20, 0x47, 0x65, 0x72, 0x6d, 0x61, 0x6e, 0x53, 0x74, 0x72, 0x69, 0x6e, 0x67]"

definition hellp :: bytes where
  "hellp = [0x48, 0x65, 0x6c, 0x6c, 0x70]"

lemma memcompare_cmp:
  assumes "size1 \<le> length p1" "size2 \<le> length p2"
  shows "memcompare p1 size1 p2 size2 = Some (bytes_cmp (take size1 p1) (take size2 p2))"
proof -
  let ?n = "min size1 size2"
  define c where "c = bytes_cmp (take ?n p1) (take ?n p2)"
  have "c = - 1 \<or> c = 0 \<or> c = 1" using bytes_cmp_range [of "take ?n p1" "take ?n p2"] by (simp add: c_def)
  then have sgn: "(if c > 0 then 1 else - 1) = c" if "c \<noteq> 0" using that by auto
  have m: "memcmp p1 p2 ?n = Some c" using assms by (simp add: c_def)
  have l: "length (take size1 p1) = size1" "length (take size2 p2) = size2" using assms by simp_all
  have "take ?n (take size1 p1) = take ?n p1" "take ?n (take size2 p2) = take ?n p2" by (simp_all add: min_def)
  then have "bytes_cmp (take size1 p1) (take size2 p2)
      = (if c \<noteq> 0 then c else if size1 < size2 then - 1 else if size2 < size1 then 1 else 0)"
    using bytes_cmp_min [of "take size1 p1" "take size2 p2"] unfolding l Let_def c_def by simp
  then show ?thesis unfolding memcompare_def m using sgn by simp
qed

lemma long_ptr_set:
  assumes "length (gs_str g) = 12" "a < 2 ^ 64"
  shows "long_ptr (set_ptr a g) = a" "length (gs_str (set_ptr a g)) = 12" "gs_len (set_ptr a g) = gs_len g"
    "take 4 (gs_str (set_ptr a g)) = take 4 (gs_str g)"
  using assms by (simp_all add: long_ptr_def set_ptr_def PREFIX_LENGTH_def unat_of_nat_eq64)

lemma to_string_represents:
  assumes "represents m g s"
  shows "german_to_string m g = Some s"
  using assms by (auto simp: represents_def german_to_string_def Let_def german_sizes long_prefix_def load_some split: if_splits)

lemma new_inline:
  assumes "length junk = 12" "len \<le> length str" "len \<le> 12"
  shows "german_new junk m str len remaining =
    Some (m, \<lparr>gs_len = of_nat len, gs_str = take len str @ drop len (take 4 junk @ replicate 8 0)\<rparr>)"
proof -
  have "le_bytes 8 (0 :: u64) = replicate 8 0" by (simp add: numeral_eq_Suc)
  then show ?thesis using assms by (simp add: german_new_def german_sizes set_ptr_def Let_def)
qed

lemma bytes_at_put: "bytes_at (put_bytes m a bs) a (length bs) = bs"
  by (rule nth_equalityI) (simp_all add: bytes_at_def put_bytes_def)

lemma new_represents:
  assumes "length junk = 12" "len \<le> length str" "len < 2 ^ 32" "remaining < 2 ^ 64"
    and "12 < len \<Longrightarrow> mapped m remaining (len - 4)"
  shows "\<exists>m' g. german_new junk m str len remaining = Some (m', g) \<and> represents m' g (take len str) \<and>
    m' = (if len \<le> 12 then m else put_bytes m remaining (take (len - 4) (drop 4 str)))"
proof (cases "len \<le> 12")
  case True
  then show ?thesis
    using new_inline [OF assms(1,2) True, of m remaining] assms by (auto simp: represents_def unat_of_nat_eq32)
next
  case False
  let ?g = "\<lparr>gs_len = of_nat len, gs_str = take 4 str @ drop 4 junk\<rparr>"
  let ?bs = "take (len - 4) (drop 4 str)"
  have l: "length ?bs = len - 4" "length (gs_str ?g) = 12" using False assms by simp_all
  have "store m remaining ?bs = Some (put_bytes m remaining ?bs)"
    using assms(5) False l(1) by (simp add: store_some)
  then have n: "german_new junk m str len remaining = Some (put_bytes m remaining ?bs, set_ptr remaining ?g)"
    using False assms(2) by (simp add: german_new_def german_sizes Let_def)
  have b: "bytes_at (put_bytes m remaining ?bs) remaining (len - 4) = ?bs"
    using bytes_at_put [of m remaining ?bs] unfolding l(1) .
  have mp: "mapped (put_bytes m remaining ?bs) remaining (len - 4)" using assms(5) False by simp
  have s: "length (take len str) = len" "drop 4 (take len str) = ?bs" "take 4 (take len str) = take 4 str"
    using False assms(2) by (simp_all add: drop_take)
  have "take 4 (gs_str ?g) = take 4 str" using False assms(2) by simp
  then have "represents (put_bytes m remaining ?bs) (set_ptr remaining ?g) (take len str)"
    unfolding represents_def long_ptr_set [OF l(2) assms(4)] s using False assms(3) b mp l(2)
    by (simp add: unat_of_nat_eq32)
  then show ?thesis using n False by auto
qed

lemma bytes_cmp_split:
  assumes "k \<le> length s" "k \<le> length u"
  shows "bytes_cmp s u = (if bytes_cmp (take k s) (take k u) \<noteq> 0 then bytes_cmp (take k s) (take k u) else bytes_cmp (drop k s) (drop k u))"
  using bytes_cmp_append [of "take k s" "take k u" "drop k s" "drop k u"] assms by (simp only: append_take_drop_id length_take min_absorb2)

lemma long_rep:
  assumes "represents m g s" "12 < length s"
  shows "\<not> is_inline g" "unat (gs_len g) = length s" "long_prefix g = take 4 s" "load (length s - 4) m (long_ptr g) = Some (drop 4 s)"
  using assms by (auto simp: represents_def is_inline_def german_sizes long_prefix_def load_some)

lemma inline_rep:
  assumes "represents m g s" "length s \<le> 12"
  shows "is_inline g" "unat (gs_len g) = length s" "take (length s) (gs_str g) = s" "length (gs_str g) = 12"
  using assms by (auto simp: represents_def is_inline_def german_sizes)

lemma compare_same_kind:
  assumes "represents m g s" "represents m h u" "length s \<le> 12 \<longleftrightarrow> length u \<le> 12"
  shows "german_compare m g h = Some (bytes_cmp s u)"
proof (cases "length s \<le> 12")
  case True
  then show ?thesis
    using inline_rep [OF assms(1) True] inline_rep [OF assms(2)] assms(3)
    by (simp add: german_compare_def memcompare_cmp)
next
  case False
  then have l: "12 < length s" "12 < length u" using assms(3) by simp_all
  have p: "memcompare (take 4 s) 4 (take 4 u) 4 = Some (bytes_cmp (take 4 s) (take 4 u))"
    using l by (simp add: memcompare_cmp)
  have r: "memcompare (drop 4 s) (length s - 4) (drop 4 u) (length u - 4) = Some (bytes_cmp (drop 4 s) (drop 4 u))"
    by (simp add: memcompare_cmp)
  show ?thesis
    using long_rep [OF assms(1) l(1)] long_rep [OF assms(2) l(2)] p r bytes_cmp_split [of 4 s u] l
    by (simp add: german_compare_def german_sizes)
qed

lemma compare_mixed:
  assumes g: "represents m g s" "length s \<le> 12" and h: "represents m h u" "12 < length u"
  shows "german_compare m g h = Some (mixed_cmp s u)" "german_compare m h g = Some (- mixed_cmp s u)"
proof -
  let ?k = "min (length s) 4"
  note G = inline_rep [OF g] and H = long_rep [OF h]
  have k: "take ?k (gs_str g) = take ?k s" using G(3) by (metis min.cobounded1 min_def take_take)
  have "memcompare (gs_str g) ?k (take 4 u) ?k = Some (bytes_cmp (take ?k s) (take ?k u))"
    using memcompare_cmp [of ?k "gs_str g" ?k "take 4 u"] k G(4) h(2) by simp
  then show "german_compare m g h = Some (mixed_cmp s u)"
    using G H by (simp add: german_compare_def german_sizes mixed_cmp_def Let_def)
  have "memcompare (take 4 u) ?k (gs_str g) ?k = Some (bytes_cmp (take ?k u) (take ?k s))"
    using memcompare_cmp [of ?k "take 4 u" ?k "gs_str g"] k G(4) h(2) by simp
  then show "german_compare m h g = Some (- mixed_cmp s u)"
    using G H bytes_cmp_swap [of "take ?k u" "take ?k s"] by (simp add: german_compare_def german_sizes mixed_cmp_def Let_def)
qed

lemma mixed_cmp_right:
  assumes "length s \<le> 4 \<or> take 4 s \<noteq> take 4 u" "length s \<le> 12" "12 < length u"
  shows "mixed_cmp s u = bytes_cmp s u"
proof (cases "length s \<le> 4")
  case True
  have "bytes_cmp s u = (if bytes_cmp s (take (length s) u) \<noteq> 0 then bytes_cmp s (take (length s) u) else bytes_cmp [] (drop (length s) u))"
    using bytes_cmp_split [of "length s" s u] True assms(3) by simp
  moreover have "bytes_cmp [] (drop (length s) u) = - 1" using True assms(3) by (cases "drop (length s) u") auto
  ultimately show ?thesis using True by (simp add: mixed_cmp_def Let_def)
next
  case False
  then show ?thesis using assms bytes_cmp_split [of 4 s u] by (simp add: mixed_cmp_def Let_def)
qed

lemma copy_represents:
  assumes g: "represents m g s" and r: "remaining < 2 ^ 64"
    and long: "12 < length s \<Longrightarrow> mapped m remaining (length s - 4) \<and> apart remaining (long_ptr g) (length s - 4)"
  shows "\<exists>m' g'. german_copy_to m g remaining = Some (m', g') \<and> represents m' g' s \<and> represents m' g s"
proof (cases "length s \<le> 12")
  case True
  then show ?thesis using g inline_rep [OF g True] by (simp add: german_copy_to_def german_sizes)
next
  case False
  then have l: "12 < length s" by simp
  note L = long_rep [OF g l] and mp = long [OF l]
  have g12: "length (gs_str g) = 12" "mapped m (long_ptr g) (length s - 4)" "bytes_at m (long_ptr g) (length s - 4) = drop 4 s"
    using g False by (auto simp: represents_def)
  let ?m = "put_bytes m remaining (drop 4 s)"
  have "german_copy_to m g remaining = Some (?m, set_ptr remaining g)"
    using L mp l by (simp add: german_copy_to_def german_sizes store_some)
  moreover have "represents ?m (set_ptr remaining g) s"
    using g l mp bytes_at_put [of m remaining "drop 4 s"]
    unfolding represents_def long_ptr_set [OF g12(1) r] by simp
  moreover have "bytes_at ?m (long_ptr g) (length s - 4) = bytes_at m (long_ptr g) (length s - 4)"
    using mp by (intro bytes_at_cong) (auto simp: put_bytes_def apart_def)
  then have "represents ?m g s" using g l by (simp add: represents_def)
  ultimately show ?thesis by blast
qed

lemma append_inline:
  assumes g: "represents m g s" and l: "length s + len \<le> 12" "len \<le> length str"
  shows "\<exists>g'. german_append m g str len remaining = Some (m, g') \<and> represents m g' (s @ take len str)"
proof -
  note G = inline_rep [OF g]
  have "unat (gs_len g + of_nat len) = length s + len"
    using G(2) l(1) by (simp add: unat_add_lem [THEN iffD1] unat_of_nat_eq32)
  then show ?thesis using G l by (simp add: german_append_def german_sizes Let_def represents_def)
qed

lemma eq_long:
  assumes "represents m g s" "represents m h u" "12 < length s" "12 < length u"
  shows "german_eq m g h = Some (s = u)"
proof -
  have p: "memcompare (take 4 s) 4 (take 4 u) 4 = Some (bytes_cmp (take 4 s) (take 4 u))"
    using assms(3,4) by (simp add: memcompare_cmp)
  have r: "memcompare (drop 4 s) (length s - 4) (drop 4 u) (length u - 4) = Some (bytes_cmp (drop 4 s) (drop 4 u))"
    by (simp add: memcompare_cmp)
  have "s = u \<longleftrightarrow> take 4 s = take 4 u \<and> drop 4 s = drop 4 u" by (metis append_take_drop_id)
  then show ?thesis
    using long_rep [OF assms(1,3)] long_rep [OF assms(2,4)] p r by (simp add: german_eq_def german_sizes)
qed

lemma eq_raw:
  assumes "length (gs_str g) = 12" "length (gs_str h) = 12" "is_inline g \<or> is_inline h"
  shows "german_eq m g h = Some (g = h)"
proof -
  have "length (gs_bytes g) = 16" "length (gs_bytes h) = 16" using assms(1,2) by (simp_all add: gs_bytes_def)
  moreover have "gs_bytes g = gs_bytes h \<longleftrightarrow> g = h" by (auto simp: gs_bytes_def le_bytes_inject)
  ultimately show ?thesis using assms(3) by (simp add: german_eq_def memcompare_cmp)
qed

section \<open>The allocator\<close>

lemma disjoint_sym: "disjoint_regions r q \<Longrightarrow> disjoint_regions q r"
  by (auto simp: disjoint_regions_def)

lemma disjoint_part:
  assumes "disjoint_regions r q" "fst r \<le> fst r'" "fst r' + snd r' \<le> fst r + snd r"
  shows "disjoint_regions r' q"
  using assms by (auto simp: disjoint_regions_def)

text \<open>A region that is disjoint from all blocks is disjoint from everything placed in them.\<close>

lemma disjoint_placed:
  assumes "placed st r" "list_all (\<lambda>(b, used). used \<le> PAGE_SIZE) (medium_string_pages st)" "list_all (disjoint_regions q) (blocks st)"
  shows "disjoint_regions r q"
proof (cases "r \<in> set (large_strings st)")
  case True
  then have "disjoint_regions q r" using assms(3) by (simp add: blocks_def list_all_iff)
  then show ?thesis by (rule disjoint_sym)
next
  case False
  then obtain b used where b: "(b, used) \<in> set (medium_string_pages st)" "b \<le> fst r" "fst r + snd r \<le> b + used"
    using assms(1) by (auto simp: placed_def)
  have "used \<le> PAGE_SIZE" "disjoint_regions q (b, PAGE_SIZE)"
    using b(1) assms(2,3) by (auto simp: blocks_def list_all_iff)
  then show ?thesis using disjoint_part [OF disjoint_sym, of q "(b, PAGE_SIZE)" r] b by simp
qed

lemma alloc_new_page:
  assumes "alloc_inv st rs" "list_all (disjoint_regions (fresh, PAGE_SIZE)) (blocks st)"
  shows "alloc_inv (st\<lparr>medium_string_pages := medium_string_pages st @ [(fresh, 0)]\<rparr>) rs"
  using assms
  by (auto simp: alloc_inv_def blocks_def sorted_wrt_append list_all_iff placed_def alloc_size_def intro: disjoint_sym)

lemma alloc_extend:
  assumes I: "alloc_inv st rs" and st: "medium_string_pages st = ps @ [(b, used)]" and n: "used + n \<le> PAGE_SIZE"
  shows "alloc_inv (st\<lparr>medium_string_pages := ps @ [(b, used + n)]\<rparr>) (rs @ [(b + used, n)])"
proof -
  let ?st = "st\<lparr>medium_string_pages := ps @ [(b, used + n)]\<rparr>"
  have inv: "sorted_wrt disjoint_regions (blocks st)" "sorted_wrt disjoint_regions rs" "list_all (placed st) rs"
    "list_all (\<lambda>(b, used). used \<le> PAGE_SIZE) (medium_string_pages st)" "alloc_size st = sum_list (map snd rs)"
    using I by (simp_all add: alloc_inv_def)
  have "disjoint_regions r (b + used, n)" if "r \<in> set rs" for r
  proof (cases "b \<le> fst r \<and> fst r + snd r \<le> b + used")
    case True
    then show ?thesis by (simp add: disjoint_regions_def)
  next
    case False
    let ?other = "st\<lparr>medium_string_pages := ps\<rparr>"
    have "placed ?other r" using inv(3) that False by (auto simp: placed_def st list_all_iff)
    moreover have "list_all (disjoint_regions (b, PAGE_SIZE)) (blocks ?other)"
      using inv(1) by (auto simp: blocks_def st sorted_wrt_append list_all_iff intro: disjoint_sym)
    ultimately have "disjoint_regions r (b, PAGE_SIZE)" using inv(4) by (intro disjoint_placed) (simp_all add: st)
    then have "disjoint_regions (b + used, n) r"
      using disjoint_part [OF disjoint_sym, of r "(b, PAGE_SIZE)" "(b + used, n)"] n by simp
    then show ?thesis by (rule disjoint_sym)
  qed
  moreover have "placed ?st r" if "placed st r" for r using that by (fastforce simp: placed_def st)
  moreover have "placed ?st (b + used, n)" by (simp add: placed_def)
  moreover have "blocks ?st = blocks st" by (simp add: blocks_def st)
  ultimately show ?thesis
    using inv n by (auto simp: alloc_inv_def sorted_wrt_append list_all_iff st alloc_size_def)
qed

lemma alloc_large:
  assumes I: "alloc_inv st rs" and f: "list_all (disjoint_regions (fresh, n)) (blocks st)"
  shows "alloc_inv (st\<lparr>large_strings := large_strings st @ [(fresh, n)]\<rparr>) (rs @ [(fresh, n)])"
proof -
  have "disjoint_regions r (fresh, n)" if "r \<in> set rs" for r
    using I f that by (intro disjoint_placed) (auto simp: alloc_inv_def list_all_iff)
  then show ?thesis using I f
    by (auto simp: alloc_inv_def blocks_def sorted_wrt_append list_all_iff placed_def alloc_size_def intro: disjoint_sym)
qed

lemma allocate_inv:
  assumes I: "alloc_inv st rs" and f: "list_all (disjoint_regions (fresh, max PAGE_SIZE n)) (blocks st)"
    and a: "allocate st n fresh = (st', p)"
  shows "alloc_inv st' (if n \<le> INLINE_MAX_LENGTH then rs else rs @ [(p, n - PREFIX_LENGTH)])"
proof -
  have f': "list_all (disjoint_regions (fresh, k)) (blocks st)" if "k \<le> max PAGE_SIZE n" for k
    using f that disjoint_part [of "(fresh, max PAGE_SIZE n)"] by (auto simp: list_all_iff)
  let ?k = "n - PREFIX_LENGTH"
  consider "n \<le> INLINE_MAX_LENGTH" | "\<not> n \<le> INLINE_MAX_LENGTH" "?k \<le> MEDIUM_STRING_MAX_SIZE"
    | "\<not> n \<le> INLINE_MAX_LENGTH" "\<not> ?k \<le> MEDIUM_STRING_MAX_SIZE" by blast
  then show ?thesis
  proof cases
    case 1
    then show ?thesis using I a by (simp add: allocate_def)
  next
    case 2
    let ?new = "medium_string_pages st = [] \<or> snd (last (medium_string_pages st)) + ?k > PAGE_SIZE"
    define st1 where "st1 = (if ?new then st\<lparr>medium_string_pages := medium_string_pages st @ [(fresh, 0)]\<rparr> else st)"
    have I1: "alloc_inv st1 rs" using I alloc_new_page [OF I f'] by (simp add: st1_def)
    have ne: "medium_string_pages st1 \<noteq> []" by (simp add: st1_def)
    obtain b used where l: "last (medium_string_pages st1) = (b, used)" by fastforce
    have pages: "medium_string_pages st1 = butlast (medium_string_pages st1) @ [(b, used)]" using ne l by (metis append_butlast_last_id)
    have fits: "used + ?k \<le> PAGE_SIZE" using l 2(2) by (auto simp: st1_def german_sizes split: if_splits)
    have "st' = st1\<lparr>medium_string_pages := butlast (medium_string_pages st1) @ [(b, used + ?k)]\<rparr>" "p = b + used"
      using a 2 l by (auto simp: allocate_def st1_def Let_def split: if_splits)
    then show ?thesis using alloc_extend [OF I1 pages fits] 2(1) by simp
  next
    case 3
    have "?k \<le> max PAGE_SIZE n" by simp
    from alloc_large [OF I f' [OF this]] show ?thesis using a 3 by (auto simp: allocate_def Let_def)
  qed
qed

lemma allocated_inv: "allocated st rs \<Longrightarrow> alloc_inv st rs"
proof (induction rule: allocated.induct)
  case (allocated_step st rs fresh n st' p)
  then show ?case using allocate_inv by blast
qed (auto simp: alloc_inv_def blocks_def alloc_size_def alloc_clear_def)

section \<open>Properties\<close>

text \<open>
  C18. A GermanString holds what it was made from: for every length below 2 ^ 32, inline or with
  its tail in the memory it was given, and whatever bytes the object had before, conversion to
  std::string returns the characters, and so it does for a copy into other memory.
\<close>
theorem german_round_trip:
  assumes "length junk = 12" "len \<le> length str" "len < 2 ^ 32" "remaining < 2 ^ 64" "other < 2 ^ 64"
    and "12 < len \<Longrightarrow> mapped m remaining (len - 4) \<and> mapped m other (len - 4) \<and> apart other remaining (len - 4)"
  shows "\<exists>m1 g m2 h. german_new junk m str len remaining = Some (m1, g) \<and> german_to_string m1 g = Some (take len str) \<and>
    german_copy_to m1 g other = Some (m2, h) \<and> german_to_string m2 h = Some (take len str) \<and> german_to_string m2 g = Some (take len str)"
proof -
  obtain m1 g where g: "german_new junk m str len remaining = Some (m1, g)" "represents m1 g (take len str)"
    "m1 = (if len \<le> 12 then m else put_bytes m remaining (take (len - 4) (drop 4 str)))"
    using new_represents [OF assms(1-4), of m] assms(6) by blast
  have "long_ptr g = remaining" if "12 < len"
    using g(1) that assms(1,2,4,6) by (auto simp: german_new_def german_sizes Let_def bind_eq_Some_conv intro!: long_ptr_set(1))
  then have "12 < length (take len str) \<Longrightarrow> mapped m1 other (length (take len str) - 4) \<and> apart other (long_ptr g) (length (take len str) - 4)"
    using assms(2,6) g(3) by simp
  then obtain m2 h where "german_copy_to m1 g other = Some (m2, h)" "represents m2 h (take len str)" "represents m2 g (take len str)"
    using copy_represents [OF g(2) assms(5)] by blast
  then show ?thesis using g to_string_represents by blast
qed

theorem german_round_trip_witness:
  "\<exists>m1 g m2 h. german_new (replicate 12 7) german_memory hello_german 18 100 = Some (m1, g) \<and> german_to_string m1 g = Some (take 18 hello_german) \<and>
    german_copy_to m1 g 200 = Some (m2, h) \<and> german_to_string m2 h = Some (take 18 hello_german) \<and> german_to_string m2 g = Some (take 18 hello_german)"
  by (rule german_round_trip) (simp_all add: hello_german_def german_memory_def mapped_def apart_def)

text \<open>
  C19. compare is the lexicographic order of unsigned bytes, a proper prefix first, between two
  inline strings, between two long ones, and between an inline and a long one of which the
  first four bytes differ or the inline one has no more than four.
\<close>
theorem german_compare_order:
  assumes "represents m g s" "represents m h u"
    and "(length s \<le> 12 \<longleftrightarrow> length u \<le> 12) \<or> length s \<le> 4 \<or> length u \<le> 4 \<or> take 4 s \<noteq> take 4 u"
  shows "german_compare m g h = Some (bytes_cmp s u)"
proof -
  consider "length s \<le> 12 \<longleftrightarrow> length u \<le> 12" | "length s \<le> 12" "12 < length u" | "12 < length s" "length u \<le> 12" by linarith
  then show ?thesis
  proof cases
    case 1
    then show ?thesis by (rule compare_same_kind [OF assms(1,2)])
  next
    case 2
    then show ?thesis
      using compare_mixed(1) [OF assms(1) 2(1) assms(2) 2(2)] mixed_cmp_right [of s u] assms(3) by simp
  next
    case 3
    then show ?thesis
      using compare_mixed(2) [OF assms(2) 3(2) assms(1) 3(1)] mixed_cmp_right [of u s] assms(3) bytes_cmp_swap [of s u]
      by (auto dest: not_sym)
  qed
qed

theorem german_compare_order_witness:
  "german_compare german_memory \<lparr>gs_len = 5, gs_str = hellp @ replicate 7 0\<rparr> \<lparr>gs_len = 3, gs_str = [0x48, 0x65, 0x6d] @ replicate 9 0\<rparr> = Some (- 1)"
proof -
  have "represents german_memory \<lparr>gs_len = 5, gs_str = hellp @ replicate 7 0\<rparr> hellp"
    "represents german_memory \<lparr>gs_len = 3, gs_str = [0x48, 0x65, 0x6d] @ replicate 9 0\<rparr> [0x48, 0x65, 0x6d]"
    by (simp_all add: represents_def hellp_def)
  from german_compare_order [OF this] show ?thesis by (simp add: hellp_def)
qed

text \<open>
  C33. Between an inline string of five to twelve bytes and a long one that begins with the same
  four, compare does not look further: the inline one always counts as the smaller, also where
  its fifth byte is the larger.
\<close>
theorem german_compare_ignores_tail:
  assumes "represents m g s" "represents m h u" "4 < length s" "length s \<le> 12" "12 < length u" "take 4 s = take 4 u"
  shows "german_compare m g h = Some (- 1) \<and> german_compare m h g = Some 1"
  using compare_mixed [OF assms(1,4,2,5)] assms(3,6) by (simp add: mixed_cmp_def Let_def)

theorem german_compare_ignores_tail_witness:
  "\<exists>m h. german_compare m \<lparr>gs_len = 5, gs_str = hellp @ replicate 7 0\<rparr> h = Some (- 1) \<and> german_to_string m h = Some hello_german \<and> bytes_cmp hellp hello_german = 1"
proof -
  obtain m h where h: "represents m h (take 18 hello_german)"
    using new_represents [of "replicate 12 7" 18 hello_german 100 german_memory] by (auto simp: hello_german_def german_memory_def mapped_def)
  then have h': "represents m h hello_german" by (simp add: hello_german_def)
  have "represents m \<lparr>gs_len = 5, gs_str = hellp @ replicate 7 0\<rparr> hellp" by (simp add: represents_def hellp_def)
  from german_compare_ignores_tail [OF this h'] have "german_compare m \<lparr>gs_len = 5, gs_str = hellp @ replicate 7 0\<rparr> h = Some (- 1)"
    by (simp add: hellp_def hello_german_def)
  moreover have "bytes_cmp hellp hello_german = 1" by (simp add: hellp_def hello_german_def)
  ultimately show ?thesis using to_string_represents [OF h'] by blast
qed

text \<open>
  Equality of two strings made by the constructor is equality of their characters when they
  have at least four of them; below that the constructor leaves bytes of the object as they
  were, and strings with the same characters are equal only if these bytes agree as well.
\<close>
theorem german_eq_uninitialised:
  assumes "length junk = 12" "length junk' = 12" "length s \<le> 12" "length u \<le> 12"
    and "german_new junk m s (length s) 0 = Some (m, g)" "german_new junk' m u (length u) 0 = Some (m, h)"
  shows "german_eq m g h = Some (s = u \<and> drop (length s) (take 4 junk) = drop (length s) (take 4 junk'))"
proof -
  have g: "g = \<lparr>gs_len = of_nat (length s), gs_str = s @ drop (length s) (take 4 junk @ replicate 8 0)\<rparr>"
    and h: "h = \<lparr>gs_len = of_nat (length u), gs_str = u @ drop (length u) (take 4 junk' @ replicate 8 0)\<rparr>"
    using assms new_inline [OF assms(1) order_refl assms(3)] new_inline [OF assms(2) order_refl assms(4)] by simp_all
  have "is_inline g" "length (gs_str g) = 12" "length (gs_str h) = 12"
    using assms(1-4) by (simp_all add: g h is_inline_def german_sizes unat_of_nat_eq32)
  then have e: "german_eq m g h = Some (g = h)" by (intro eq_raw) simp_all
  have "length s = length u" if "(of_nat (length s) :: u32) = of_nat (length u)"
    using arg_cong [OF that, of unat] assms(3,4) by (simp add: unat_of_nat_eq32)
  then have "g = h \<longleftrightarrow> s = u \<and> drop (length s) (take 4 junk @ replicate 8 0) = drop (length s) (take 4 junk' @ replicate 8 0)"
    by (auto simp: g h)
  moreover have "drop (length s) (take 4 junk @ replicate 8 0) = drop (length s) (take 4 junk' @ replicate 8 0)
      \<longleftrightarrow> drop (length s) (take 4 junk) = drop (length s) (take 4 junk')"
    using assms(1,2) by simp
  ultimately show ?thesis using e by simp
qed

theorem german_eq_uninitialised_witness:
  "\<exists>g h. german_new (replicate 12 1) german_memory [0x61] (length [0x61 :: byte]) 0 = Some (german_memory, g) \<and>
     german_new (replicate 12 2) german_memory [0x61] (length [0x61 :: byte]) 0 = Some (german_memory, h) \<and> german_eq german_memory g h = Some False"
proof -
  obtain g where g: "german_new (replicate 12 1) german_memory [0x61] (length [0x61 :: byte]) 0 = Some (german_memory, g)"
    using new_inline [of "replicate 12 1" 1 "[0x61]" german_memory 0] by auto
  obtain h where h: "german_new (replicate 12 2) german_memory [0x61] (length [0x61 :: byte]) 0 = Some (german_memory, h)"
    using new_inline [of "replicate 12 2" 1 "[0x61]" german_memory 0] by auto
  show ?thesis using g h german_eq_uninitialised [OF _ _ _ _ g h] by (simp add: numeral_eq_Suc)
qed



end
