(* ===== verification/BinaryColumn.thy ===== *)
theory BinaryColumn
  imports RawMemory ByteOrder
begin

text \<open>
  src/include/binary_column.hh and src/include/concat.hh: columns of strings as one vector of
  bytes and a vector of 32-bit offsets, the serialisation of their rows into a buffer, and the
  two concatenations of several columns.  An index outside a vector is a fault, and so is the
  overflow of the int that a loop counts rows with.  The address of the first byte of a row,
  \&bytes[offsets[i]], is taken as the pointer data() + offsets[i]: for an empty row at the end
  it is the end pointer of the vector, from which no byte is read.
\<close>

record column =
  col_bytes :: bytes
  col_offsets :: "u32 list"

definition column_new :: column where
  "column_new = \<lparr>col_bytes = [], col_offsets = [0]\<rparr>"

text \<open>The constructor puts one offset and nothing removes any, so size() does not wrap.\<close>

definition binary_column_size :: "column \<Rightarrow> nat" where
  "binary_column_size c = length (col_offsets c) - 1"

definition offset_at :: "'a list \<Rightarrow> nat \<Rightarrow> 'a option" where
  "offset_at os i = (if i < length os then Some (os ! i) else None)"

definition column_append :: "column \<Rightarrow> bytes \<Rightarrow> column option" where
  "column_append c s = do {
     guard (col_offsets c \<noteq> []);
     Some (c\<lparr>col_bytes := col_bytes c @ s,
             col_offsets := col_offsets c @ [last (col_offsets c) + of_nat (length s)]\<rparr>) }"

text \<open>The overload on a pair of pointers.\<close>

definition column_append_range :: "mem \<Rightarrow> column \<Rightarrow> nat \<Rightarrow> nat \<Rightarrow> column option" where
  "column_append_range m c b e = do {
     guard (b \<le> e);
     s \<leftarrow> load (e - b) m b;
     column_append c s }"

fun max_size_loop :: "u32 list \<Rightarrow> u32 \<Rightarrow> u32" where
  "max_size_loop (a # b # os) mx = max_size_loop (b # os) (max mx (b - a))"
| "max_size_loop os mx = mx"

definition get_max_serialized_size :: "column \<Rightarrow> u32 option" where
  "get_max_serialized_size c = do {
     guard (binary_column_size c < 2 ^ 31);
     Some (max_size_loop (col_offsets c) 0 + 4) }"

text \<open>A Slice: the position in the bytes of the column and the size.\<close>

definition get_slice :: "column \<Rightarrow> int \<Rightarrow> (nat \<times> nat) option" where
  "get_slice c i = do {
     guard (0 \<le> i \<and> i + 1 < 2 ^ 31);
     a \<leftarrow> offset_at (col_offsets c) (nat i);
     b \<leftarrow> offset_at (col_offsets c) (nat (i + 1));
     Some (unat a, unat (b - a)) }"

text \<open>size() - 1 is converted to int.\<close>

definition get_last_slice :: "column \<Rightarrow> (nat \<times> nat) option" where
  "get_last_slice c = get_slice c (sint (of_nat (binary_column_size c) - 1 :: u32))"

text \<open>The bytes from data to data + size.\<close>

definition slice_string :: "column \<Rightarrow> nat \<times> nat \<Rightarrow> bytes option" where
  "slice_string c = (\<lambda>(p, n). do {
     guard (p + n \<le> length (col_bytes c));
     Some (take n (drop p (col_bytes c))) })"

fun slices :: "column \<Rightarrow> nat \<Rightarrow> nat \<Rightarrow> bytes list \<Rightarrow> bytes list option" where
  "slices c i 0 ss = Some ss"
| "slices c i (Suc k) ss = do {
     sl \<leftarrow> get_slice c (int i);
     s \<leftarrow> slice_string c sl;
     slices c (Suc i) k (ss @ [s]) }"

definition to_vector :: "column \<Rightarrow> bytes list option" where
  "to_vector c = slices c 0 (binary_column_size c) []"

text \<open>serialize writes the size as four bytes, the lowest first, and then the string.\<close>

definition serialize :: "column \<Rightarrow> nat \<Rightarrow> mem \<Rightarrow> nat \<Rightarrow> (mem \<times> u32) option" where
  "serialize c idx m pos = do {
     b \<leftarrow> offset_at (col_offsets c) (idx + 1);
     a \<leftarrow> offset_at (col_offsets c) idx;
     let binary_size = b - a;
     m \<leftarrow> store m pos (le_bytes 4 binary_size);
     s \<leftarrow> slice_string c (unat a, unat binary_size);
     m \<leftarrow> store m (pos + 4) s;
     Some (m, 4 + binary_size) }"

fun serialize_rows :: "column \<Rightarrow> nat \<Rightarrow> u32 \<Rightarrow> nat \<Rightarrow> nat \<Rightarrow> mem \<Rightarrow> u32 list \<Rightarrow> (mem \<times> u32 list) option" where
  "serialize_rows c dst max_one_row_size i 0 m slice_sizes = Some (m, slice_sizes)"
| "serialize_rows c dst max_one_row_size i (Suc k) m slice_sizes = do {
     sz \<leftarrow> offset_at slice_sizes i;
     (m, r) \<leftarrow> serialize c i m (dst + i * unat max_one_row_size + unat sz);
     serialize_rows c dst max_one_row_size (Suc i) k m (slice_sizes[i := sz + r]) }"

definition serialize_batch :: "column \<Rightarrow> nat \<Rightarrow> mem \<Rightarrow> u32 list \<Rightarrow> nat \<Rightarrow> u32 \<Rightarrow> (mem \<times> u32 list) option" where
  "serialize_batch c dst m slice_sizes chunk_size max_one_row_size =
     serialize_rows c dst max_one_row_size 0 chunk_size m slice_sizes"

section \<open>Concatenation\<close>

fun max_serialize_loop :: "column list \<Rightarrow> u32 \<Rightarrow> u32 option" where
  "max_serialize_loop [] mx = Some mx"
| "max_serialize_loop (c # cs) mx = do {
     s \<leftarrow> get_max_serialized_size c;
     max_serialize_loop cs (mx + s) }"

definition get_max_serialize_size :: "column list \<Rightarrow> u32 option" where
  "get_max_serialize_size cs = max_serialize_loop cs 0"

text \<open>make\_room: that many elements, with whatever the memory held.\<close>

definition make_room_mem :: "(nat \<Rightarrow> byte) \<Rightarrow> nat \<Rightarrow> nat \<Rightarrow> mem" where
  "make_room_mem junk dst n = (\<lambda>x. if dst \<le> x \<and> x < dst + n then Some (junk (x - dst)) else None)"

definition make_room :: "(nat \<Rightarrow> 'a) \<Rightarrow> nat \<Rightarrow> 'a list" where
  "make_room junk n = map junk [0..<n]"

fun serialize_columns :: "column list \<Rightarrow> nat \<Rightarrow> nat \<Rightarrow> u32 \<Rightarrow> mem \<Rightarrow> u32 list \<Rightarrow> (mem \<times> u32 list) option" where
  "serialize_columns [] dst chunk_size max_one_row_size m slice_sizes = Some (m, slice_sizes)"
| "serialize_columns (c # cs) dst chunk_size max_one_row_size m slice_sizes = do {
     (m, slice_sizes) \<leftarrow> serialize_batch c dst m slice_sizes chunk_size max_one_row_size;
     serialize_columns cs dst chunk_size max_one_row_size m slice_sizes }"

text \<open>
  The buffer is at dst; its size is a product of 32-bit numbers.  With no column the loop does
  nothing, otherwise columns[0] gives the number of rows of every column.
\<close>

definition concat_vertically :: "(nat \<Rightarrow> byte) \<Rightarrow> nat \<Rightarrow> column list \<Rightarrow> (mem \<times> u32 list) option" where
  "concat_vertically junk dst columns = do {
     let slice_sizes = replicate 4096 0;
     max_one_row_size \<leftarrow> get_max_serialize_size columns;
     let m = make_room_mem junk dst (unat (4096 * max_one_row_size));
     (case columns of [] \<Rightarrow> Some (m, slice_sizes)
      | c0 # _ \<Rightarrow> serialize_columns columns dst (binary_column_size c0) max_one_row_size m slice_sizes) }"

fun insert_row :: "column list \<Rightarrow> int \<Rightarrow> bytes \<Rightarrow> bytes option" where
  "insert_row [] i bs = Some bs"
| "insert_row (c # cs) i bs = do {
     sl \<leftarrow> get_slice c i;
     s \<leftarrow> slice_string c sl;
     insert_row cs i (bs @ s) }"

fun horizontal_rows :: "column list \<Rightarrow> nat \<Rightarrow> nat \<Rightarrow> bytes \<Rightarrow> u32 list \<Rightarrow> column option" where
  "horizontal_rows cs i 0 bs offsets = Some \<lparr>col_bytes = bs, col_offsets = offsets\<rparr>"
| "horizontal_rows cs i (Suc k) bs offsets = do {
     bs \<leftarrow> insert_row cs (int i) bs;
     guard (i + 1 < length offsets);
     horizontal_rows cs (Suc i) k bs (offsets[i + 1 := of_nat (length bs)]) }"

text \<open>
  make\_room replaces the offsets of the new column, its first one included.  The call of
  reserve does not change the contents of the bytes.
\<close>

definition concat_horizontally :: "(nat \<Rightarrow> u32) \<Rightarrow> column list \<Rightarrow> column option" where
  "concat_horizontally junk columns = (case columns of [] \<Rightarrow> None
   | c0 # _ \<Rightarrow> horizontal_rows columns 0 (binary_column_size c0) (col_bytes column_new) (make_room junk (binary_column_size c0 + 1)))"

section \<open>Specification\<close>

text \<open>The column of the given strings, and what a row looks like in the buffer.\<close>

fun row_offsets :: "u32 \<Rightarrow> bytes list \<Rightarrow> u32 list" where
  "row_offsets k [] = [k]"
| "row_offsets k (s # ss) = k # row_offsets (k + of_nat (length s)) ss"

definition columnar :: "bytes list \<Rightarrow> column" where
  "columnar ss = \<lparr>col_bytes = concat ss, col_offsets = row_offsets 0 ss\<rparr>"

definition fits :: "bytes list \<Rightarrow> bool" where
  "fits ss \<longleftrightarrow> length (concat ss) < 2 ^ 32 \<and> length ss < 2 ^ 31"

fun append_all :: "column \<Rightarrow> bytes list \<Rightarrow> column option" where
  "append_all c [] = Some c"
| "append_all c (s # ss) = do { c \<leftarrow> column_append c s; append_all c ss }"

definition serialized :: "bytes \<Rightarrow> bytes" where
  "serialized s = le_bytes 4 (of_nat (length s) :: u32) @ s"

definition row_bytes :: "bytes list list \<Rightarrow> nat \<Rightarrow> bytes" where
  "row_bytes css i = concat (map (\<lambda>ss. serialized (ss ! i)) css)"

definition row_of :: "bytes list list \<Rightarrow> nat \<Rightarrow> bytes" where
  "row_of css i = concat (map (\<lambda>ss. ss ! i) css)"

definition widest :: "bytes list \<Rightarrow> nat" where
  "widest ss = fold max (map length ss) 0 + 4"

text \<open>Row i of the buffer holds what the given columns have for it, and its size is recorded.\<close>

definition written :: "nat \<Rightarrow> nat \<Rightarrow> mem \<Rightarrow> u32 list \<Rightarrow> bytes list list \<Rightarrow> nat \<Rightarrow> bool" where
  "written dst R m sizes css i \<longleftrightarrow>
     length (row_bytes css i) \<le> R \<and> unat (sizes ! i) = length (row_bytes css i) \<and>
     bytes_at m (dst + i * R) (length (row_bytes css i)) = row_bytes css i"

section \<open>Lemmas\<close>

lemma length_row_offsets [simp]: "length (row_offsets k ss) = Suc (length ss)"
  by (induction ss arbitrary: k) simp_all

lemma row_offsets_not_Nil [simp]: "row_offsets k ss \<noteq> []"
  by (cases ss) simp_all

lemma row_offsets_nth: "i \<le> length ss \<Longrightarrow> row_offsets k ss ! i = k + of_nat (length (concat (take i ss)))"
  by (induction ss arbitrary: k i) (auto simp: nth_Cons' take_Cons')

lemma row_offsets_snoc: "row_offsets k (ss @ [s]) = row_offsets k ss @ [last (row_offsets k ss) + of_nat (length s)]"
  by (induction ss arbitrary: k) simp_all

lemma columnar_size [simp]: "binary_column_size (columnar ss) = length ss"
  by (simp add: binary_column_size_def columnar_def)

lemma columnar_append: "column_append (columnar ss) s = Some (columnar (ss @ [s]))"
  by (simp add: column_append_def columnar_def row_offsets_snoc)

lemma append_all_columnar: "append_all (columnar rs) ss = Some (columnar (rs @ ss))"
  by (induction ss arbitrary: rs) (simp_all add: columnar_append)

lemma columnar_offset: "i \<le> length ss \<Longrightarrow> offset_at (col_offsets (columnar ss)) i = Some (of_nat (length (concat (take i ss))))"
  by (simp add: offset_at_def columnar_def row_offsets_nth)

lemma take_row: "i < length ss \<Longrightarrow> concat ss = concat (take i ss) @ ss ! i @ concat (drop (Suc i) ss)"
  by (metis concat.simps(2) concat_append id_take_nth_drop)

lemma concat_take_Suc: "i < length ss \<Longrightarrow> concat (take (Suc i) ss) = concat (take i ss) @ ss ! i"
  by (simp add: take_Suc_conv_app_nth)

lemma row_span:
  assumes "fits ss" "i < length ss"
  shows "(of_nat (length (concat (take (Suc i) ss))) - of_nat (length (concat (take i ss))) :: u32) = of_nat (length (ss ! i))"
    and "length (concat (take i ss)) + length (ss ! i) \<le> length (concat ss)"
    and "unat (of_nat (length (concat (take i ss))) :: u32) = length (concat (take i ss))"
    and "unat (of_nat (length (ss ! i)) :: u32) = length (ss ! i)"
proof -
  show "length (concat (take i ss)) + length (ss ! i) \<le> length (concat ss)"
    using arg_cong [OF take_row [OF assms(2)], of length] by simp
  then show "unat (of_nat (length (concat (take i ss))) :: u32) = length (concat (take i ss))"
    "unat (of_nat (length (ss ! i)) :: u32) = length (ss ! i)"
    using assms(1) by (simp_all add: fits_def unat_of_nat_eq32)
  show "(of_nat (length (concat (take (Suc i) ss))) - of_nat (length (concat (take i ss))) :: u32) = of_nat (length (ss ! i))"
    using concat_take_Suc [OF assms(2)] by simp
qed

lemma columnar_slice:
  assumes "fits ss" "i < length ss"
  shows "slice_string (columnar ss) (length (concat (take i ss)), length (ss ! i)) = Some (ss ! i)"
proof -
  have "take (length (ss ! i)) (drop (length (concat (take i ss))) (concat ss)) = ss ! i"
    by (subst take_row [OF assms(2)]) simp
  then show ?thesis using row_span(2) [OF assms] by (simp add: slice_string_def columnar_def)
qed

lemma columnar_get_slice:
  assumes "fits ss" "i < length ss"
  shows "get_slice (columnar ss) (int i) = Some (length (concat (take i ss)), length (ss ! i))"
proof -
  have n: "nat (int i + 1) = Suc i" "int i + 1 < 2 ^ 31" using assms by (simp_all add: fits_def)
  show ?thesis
    unfolding get_slice_def n(1)
    using assms n(2) row_span [OF assms] columnar_offset [of i ss] columnar_offset [of "Suc i" ss]
    by (simp add: guard_def)
qed

lemma columnar_slices:
  assumes "fits ss"
  shows "i + k \<le> length ss \<Longrightarrow> slices (columnar ss) i k acc = Some (acc @ take k (drop i ss))"
proof (induction k arbitrary: i acc)
  case (Suc k)
  then have i: "i < length ss" by simp
  then have "take (Suc k) (drop i ss) = ss ! i # take k (drop (Suc i) ss)"
    by (metis Cons_nth_drop_Suc take_Suc_Cons)
  then show ?case
    using Suc columnar_get_slice [OF assms i] columnar_slice [OF assms i] by simp
qed simp

lemma columnar_insert_row:
  assumes "list_all (\<lambda>ss. fits ss \<and> i < length ss) css"
  shows "insert_row (map columnar css) (int i) bs = Some (bs @ concat (map (\<lambda>ss. ss ! i) css))"
  using assms by (induction css arbitrary: bs) (simp_all add: columnar_get_slice columnar_slice)

lemma unat_max: "unat (max a b) = max (unat a) (unat b)"
  by (simp add: max_def word_le_nat_alt)

lemma max_loop_columnar:
  assumes "list_all (\<lambda>s. length s < 2 ^ 32) ss"
  shows "unat (max_size_loop (row_offsets k ss) mx) = fold max (map length ss) (unat mx)"
  using assms
proof (induction ss arbitrary: k mx)
  case (Cons s ss)
  obtain os where os: "row_offsets (k + of_nat (length s)) ss = (k + of_nat (length s)) # os"
    by (cases ss) simp_all
  have "unat (of_nat (length s) :: u32) = length s" using Cons.prems by (simp add: unat_of_nat_eq32)
  then show ?case using Cons.IH [of "k + of_nat (length s)" "max mx (of_nat (length s))"] Cons.prems
    by (simp add: os unat_max max.commute)
qed simp

lemma length_serialized [simp]: "length (serialized s) = 4 + length s"
  by (simp add: serialized_def)

lemma serialize_columnar:
  assumes "fits ss" "i < length ss" "mapped m pos (4 + length (ss ! i))"
  shows "serialize (columnar ss) i m pos = Some (put_bytes m pos (serialized (ss ! i)), 4 + of_nat (length (ss ! i)))"
proof -
  let ?l = "le_bytes 4 (of_nat (length (ss ! i)) :: u32)"
  have "mapped m (pos + 4) (length (ss ! i))" using assms(3) by (rule mapped_part) simp_all
  then have mp: "mapped (put_bytes m pos ?l) (pos + 4) (length (ss ! i))" by simp
  have "store m pos ?l = Some (put_bytes m pos ?l)"
    using assms(3) by (intro store_some) (auto elim: mapped_part)
  moreover have "store (put_bytes m pos ?l) (pos + 4) (ss ! i) = Some (put_bytes m pos (serialized (ss ! i)))"
    using mp by (simp add: store_some put_append serialized_def)
  ultimately show ?thesis
    using assms(2) row_span [OF assms(1,2)] columnar_slice [OF assms(1,2)] columnar_offset [of i ss] columnar_offset [of "Suc i" ss]
    by (simp add: serialize_def Let_def)
qed

lemma row_bytes_snoc: "row_bytes (css @ [ss]) i = row_bytes css i @ serialized (ss ! i)"
  by (simp add: row_bytes_def)

lemma stripes_apart:
  fixes i j x y R :: nat
  assumes "i * R + x = j * R + y" "x < R" "y < R"
  shows "i = j"
  using arg_cong [OF assms(1), of "\<lambda>z. z div R"] assms(2,3) by simp

lemma bytes_at_same_row: "bytes_at (put_bytes m (a + n) bs) a (n + length bs) = bytes_at m a n @ bs"
proof -
  have "bytes_at (put_bytes m (a + n) bs) a n = bytes_at m a n"
    by (rule bytes_at_cong) (simp add: put_bytes_def)
  moreover have "bytes_at (put_bytes m (a + n) bs) (a + n) (length bs) = bs"
    by (rule nth_equalityI) (simp_all add: bytes_at_def put_bytes_def)
  ultimately show ?thesis using bytes_at_append [OF refl, of _ a n "length bs"] by metis
qed

lemma written_same:
  assumes "written dst R m sizes css i" "i < length sizes" "R < 2 ^ 32"
    and "length (row_bytes (css @ [ss]) i) \<le> R"
  shows "written dst R (put_bytes m (dst + i * R + unat (sizes ! i)) (serialized (ss ! i)))
           (sizes[i := sizes ! i + (4 + of_nat (length (ss ! i)))]) (css @ [ss]) i"
proof -
  let ?n = "length (row_bytes css i)" and ?l = "length (ss ! i)"
  have n: "unat (sizes ! i) = ?n" "bytes_at m (dst + i * R) ?n = row_bytes css i" using assms(1) by (simp_all add: written_def)
  have l: "?n + (4 + ?l) \<le> R" using assms(4) by (simp add: row_bytes_snoc)
  have "sizes ! i + (4 + of_nat ?l) = of_nat (?n + (4 + ?l))" using arg_cong [OF n(1), of "of_nat :: nat \<Rightarrow> u32"] by simp
  then have "unat (sizes ! i + (4 + of_nat ?l)) = ?n + (4 + ?l)" using l assms(3) by (simp only: unat_of_nat_eq32)
  then show ?thesis
    using l n bytes_at_same_row [of m "dst + i * R" ?n "serialized (ss ! i)"] assms(2)
    by (simp add: written_def row_bytes_snoc)
qed

lemma written_other:
  assumes "written dst R m sizes ds j" "i \<noteq> j" "off + length bs \<le> R"
  shows "written dst R (put_bytes m (dst + i * R + off) bs) (sizes[i := v]) ds j"
proof -
  have "bytes_at (put_bytes m (dst + i * R + off) bs) (dst + j * R) (length (row_bytes ds j)) = bytes_at m (dst + j * R) (length (row_bytes ds j))"
  proof (rule bytes_at_cong)
    fix x assume x: "dst + j * R \<le> x" "x < dst + j * R + length (row_bytes ds j)"
    have "\<not> (dst + i * R + off \<le> x \<and> x < dst + i * R + off + length bs)"
    proof
      assume *: "dst + i * R + off \<le> x \<and> x < dst + i * R + off + length bs"
      have "i * R + (x - (dst + i * R)) = j * R + (x - (dst + j * R))" using x * by linarith
      moreover have "x - (dst + i * R) < R" using * assms(3) by linarith
      moreover have "x - (dst + j * R) < R" using x assms(1) unfolding written_def by linarith
      ultimately show False using stripes_apart assms(2) by blast
    qed
    then show "put_bytes m (dst + i * R + off) bs x = m x" by (auto simp: put_bytes_def)
  qed
  then show ?thesis using assms(1,2) by (simp add: written_def)
qed

lemma rows_written:
  assumes "fits ss" "n \<le> length ss" "n \<le> 4096" "\<And>j. j < n \<Longrightarrow> length (row_bytes (css @ [ss]) j) \<le> unat r"
  shows "i + k = n \<Longrightarrow> mapped m dst (4096 * unat r) \<Longrightarrow> length sizes = 4096 \<Longrightarrow>
    (\<And>j. j < i \<Longrightarrow> written dst (unat r) m sizes (css @ [ss]) j) \<Longrightarrow> (\<And>j. i \<le> j \<Longrightarrow> j < n \<Longrightarrow> written dst (unat r) m sizes css j) \<Longrightarrow>
    \<exists>m' sizes'. serialize_rows (columnar ss) dst r i k m sizes = Some (m', sizes') \<and> mapped m' dst (4096 * unat r) \<and>
      length sizes' = 4096 \<and> (\<forall>j<n. written dst (unat r) m' sizes' (css @ [ss]) j)"
proof (induction k arbitrary: i m sizes)
  case (Suc k)
  let ?R = "unat r" and ?s = "ss ! i"
  have i: "i < n" "i < 4096" "i < length ss" using Suc.prems(1) assms(2,3) by simp_all
  have w: "written dst ?R m sizes css i" using Suc.prems(5) i(1) by simp
  have l: "unat (sizes ! i) + (4 + length ?s) \<le> ?R" using w assms(4) [OF i(1)] by (simp add: written_def row_bytes_snoc)
  have R: "?R < 2 ^ 32" by (rule order_less_le_trans [OF unsigned_less]) simp
  have "Suc i * ?R \<le> 4096 * ?R" using i(2) by (intro mult_le_mono1) simp
  then have "i * ?R + (unat (sizes ! i) + (4 + length ?s)) \<le> 4096 * ?R" using l unfolding mult_Suc by linarith
  then have mp: "mapped m (dst + i * ?R + unat (sizes ! i)) (4 + length ?s)"
    using Suc.prems(2) by (elim mapped_part) simp_all
  let ?m = "put_bytes m (dst + i * ?R + unat (sizes ! i)) (serialized ?s)"
    and ?z = "sizes[i := sizes ! i + (4 + of_nat (length ?s))]"
  have "written dst ?R ?m ?z (css @ [ss]) j" if "j < Suc i" for j
    using written_same [OF w, of ss] written_other [OF Suc.prems(4) [of j], of i "unat (sizes ! i)" "serialized ?s"] that i Suc.prems(3)
      assms(4) [OF i(1)] l R by (cases "j = i") simp_all
  moreover have "written dst ?R ?m ?z css j" if "Suc i \<le> j" "j < n" for j
    using written_other [OF Suc.prems(5) [of j], of i "unat (sizes ! i)" "serialized ?s"] that l by simp
  ultimately have "\<exists>m' sizes'. serialize_rows (columnar ss) dst r (Suc i) k ?m ?z = Some (m', sizes') \<and> mapped m' dst (4096 * ?R) \<and>
      length sizes' = 4096 \<and> (\<forall>j<n. written dst ?R m' sizes' (css @ [ss]) j)"
    using Suc.prems by (intro Suc.IH) simp_all
  then show ?case using serialize_columnar [OF assms(1) i(3) mp] i(2) Suc.prems(3) by (simp add: offset_at_def)
qed simp

lemma columns_written:
  assumes "n \<le> 4096" "\<And>j. j < n \<Longrightarrow> length (row_bytes (ds @ css) j) \<le> unat r" "list_all (\<lambda>ss. fits ss \<and> n \<le> length ss) css"
    and "mapped m dst (4096 * unat r)" "length sizes = 4096" "\<And>j. j < n \<Longrightarrow> written dst (unat r) m sizes ds j"
  shows "\<exists>m' sizes'. serialize_columns (map columnar css) dst n r m sizes = Some (m', sizes') \<and>
    length sizes' = 4096 \<and> (\<forall>j<n. written dst (unat r) m' sizes' (ds @ css) j)"
  using assms(2-)
proof (induction css arbitrary: ds m sizes)
  case (Cons ss css)
  have "length (row_bytes (ds @ [ss]) j) \<le> unat r" if "j < n" for j
    using Cons.prems(1) [OF that] by (simp add: row_bytes_def)
  then obtain m' sizes' where s: "serialize_rows (columnar ss) dst r 0 n m sizes = Some (m', sizes')" "mapped m' dst (4096 * unat r)"
    "length sizes' = 4096" "\<forall>j<n. written dst (unat r) m' sizes' (ds @ [ss]) j"
    using rows_written [of ss n ds r 0 n m dst sizes] assms(1) Cons.prems by auto
  then show ?case using Cons.IH [of "ds @ [ss]" m' sizes'] Cons.prems by (simp add: serialize_batch_def)
qed simp

lemma fold_max_ge: "x \<in> set xs \<Longrightarrow> x \<le> fold max xs (k :: nat)"
  unfolding Max.set_eq_fold [symmetric] by (rule Max_ge) simp_all

lemma row_length: "s \<in> set ss \<Longrightarrow> length s \<le> length (concat ss)"
  by (induction ss) auto

lemma serialized_widest: "i < length ss \<Longrightarrow> length (serialized (ss ! i)) \<le> widest ss"
  using fold_max_ge [of "length (ss ! i)" "map length ss" 0] by (simp add: widest_def)

lemma row_widest: "list_all (\<lambda>ss. i < length ss) css \<Longrightarrow> length (row_bytes css i) \<le> sum_list (map widest css)"
  by (induction css) (simp_all add: row_bytes_def add_mono serialized_widest del: length_serialized)

lemma max_serialize_columnar:
  assumes "list_all fits css" "unat mx + sum_list (map widest css) < 2 ^ 32"
  shows "\<exists>r. max_serialize_loop (map columnar css) mx = Some r \<and> unat r = unat mx + sum_list (map widest css)"
  using assms
proof (induction css arbitrary: mx)
  case (Cons ss css)
  let ?l = "max_size_loop (row_offsets 0 ss) 0"
  have "list_all (\<lambda>s. length s < 2 ^ 32) ss"
    using Cons.prems(1) row_length [of _ ss] by (auto simp: list_all_iff fits_def intro: le_less_trans)
  from max_loop_columnar [OF this, of 0 0] have l: "unat ?l + 4 = widest ss" by (simp add: widest_def)
  then have "mx + (?l + 4) = of_nat (unat mx + widest ss)" by (simp flip: l)
  then have u: "unat (mx + (?l + 4)) = unat mx + widest ss" using Cons.prems(2) by (simp add: unat_of_nat_eq32 del: of_nat_add)
  then show ?case
    using Cons.IH [of "mx + (?l + 4)"] Cons.prems
    by (simp add: get_max_serialized_size_def columnar_def [of ss] binary_column_size_def fits_def guard_def add.assoc)
qed simp

lemma row_offsets_hd: "row_offsets k ss = k # tl (row_offsets k ss)"
  by (cases ss) simp_all

lemma horizontal_loop:
  assumes "list_all (\<lambda>ss. fits ss \<and> n \<le> length ss) css"
  shows "i + k = n \<Longrightarrow> length os = Suc n \<Longrightarrow> horizontal_rows (map columnar css) i k bs os =
    Some \<lparr>col_bytes = bs @ concat (map (row_of css) [i..<n]),
          col_offsets = take (Suc i) os @ tl (row_offsets (of_nat (length bs)) (map (row_of css) [i..<n]))\<rparr>"
proof (induction k arbitrary: i bs os)
  case (Suc k)
  let ?b = "bs @ row_of css i" and ?fs = "map (row_of css) [Suc i..<n]"
  have i: "i < n" using Suc.prems(1) by simp
  have "list_all (\<lambda>ss. fits ss \<and> i < length ss) css" using assms i by (auto simp: list_all_iff)
  then have "insert_row (map columnar css) (int i) bs = Some ?b" by (simp add: columnar_insert_row row_of_def)
  moreover have "take (Suc (Suc i)) (os[Suc i := x]) = take (Suc i) os @ [x]" for x
    using i Suc.prems(2) by (simp add: take_Suc_conv_app_nth)
  moreover have "[i..<n] = i # [Suc i..<n]" using i by (simp add: upt_conv_Cons)
  ultimately show ?case
    using Suc.IH [of "Suc i" "os[Suc i := of_nat (length ?b)]" ?b] Suc.prems i row_offsets_hd [of "of_nat (length ?b)" ?fs] by simp
qed simp

lemma slices_extend: "slices c i k acc = Some r \<Longrightarrow> \<exists>r'. r = acc @ r'"
proof (induction k arbitrary: i acc)
  case (Suc k)
  then obtain s where "slices c (Suc i) k (acc @ [s]) = Some r" by (auto simp: bind_eq_Some_conv)
  from Suc.IH [OF this] show ?case by auto
qed simp

lemma slice_string_length: "slice_string c (p, n) = Some s \<Longrightarrow> length s = n"
  by (auto simp: slice_string_def)

lemma to_vector_first:
  assumes "to_vector c = Some (r # rs)" "binary_column_size c = Suc k" "get_slice c 0 = Some sl"
  shows "slice_string c sl = Some r"
proof -
  obtain s where "slice_string c sl = Some s" "slices c 1 k [s] = Some (r # rs)"
    using assms by (auto simp: to_vector_def bind_eq_Some_conv)
  then show ?thesis using slices_extend by fastforce
qed

section \<open>Properties\<close>

text \<open>
  C34. A column gives back the strings that were appended to it, in their order, and the last
  slice is the last of them, as long as their bytes fit 32-bit offsets and their number an int.
\<close>
theorem column_round_trip:
  assumes "fits ss"
  shows "\<exists>c. append_all column_new ss = Some c \<and> to_vector c = Some ss \<and>
    (ss \<noteq> [] \<longrightarrow> Option.bind (get_last_slice c) (slice_string c) = Some (last ss))"
proof (intro exI conjI impI)
  show "append_all column_new ss = Some (columnar ss)"
    using append_all_columnar [of "[]" ss] by (simp add: columnar_def column_new_def)
  show "to_vector (columnar ss) = Some ss"
    using columnar_slices [OF assms, of 0 "length ss" "[]"] by (simp add: to_vector_def)
  assume "ss \<noteq> []"
  then have n: "length ss - 1 < length ss" "(of_nat (length ss) - 1 :: u32) = of_nat (length ss - 1)"
    by (simp_all add: of_nat_diff Suc_leI)
  have "signed_take_bit 31 (int (length ss - 1)) = int (length ss - 1)"
    using assms n(1) by (intro signed_take_bit_int_eq_self) (simp_all add: fits_def)
  then have "sint (of_nat (length ss - 1) :: u32) = int (length ss - 1)" by (simp add: signed_of_nat)
  then show "Option.bind (get_last_slice (columnar ss)) (slice_string (columnar ss)) = Some (last ss)"
    using columnar_get_slice [OF assms n(1)] columnar_slice [OF assms n(1)] \<open>ss \<noteq> []\<close>
    by (simp add: get_last_slice_def n(2) last_conv_nth)
qed

theorem column_round_trip_witness:
  "\<exists>c. append_all column_new [[0x61, 0x62], [], [0x63]] = Some c \<and> to_vector c = Some [[0x61, 0x62], [], [0x63]]"
  using column_round_trip [of "[[0x61, 0x62], [], [0x63]]"] by (auto simp: fits_def)



text \<open>
  C35. Horizontal concatenation returns a column of the joined rows if and only if the memory
  that make\_room gave to its offsets happened to start with zero: the first offset is never
  written.
\<close>
theorem concat_horizontally_rows:
  assumes "css \<noteq> []" "list_all (\<lambda>ss. fits ss \<and> length ss = n) css" "0 < n" "fits (map (row_of css) [0..<n])"
  shows "\<exists>c. concat_horizontally junk (map columnar css) = Some c \<and>
    (to_vector c = Some (map (row_of css) [0..<n]) \<longleftrightarrow> junk 0 = 0)"
proof -
  let ?rows = "map (row_of css) [0..<n]"
  let ?c = "\<lparr>col_bytes = concat ?rows, col_offsets = junk 0 # tl (row_offsets 0 ?rows)\<rparr>"
  obtain ss css' where css: "css = ss # css'" using assms(1) by (cases css) simp_all
  have "horizontal_rows (map columnar css) 0 n [] (make_room junk (Suc n)) = Some ?c"
    using horizontal_loop [of n css 0 n "make_room junk (Suc n)" "[]"] assms(2)
    by (simp add: make_room_def list_all_iff take_Suc hd_map del: upt_Suc)
  then have c: "concat_horizontally junk (map columnar css) = Some ?c"
    using assms(2) by (simp add: concat_horizontally_def css column_new_def)
  have "to_vector ?c = Some ?rows" if "junk 0 = 0"
  proof -
    have "?c = columnar ?rows" using that row_offsets_hd [of 0 ?rows] by (simp add: columnar_def)
    then show ?thesis using columnar_slices [OF assms(4), of 0 n "[]"] by (simp add: to_vector_def)
  qed
  moreover have "junk 0 = 0" if v: "to_vector ?c = Some ?rows"
  proof -
    obtain k where k: "n = Suc k" using assms(3) by (cases n) simp_all
    let ?r = "row_of css 0" and ?d = "of_nat (length (row_of css 0)) - junk 0"
    have rows: "?rows = ?r # map (row_of css) [Suc 0..<n]" using assms(3) by (simp add: upt_conv_Cons)
    have o: "tl (row_offsets 0 ?rows) ! 0 = of_nat (length ?r)" by (simp add: rows row_offsets_nth)
    have g: "get_slice ?c 0 = Some (unat (junk 0), unat ?d)" "binary_column_size ?c = Suc k"
      using o k by (simp_all add: get_slice_def offset_at_def binary_column_size_def)
    have "to_vector ?c = Some (?r # map (row_of css) [Suc 0..<n])" using v by (simp only: rows)
    from to_vector_first [OF this g(2,1)] have "length ?r = unat ?d" by (rule slice_string_length)
    from arg_cong [OF this, of "of_nat :: nat \<Rightarrow> u32"] have "of_nat (length ?r) = ?d" by (simp add: ucast_id)
    then show ?thesis by (simp add: eq_diff_eq)
  qed
  ultimately show ?thesis using c by blast
qed

theorem concat_horizontally_rows_witness:
  "\<exists>c. concat_horizontally (\<lambda>_. 7) (map columnar [[[0x61], [0x62]], [[0x63], []]]) = Some c \<and> to_vector c \<noteq> Some [[0x61, 0x63], [0x62]]"
proof -
  let ?css = "[[[0x61], [0x62]], [[0x63], []]] :: bytes list list"
  have r: "map (row_of ?css) [0..<2] = [[0x61, 0x63], [0x62]]" by code_simp
  have "list_all (\<lambda>ss. fits ss \<and> length ss = 2) ?css" "fits (map (row_of ?css) [0..<2])"
    unfolding r by (simp_all add: fits_def)
  then show ?thesis using concat_horizontally_rows [of ?css 2 "\<lambda>_. 7"] unfolding r by auto
qed

end
