(* ===== verification/StringCase.thy ===== *)
theory StringCase
  imports Vectors BinaryColumn
begin

unbundle bit_operations_syntax

text \<open>
  The case conversions of src/include/string\_functions.hh, on single strings and on columns.
  A buffer is the list of its bytes and a pointer into it an index.  std::toupper and
  std::tolower are those of the C locale.
\<close>

section \<open>Vector operations\<close>

definition set1 :: "byte \<Rightarrow> bytes" where
  "set1 b = replicate 16 b"

definition v_sub :: "bytes \<Rightarrow> bytes \<Rightarrow> bytes" where "v_sub x y = map2 (-) x y"

definition v_xor :: "bytes \<Rightarrow> bytes \<Rightarrow> bytes" where "v_xor x y = map2 (XOR) x y"

definition v_and :: "bytes \<Rightarrow> bytes \<Rightarrow> bytes" where "v_and x y = map2 (AND) x y"

text \<open>\_mm\_maskmoveu\_si128 stores the bytes whose mask byte has its top bit set.\<close>

definition maskmove :: "bytes \<Rightarrow> bytes \<Rightarrow> bytes \<Rightarrow> bytes" where
  "maskmove v mk old = map2 (\<lambda>(b, k) d. if bit k 7 then b else d) (zip v mk) old"

section \<open>Single strings\<close>

definition toupper :: "byte \<Rightarrow> byte" where
  "toupper c = (if 0x61 \<le> c \<and> c \<le> 0x7a then c - 32 else c)"

definition tolower :: "byte \<Rightarrow> byte" where
  "tolower c = (if 0x41 \<le> c \<and> c \<le> 0x5a then c + 32 else c)"

text \<open>char is signed.\<close>

definition case_byte :: "byte \<Rightarrow> byte \<Rightarrow> byte \<Rightarrow> byte" where
  "case_byte c0 c1 c = (if sint c0 \<le> sint c \<and> sint c \<le> sint c1 then c XOR 32 else c)"

definition upper_old :: "bytes \<Rightarrow> bytes" where "upper_old s = map toupper s"

definition lower_old :: "bytes \<Rightarrow> bytes" where "lower_old s = map tolower s"

definition lower_old2 :: "bytes \<Rightarrow> bytes" where "lower_old2 s = map (case_byte 0x41 0x5a) s"

definition upper_old2 :: "bytes \<Rightarrow> bytes" where "upper_old2 s = map (case_byte 0x61 0x7a) s"

definition lower_dummy :: "bytes \<Rightarrow> bytes" where "lower_dummy s = map (\<lambda>c. c) s"

definition lower_dummy2 :: "bytes \<Rightarrow> bytes" where "lower_dummy2 s = map (drop_bit 1) s"

definition lower_dummy3 :: "bytes \<Rightarrow> bytes" where "lower_dummy3 s = s"

text \<open>
  The loop over blocks of sixteen bytes in place, with the test of the source, p > sse2\_end,
  and its result: where p stopped and the buffer of n bytes.
\<close>

definition sse2_end :: "nat \<Rightarrow> nat" where
  "sse2_end n = n - n mod 16"

function sse_loop :: "(bytes \<Rightarrow> bytes) \<Rightarrow> nat \<Rightarrow> nat \<Rightarrow> nat \<Rightarrow> bytes \<Rightarrow> (nat \<times> bytes) option" where
  "sse_loop body e n p buf =
     (if e < p
      then if p + 16 \<le> n
        then sse_loop body e n (p + 16) (take p buf @ body (take 16 (drop p buf)) @ drop (p + 16) buf)
        else None
      else Some (p, buf))"
  by pat_completeness auto
termination by (relation "measure (\<lambda>(body, e, n, p, buf). n - p)") auto

declare sse_loop.simps [simp del]

definition case_mask :: "byte \<Rightarrow> byte \<Rightarrow> bytes \<Rightarrow> bytes" where
  "case_mask c0 c1 b = v_and (cmpgt b (set1 (c0 - 1))) (cmpgt (set1 (c1 + 1)) b)"

definition sub_block :: "byte \<Rightarrow> byte \<Rightarrow> bytes \<Rightarrow> bytes" where
  "sub_block c0 c1 b = maskmove (v_sub b (set1 32)) (case_mask c0 c1 b) b"

definition xor_block :: "byte \<Rightarrow> byte \<Rightarrow> bytes \<Rightarrow> bytes" where
  "xor_block c0 c1 b = maskmove (v_xor b (set1 32)) (case_mask c0 c1 b) b"

definition upper_new :: "bytes \<Rightarrow> bytes option" where
  "upper_new s = do {
     (p, r) \<leftarrow> sse_loop (sub_block 0x61 0x7a) (sse2_end (length s)) (length s) 0 s;
     Some (take p r @ map (case_byte 0x61 0x7a) (drop p r)) }"

definition lower_new :: "bytes \<Rightarrow> bytes option" where
  "lower_new s = do {
     (p, r) \<leftarrow> sse_loop (xor_block 0x41 0x5a) (sse2_end (length s)) (length s) 0 s;
     Some (take p r @ map (case_byte 0x41 0x5a) (drop p r)) }"

section \<open>Columns\<close>

fun append_rows :: "(bytes \<Rightarrow> bytes option) \<Rightarrow> column \<Rightarrow> nat \<Rightarrow> nat \<Rightarrow> column \<Rightarrow> column option" where
  "append_rows f src i 0 dst = Some dst"
| "append_rows f src i (Suc k) dst = do {
     sl \<leftarrow> get_slice src (int i);
     s \<leftarrow> slice_string src sl;
     ret \<leftarrow> f s;
     dst \<leftarrow> column_append dst ret;
     append_rows f src (Suc i) k dst }"

definition upper_vector_old :: "column \<Rightarrow> column \<Rightarrow> column option" where
  "upper_vector_old src dst = append_rows (\<lambda>s. Some (upper_old s)) src 0 (binary_column_size src) dst"

definition lower_vector_old :: "column \<Rightarrow> column \<Rightarrow> column option" where
  "lower_vector_old src dst = append_rows (\<lambda>s. Some (lower_old s)) src 0 (binary_column_size src) dst"

definition upper_copy_3 :: "bytes \<Rightarrow> bytes option" where
  "upper_copy_3 s = do {
     (p, r) \<leftarrow> sse_loop (xor_block 0x61 0x7a) (sse2_end (length s)) (length s) 0 s;
     Some (take p r @ map toupper (drop p r)) }"

definition upper_vector_copy_3_times :: "column \<Rightarrow> column \<Rightarrow> column option" where
  "upper_vector_copy_3_times src dst = append_rows upper_copy_3 src 0 (binary_column_size src) dst"

text \<open>
  The loop of copy\_1\_times reads blocks of the slice at p and writes them at q of the bytes
  of dst; q lives across the rows, and std::transform does not advance it.
\<close>

function sse_copy_loop :: "(bytes \<Rightarrow> bytes \<Rightarrow> bytes) \<Rightarrow> bytes \<Rightarrow> nat \<Rightarrow> nat \<Rightarrow> nat \<Rightarrow> bytes \<Rightarrow> (nat \<times> nat \<times> bytes) option" where
  "sse_copy_loop body s e p q buf =
     (if e < p
      then if p + 16 \<le> length s \<and> q + 16 \<le> length buf
        then sse_copy_loop body s e (p + 16) (q + 16)
               (take q buf @ body (take 16 (drop p s)) (take 16 (drop q buf)) @ drop (q + 16) buf)
        else None
      else Some (p, q, buf))"
  by pat_completeness auto
termination by (relation "measure (\<lambda>(body, s, e, p, q, buf). length s - p)") auto

declare sse_copy_loop.simps [simp del]

definition write_at :: "bytes \<Rightarrow> nat \<Rightarrow> bytes \<Rightarrow> bytes option" where
  "write_at buf q bs =
     (if q + length bs \<le> length buf then Some (take q buf @ bs @ drop (q + length bs) buf) else None)"

definition copy_1_block :: "bytes \<Rightarrow> bytes \<Rightarrow> bytes" where
  "copy_1_block b old =
     maskmove b (v_xor (case_mask 0x61 0x7a b) (set1 0xff))
       (maskmove (v_xor b (set1 32)) (case_mask 0x61 0x7a b) old)"

fun copy_1_rows :: "column \<Rightarrow> nat \<Rightarrow> nat \<Rightarrow> nat \<Rightarrow> column \<Rightarrow> column option" where
  "copy_1_rows src i 0 q dst = Some dst"
| "copy_1_rows src i (Suc k) q dst = do {
     sl \<leftarrow> get_slice src (int i);
     s \<leftarrow> slice_string src sl;
     (p, q, buf) \<leftarrow> sse_copy_loop copy_1_block s (sse2_end (length s)) 0 q (col_bytes dst);
     buf \<leftarrow> write_at buf q (map toupper (drop p s));
     copy_1_rows src (Suc i) k q
       \<lparr>col_bytes = buf, col_offsets = col_offsets dst @ [of_nat (snd sl)]\<rparr> }"

definition upper_vector_copy_1_times :: "column \<Rightarrow> column \<Rightarrow> column option" where
  "upper_vector_copy_1_times src dst = copy_1_rows src 0 (binary_column_size src) 0 dst"

text \<open>copy\_2\_times appends a slice and converts it where it is then.\<close>

fun copy_2_rows :: "column \<Rightarrow> nat \<Rightarrow> nat \<Rightarrow> column \<Rightarrow> column option" where
  "copy_2_rows src i 0 dst = Some dst"
| "copy_2_rows src i (Suc k) dst = do {
     sl \<leftarrow> get_slice src (int i);
     s \<leftarrow> slice_string src sl;
     dst \<leftarrow> column_append dst s;
     sl2 \<leftarrow> get_last_slice dst;
     s2 \<leftarrow> slice_string dst sl2;
     (p, r) \<leftarrow> sse_loop (xor_block 0x61 0x7a) (sse2_end (snd sl)) (length s2) 0 s2;
     buf \<leftarrow> write_at (col_bytes dst) (fst sl2) (take p r @ map (case_byte 0x61 0x7a) (drop p r));
     copy_2_rows src (Suc i) k (dst\<lparr>col_bytes := buf\<rparr>) }"

definition upper_vector_copy_2_times :: "column \<Rightarrow> column \<Rightarrow> column option" where
  "upper_vector_copy_2_times src dst = copy_2_rows src 0 (binary_column_size src) dst"

text \<open>The bytes of a column are unsigned, the characters of the range are positive.\<close>

definition case_ubyte :: "byte \<Rightarrow> byte \<Rightarrow> byte \<Rightarrow> byte" where
  "case_ubyte c0 c1 c = (if sint c0 \<le> uint c \<and> uint c \<le> sint c1 then c XOR 32 else c)"

definition case_vector_new1 :: "byte \<Rightarrow> byte \<Rightarrow> column \<Rightarrow> column \<Rightarrow> column option" where
  "case_vector_new1 c0 c1 src dst = (
     let dst = dst\<lparr>col_offsets := col_offsets src, col_bytes := col_bytes src\<rparr>; n = length (col_bytes dst)
     in do {
       (p, r) \<leftarrow> sse_loop (xor_block c0 c1) (sse2_end n) n 0 (col_bytes dst);
       Some (dst\<lparr>col_bytes := take p r @ map (case_ubyte c0 c1) (drop p r)\<rparr>) })"

text \<open>resize keeps a prefix and fills with zeros; a raw vector leaves what the memory held.\<close>

definition resize :: "bytes \<Rightarrow> nat \<Rightarrow> bytes" where
  "resize bs n = take n bs @ replicate (n - length bs) 0"

definition new2_block :: "byte \<Rightarrow> byte \<Rightarrow> bytes \<Rightarrow> bytes \<Rightarrow> bytes" where
  "new2_block c0 c1 b old = v_xor b (v_and (case_mask c0 c1 b) (set1 32))"

definition case_vector_new2 :: "(nat \<Rightarrow> byte) \<Rightarrow> bool \<Rightarrow> byte \<Rightarrow> byte \<Rightarrow> column \<Rightarrow> column \<Rightarrow> column option" where
  "case_vector_new2 junk use_raw c0 c1 src dst = (
     let n = length (col_bytes src);
         buffer = (if use_raw then make_room junk n else resize (col_bytes dst) n)
     in do {
       (p, q, buffer) \<leftarrow> sse_copy_loop (new2_block c0 c1) (col_bytes src) (sse2_end n) 0 0 buffer;
       buffer \<leftarrow> write_at buffer q (map (case_byte c0 c1) (drop p (col_bytes src)));
       Some (dst\<lparr>col_offsets := col_offsets src, col_bytes := buffer\<rparr>) })"

definition lower_vector_new1 :: "column \<Rightarrow> column \<Rightarrow> column option" where
  "lower_vector_new1 = case_vector_new1 0x41 0x5a"

definition upper_vector_new1 :: "column \<Rightarrow> column \<Rightarrow> column option" where
  "upper_vector_new1 = case_vector_new1 0x61 0x7a"

definition lower_vector_new2 :: "(nat \<Rightarrow> byte) \<Rightarrow> bool \<Rightarrow> column \<Rightarrow> column \<Rightarrow> column option" where
  "lower_vector_new2 junk use_raw = case_vector_new2 junk use_raw 0x41 0x5a"

definition upper_vector_new2 :: "(nat \<Rightarrow> byte) \<Rightarrow> bool \<Rightarrow> column \<Rightarrow> column \<Rightarrow> column option" where
  "upper_vector_new2 junk use_raw = case_vector_new2 junk use_raw 0x61 0x7a"

section \<open>Lemmas\<close>

lemma letter_xor:
  "list_all (\<lambda>n. (of_nat n :: byte) XOR 32 = of_nat n - 32) [97..<123]"
  "list_all (\<lambda>n. (of_nat n :: byte) XOR 32 = of_nat n + 32) [65..<91]"
  by code_simp+

lemma upper_letter:
  assumes "97 \<le> unat c" "unat c \<le> 122"
  shows "c XOR 32 = c - (32 :: byte)"
proof -
  have "unat c \<in> set [97..<123]" unfolding set_upt using assms by simp
  then have "(of_nat (unat c) :: byte) XOR 32 = of_nat (unat c) - 32" using letter_xor(1) unfolding list_all_iff by blast
  then show ?thesis by simp
qed

lemma lower_letter:
  assumes "65 \<le> unat c" "unat c \<le> 90"
  shows "c XOR 32 = c + (32 :: byte)"
proof -
  have "unat c \<in> set [65..<91]" unfolding set_upt using assms by simp
  then have "(of_nat (unat c) :: byte) XOR 32 = of_nat (unat c) + 32" using letter_xor(2) unfolding list_all_iff by blast
  then show ?thesis by simp
qed

lemma letter_range:
  assumes "unat c0 < 128" "unat c1 < 128"
  shows "sint c0 \<le> sint c \<and> sint c \<le> sint c1 \<longleftrightarrow> c0 \<le> c \<and> c \<le> (c1 :: byte)"
    and "sint c0 \<le> uint c \<and> uint c \<le> sint c1 \<longleftrightarrow> c0 \<le> c \<and> c \<le> c1"
proof -
  have u: "unat c < 256" "uint c = int (unat c)" using unsigned_less [of c, where 'a = nat] by simp_all
  show "sint c0 \<le> sint c \<and> sint c \<le> sint c1 \<longleftrightarrow> c0 \<le> c \<and> c \<le> c1"
    unfolding sint_byte word_le_nat_alt using assms u(1) by (cases "unat c < 128") (simp_all only: if_True if_False of_nat_le_iff, linarith)
  show "sint c0 \<le> uint c \<and> uint c \<le> sint c1 \<longleftrightarrow> c0 \<le> c \<and> c \<le> c1"
    unfolding sint_byte word_le_nat_alt u(2) using assms by (simp only: if_True of_nat_le_iff)
qed

lemma case_byte_upper: "case_byte 0x61 0x7a = toupper" "case_ubyte 0x61 0x7a = toupper"
  using letter_range [of "0x61" "0x7a"] upper_letter
  by (auto simp: case_byte_def case_ubyte_def toupper_def word_le_nat_alt fun_eq_iff)

lemma case_byte_lower: "case_byte 0x41 0x5a = tolower" "case_ubyte 0x41 0x5a = tolower"
  using letter_range [of "0x41" "0x5a"] lower_letter
  by (auto simp: case_byte_def case_ubyte_def tolower_def word_le_nat_alt fun_eq_iff)

lemmas case_bytes = case_byte_upper case_byte_lower

lemma sse_loop_idle [simp]: "sse_loop body (sse2_end n) n' 0 buf = Some (0, buf)"
  by (simp add: sse_loop.simps)

lemma sse_copy_loop_idle [simp]: "sse_copy_loop body s (sse2_end n) 0 q buf = Some (0, q, buf)"
  by (simp add: sse_copy_loop.simps)

text \<open>What one pass of a vector loop would do to a block.\<close>

lemma blocks_convert:
  assumes "length b = 16" "length old = 16" "1 \<le> unat c0" "unat c0 \<le> 126" "unat c1 \<le> 126"
  shows "xor_block c0 c1 b = map (case_byte c0 c1) b" "new2_block c0 c1 b old = map (case_byte c0 c1) b"
proof -
  have u: "unat (c0 - 1) = unat c0 - 1" "unat (c1 + 1) = unat c1 + 1"
    using assms(3-5) by (simp_all add: unat_sub_if_size unat_plus_if_size word_size)
  then have "sint (c0 - 1) = sint c0 - 1" "sint (c1 + 1) = sint c1 + 1"
    using assms(3-5) unfolding sint_byte by (auto simp: of_nat_diff)
  then have *: "sint (c0 - 1) < sint c \<longleftrightarrow> sint c0 \<le> sint c" "sint c < sint (c1 + 1) \<longleftrightarrow> sint c \<le> sint c1" for c
    by linarith+
  show "xor_block c0 c1 b = map (case_byte c0 c1) b" "new2_block c0 c1 b old = map (case_byte c0 c1) b"
    using assms(1) by (auto intro!: nth_equalityI
      simp: xor_block_def new2_block_def maskmove_def case_mask_def v_and_def v_xor_def cmpgt_def set1_def case_byte_def * byte_negative)
qed

lemma append_rows_columnar:
  assumes "fits ss" "list_all2 (\<lambda>s u. f s = Some u) ss us"
  shows "i + k = length ss \<Longrightarrow> append_rows f (columnar ss) i k (columnar ds) = Some (columnar (ds @ drop i us))"
proof (induction k arbitrary: i ds)
  case 0
  then show ?case using list_all2_lengthD [OF assms(2)] by simp
next
  case (Suc k)
  then have i: "i < length ss" "i < length us" using list_all2_lengthD [OF assms(2)] by simp_all
  then have "drop i us = us ! i # drop (Suc i) us" by (simp add: Cons_nth_drop_Suc)
  then show ?case
    using Suc.IH [of "Suc i" "ds @ [us ! i]"] Suc.prems columnar_get_slice [OF assms(1) i(1)] columnar_slice [OF assms(1) i(1)]
      list_all2_nthD [OF assms(2) i(1)]
    by (simp add: columnar_append)
qed

lemma columnar_last_slice:
  assumes "fits (ss @ [s])"
  shows "get_last_slice (columnar (ss @ [s])) = Some (length (concat ss), length s)"
proof -
  have "signed_take_bit 31 (int (length ss)) = int (length ss)"
    using assms by (intro signed_take_bit_int_eq_self) (simp_all add: fits_def)
  then have "sint (of_nat (length ss) :: u32) = int (length ss)" by (simp add: signed_of_nat)
  then show ?thesis
    using columnar_get_slice [OF assms, of "length ss"] by (simp add: get_last_slice_def)
qed

lemma row_offsets_cong: "map length ss = map length us \<Longrightarrow> row_offsets k ss = row_offsets k us"
proof (induction ss arbitrary: us k)
  case (Cons s ss)
  then obtain u us' where "us = u # us'" "length s = length u" "map length ss = map length us'" by (auto simp: Cons_eq_map_conv)
  then show ?case using Cons.IH by simp
qed simp

lemma copy_2_columnar:
  assumes "fits ss"
  shows "i + k = length ss \<Longrightarrow> fits (ds @ drop i ss) \<Longrightarrow>
    copy_2_rows (columnar ss) i k (columnar ds) = Some (columnar (ds @ map upper_old (drop i ss)))"
proof (induction k arbitrary: i ds)
  case (Suc k)
  let ?s = "ss ! i" and ?u = "upper_old (ss ! i)"
  from Suc have i: "i < length ss" by simp
  then have d: "drop i ss = ?s # drop (Suc i) ss" by (simp add: Cons_nth_drop_Suc)
  have f: "fits (ds @ [?s])" "fits ((ds @ [?u]) @ drop (Suc i) ss)"
    using Suc.prems(2) by (simp_all add: fits_def d upper_old_def)
  have "slice_string (columnar (ds @ [?s])) (length (concat ds), length ?s) = Some ?s"
    using columnar_slice [OF f(1), of "length ds"] by simp
  moreover have "write_at (concat (ds @ [?s])) (length (concat ds)) ?u = Some (concat (ds @ [?u]))"
    by (simp add: write_at_def upper_old_def)
  moreover have "row_offsets 0 (ds @ [?s]) = row_offsets 0 (ds @ [?u])"
    by (rule row_offsets_cong) (simp add: upper_old_def)
  ultimately show ?case
    using Suc.IH [of "Suc i" "ds @ [?u]"] Suc.prems f(2) columnar_get_slice [OF assms i] columnar_slice [OF assms i] columnar_last_slice [OF f(1)]
    by (simp add: d columnar_append case_bytes flip: upper_old_def) (simp add: columnar_def)
qed simp

lemma concat_rows: "concat (map (map f) ss) = map f (concat ss)"
  by (simp add: map_concat)

lemma new1_columnar:
  "case_vector_new1 c0 c1 (columnar ss) dst = Some (columnar (map (map (case_ubyte c0 c1)) ss))"
  using row_offsets_cong [of "map (map (case_ubyte c0 c1)) ss" ss 0]
  by (simp add: case_vector_new1_def columnar_def map_concat comp_def)

lemma write_all: "length buf = length bs \<Longrightarrow> write_at buf 0 bs = Some bs"
  by (simp add: write_at_def)

lemma new2_columnar:
  "case_vector_new2 junk use_raw c0 c1 (columnar ss) dst = Some (columnar (map (map (case_byte c0 c1)) ss))"
proof -
  let ?n = "length (concat ss)"
  have "length (if use_raw then make_room junk ?n else resize (col_bytes dst) ?n) = length (map (case_byte c0 c1) (concat ss))"
    by (auto simp: make_room_def resize_def min_def)
  from write_all [OF this] show ?thesis
    using row_offsets_cong [of "map (map (case_byte c0 c1)) ss" ss 0]
    by (simp add: case_vector_new2_def columnar_def concat_rows comp_def Let_def)
qed

section \<open>Properties\<close>

text \<open>
  The conversions with a test of the range and an exclusive or, and those with vector
  instructions, are std::toupper and std::tolower of every byte, on every string.
\<close>
theorem case_strings_agree:
  "upper_old2 s = upper_old s \<and> lower_old2 s = lower_old s \<and> upper_new s = Some (upper_old s) \<and> lower_new s = Some (lower_old s)"
  by (simp add: upper_old2_def upper_old_def lower_old2_def lower_old_def upper_new_def lower_new_def case_bytes)

text \<open>
  C38. The conversions of a column: the variants that append give the converted rows after those
  dst had, the variants that copy the bytes as a whole give the converted rows and replace dst,
  whatever it or the raw buffer held.
\<close>
theorem case_columns_agree:
  assumes "fits ss" "fits (ds @ ss)"
  shows "upper_vector_old (columnar ss) (columnar ds) = Some (columnar (ds @ map upper_old ss)) \<and>
    lower_vector_old (columnar ss) (columnar ds) = Some (columnar (ds @ map lower_old ss)) \<and>
    upper_vector_copy_3_times (columnar ss) (columnar ds) = Some (columnar (ds @ map upper_old ss)) \<and>
    upper_vector_copy_2_times (columnar ss) (columnar ds) = Some (columnar (ds @ map upper_old ss)) \<and>
    upper_vector_new1 (columnar ss) dst = Some (columnar (map upper_old ss)) \<and>
    lower_vector_new1 (columnar ss) dst = Some (columnar (map lower_old ss)) \<and>
    upper_vector_new2 junk use_raw (columnar ss) dst = Some (columnar (map upper_old ss)) \<and>
    lower_vector_new2 junk use_raw (columnar ss) dst = Some (columnar (map lower_old ss))"
proof -
  have "upper_copy_3 s = Some (upper_old s)" for s by (simp add: upper_copy_3_def upper_old_def)
  then have "list_all2 (\<lambda>s u. upper_copy_3 s = Some u) ss (map upper_old ss)"
    "list_all2 (\<lambda>s u. Some (upper_old s) = Some u) ss (map upper_old ss)" "list_all2 (\<lambda>s u. Some (lower_old s) = Some u) ss (map lower_old ss)"
    by (simp_all add: list_all2_conv_all_nth)
  then have "upper_vector_old (columnar ss) (columnar ds) = Some (columnar (ds @ map upper_old ss))"
    "lower_vector_old (columnar ss) (columnar ds) = Some (columnar (ds @ map lower_old ss))"
    "upper_vector_copy_3_times (columnar ss) (columnar ds) = Some (columnar (ds @ map upper_old ss))"
    using append_rows_columnar [OF assms(1), where i = 0 and k = "length ss" and ds = ds]
    by (simp_all add: upper_vector_old_def lower_vector_old_def upper_vector_copy_3_times_def)
  moreover have "upper_vector_copy_2_times (columnar ss) (columnar ds) = Some (columnar (ds @ map upper_old ss))"
    using copy_2_columnar [OF assms(1), of 0 "length ss" ds] assms(2) by (simp add: upper_vector_copy_2_times_def)
  ultimately show ?thesis
    by (simp add: upper_vector_new1_def lower_vector_new1_def upper_vector_new2_def lower_vector_new2_def
      new1_columnar new2_columnar case_bytes upper_old_def [abs_def] lower_old_def [abs_def])
qed

theorem case_columns_agree_witness:
  "upper_vector_copy_2_times (columnar [[0x61, 0x31], [0x7a]]) (columnar []) = Some (columnar [[0x41, 0x31], [0x5a]])"
  using case_columns_agree [of "[[0x61, 0x31], [0x7a]]" "[]"] by (simp add: fits_def upper_old_def toupper_def)

text \<open>
  upper\_vector\_copy\_1\_times writes every row to the same place and pushes the size of a
  row where an offset belongs: after two rows the bytes start with the second one.
\<close>
theorem copy_1_times_overwrites:
  assumes "fits [s, t]" "length s \<le> length (col_bytes dst)" "length t \<le> length (col_bytes dst)"
  shows "\<exists>c. upper_vector_copy_1_times (columnar [s, t]) dst = Some c \<and> take (length t) (col_bytes c) = upper_old t \<and>
    col_offsets c = col_offsets dst @ [of_nat (length s), of_nat (length t)]"
proof -
  have "get_slice (columnar [s, t]) 0 = Some (0, length s)" "get_slice (columnar [s, t]) 1 = Some (length s, length t)"
    "slice_string (columnar [s, t]) (0, length s) = Some s" "slice_string (columnar [s, t]) (length s, length t) = Some t"
    using columnar_get_slice [OF assms(1), of 0] columnar_get_slice [OF assms(1), of 1]
      columnar_slice [OF assms(1), of 0] columnar_slice [OF assms(1), of 1] by simp_all
  then show ?thesis
    using assms(2,3) by (simp add: upper_vector_copy_1_times_def numeral_2_eq_2 write_at_def upper_old_def)
qed

theorem copy_1_times_overwrites_witness:
  "\<exists>c. upper_vector_copy_1_times (columnar [[0x61, 0x62], [0x63, 0x64]]) \<lparr>col_bytes = replicate 4 0, col_offsets = [0]\<rparr> = Some c \<and>
     take (Suc (Suc 0)) (col_bytes c) = [0x43, 0x44] \<and> col_offsets c = [0, 2, 2]"
  using copy_1_times_overwrites [of "[0x61, 0x62]" "[0x63, 0x64]" "\<lparr>col_bytes = replicate 4 0, col_offsets = [0]\<rparr>"]
  by (simp add: fits_def upper_old_def toupper_def)

end
