(* ===== verification/Utf8Length.thy ===== *)
theory Utf8Length
  imports RawMemory ByteOrder Vectors Reverse
begin

unbundle bit_operations_syntax

text \<open>
  Lengths, validation and generation of UTF-8 strings in src/include/string\_functions.hh, with
  the vector branches of a build for AVX2.  A std::string is the list of its bytes, except
  where the code computes with its address.
\<close>

section \<open>Sizes of characters\<close>

text \<open>The header has a table of its own, written out again, and a way to read it.\<close>

definition UTF8_BYTE_LENGTH_TABLE1 :: "nat list" where
  "UTF8_BYTE_LENGTH_TABLE1 =
     replicate 128 1 @ replicate 64 1 @ replicate 32 2 @ replicate 16 3 @ replicate 8 4 @ replicate 8 1"

definition char_size1 :: "byte \<Rightarrow> nat" where
  "char_size1 b = UTF8_BYTE_LENGTH_TABLE1 ! unat b"

definition create_utf8_length_table :: "nat list" where
  "create_utf8_length_table =
     map (\<lambda>b. if 0xFC \<le> b then 6 else if 0xF8 \<le> b then 5 else if 0xF0 \<le> b then 4
               else if 0xE0 \<le> b then 3 else if 0xC0 \<le> b then 2 else 1) [0..<257]"

definition create_utf8_length_table2 :: "nat list" where
  "create_utf8_length_table2 =
     map (\<lambda>b. if 30 \<le> b then 4 else if 28 \<le> b then 3 else if 24 \<le> b then 2 else 1) [0..<64]"

definition char_size2 :: "byte \<Rightarrow> nat" where
  "char_size2 b = create_utf8_length_table2 ! unat (drop_bit 3 b)"

definition zeros_size :: "nat \<Rightarrow> nat" where
  "zeros_size k = (if k = 28 then 4 else if k = 27 then 3 else if k = 26 then 2 else 1)"

definition char_size3 :: "byte \<Rightarrow> nat option" where
  "char_size3 b = map_option zeros_size (builtin_clz (ucast (NOT b)))"

definition utf8_char_bytes :: "byte \<Rightarrow> nat" where
  "utf8_char_bytes c = char_size1 c"

section \<open>Lengths\<close>

text \<open>
  The loop from byte to byte: the rest of the string from i on, the int i, and the count.  A
  size of zero would never end.
\<close>

function length_loop :: "(byte \<Rightarrow> nat option) \<Rightarrow> bytes \<Rightarrow> nat \<Rightarrow> nat \<Rightarrow> nat option" where
  "length_loop cs [] i len = Some len"
| "length_loop cs (b # bs) i len = do {
     n \<leftarrow> cs b;
     guard (0 < n \<and> i + n < 2 ^ 31);
     length_loop cs (drop (n - 1) bs) (i + n) (len + 1) }"
  by pat_completeness auto
termination by (relation "measure (\<lambda>(cs, bs, i, len). length bs)") auto

definition utf8_length :: "bytes \<Rightarrow> nat option" where
  "utf8_length str = length_loop (\<lambda>b. Some (char_size1 b)) str 0 0"

definition utf8_length2 :: "bytes \<Rightarrow> nat option" where
  "utf8_length2 str = length_loop (\<lambda>b. Some (char_size2 b)) str 0 0"

definition utf8_length3 :: "bytes \<Rightarrow> nat option" where
  "utf8_length3 str = length_loop char_size3 str 0 0"

text \<open>
  utf8\_length4 reads aligned words of eight bytes, also where they are not all of the string,
  and shifts a word by the position of the next character in it.
\<close>

function word_loop :: "nat \<Rightarrow> u64 \<Rightarrow> nat \<Rightarrow> (nat \<times> nat) option" where
  "word_loop k oct len = (
     let k = k mod 8; oct = drop_bit (8 * k) oct; c = (ucast (oct XOR 0xff) :: byte)
     in case builtin_clz (ucast c) of None \<Rightarrow> None
        | Some zeros \<Rightarrow>
            let k' = k + zeros_size zeros
            in if k' < 8 then word_loop k' oct (len + 1) else Some (k', len + 1))"
  by pat_completeness auto
termination
  by (relation "measure (\<lambda>(k, oct, len). if k < 8 then 8 - k else 9)") (auto simp: zeros_size_def)

declare word_loop.simps [simp del]

function words_loop :: "mem \<Rightarrow> nat \<Rightarrow> nat \<Rightarrow> nat \<Rightarrow> nat \<Rightarrow> (nat \<times> nat) option" where
  "words_loop m p p_end k len =
     (if p < p_end
      then do {
        oct \<leftarrow> load 8 m p;
        (k, len) \<leftarrow> word_loop k (le_word oct) len;
        words_loop m (p + 8) p_end k len }
      else Some (k, len))"
  by pat_completeness auto
termination by (relation "measure (\<lambda>(m, p, p_end, k, len). p_end - p)") auto

declare words_loop.simps [simp del]

function last_word_loop :: "nat \<Rightarrow> nat \<Rightarrow> u64 \<Rightarrow> nat \<Rightarrow> nat option" where
  "last_word_loop limit_end k oct len = (
     if k < 8
     then let oct = drop_bit (8 * k) oct; c = (ucast (oct XOR 0xff) :: byte)
       in case builtin_clz (ucast c) of None \<Rightarrow> None
          | Some zeros \<Rightarrow>
              let k' = k + zeros_size zeros
              in if k' < limit_end then last_word_loop limit_end k' oct (len + 1) else Some (len + 1)
     else None)"
  by pat_completeness auto
termination
  by (relation "measure (\<lambda>(limit_end, k, oct, len). limit_end - k)") (auto simp: zeros_size_def)

declare last_word_loop.simps [simp del]

definition utf8_length4 :: "mem \<Rightarrow> nat \<Rightarrow> nat \<Rightarrow> nat option" where
  "utf8_length4 m data n = (
     let p_start = data - data mod 8; skip_start = data mod 8;
         p_end = (data + n) - (data + n) mod 8; limit_end = (data + n) mod 8
     in do {
       (k, len) \<leftarrow> words_loop m p_start p_end skip_start 0;
       if limit_end = 0 \<or> p_start = p_end then Some len
       else do { oct \<leftarrow> load 8 m p_end; last_word_loop limit_end k (le_word oct) len } })"

definition builtin_popcount :: "32 word \<Rightarrow> nat" where
  "builtin_popcount w = length (filter (bit w) [0..<32])"

text \<open>Blocks of w bytes, 32 with AVX2 and 16 with SSE2.\<close>

function simd_loop :: "nat \<Rightarrow> bytes \<Rightarrow> nat \<Rightarrow> nat \<Rightarrow> nat \<Rightarrow> (nat \<times> nat) option" where
  "simd_loop w s e p len =
     (if p < e
      then if 0 < w \<and> p + w \<le> length s
        then simd_loop w s e (p + w)
               (len + builtin_popcount (movemask (cmpgt (take w (drop p s)) (replicate w 0xbf))))
        else None
      else Some (p, len))"
  by pat_completeness auto
termination by (relation "measure (\<lambda>(w, s, e, p, len). e - p)") auto

declare simd_loop.simps [simp del]

definition utf8_length_simd :: "nat \<Rightarrow> bytes \<Rightarrow> nat option" where
  "utf8_length_simd w s = do {
     (p, len) \<leftarrow> simd_loop w s (length s - length s mod w) 0 0;
     Some (len + length (filter (\<lambda>b. sint (0xbf :: byte) < sint b) (drop p s))) }"

definition utf8_length_simd_avx2 :: "bytes \<Rightarrow> nat option" where
  "utf8_length_simd_avx2 s = utf8_length_simd 32 s"

definition utf8_length_simd_sse2 :: "bytes \<Rightarrow> nat option" where
  "utf8_length_simd_sse2 s = utf8_length_simd 16 s"

section \<open>Validation\<close>

definition v_or :: "bytes \<Rightarrow> bytes \<Rightarrow> bytes" where "v_or x y = map2 (OR) x y"

function ascii_loop :: "bytes \<Rightarrow> nat \<Rightarrow> bytes \<Rightarrow> nat \<times> bytes" where
  "ascii_loop src i has_error =
     (if i + 32 \<le> length src
      then ascii_loop src (i + 32) (v_or has_error (take 32 (drop i src)))
      else (i, has_error))"
  by pat_completeness auto
termination by (relation "measure (\<lambda>(src, i, acc). length src - i)") auto

declare ascii_loop.simps [simp del]

definition validate_ascii_fast :: "bytes \<Rightarrow> bool" where
  "validate_ascii_fast src = (
     let (i, has_error) = (if 32 \<le> length src then ascii_loop src 0 (replicate 32 0) else (0, replicate 32 0));
         error_mask = movemask has_error;
         tail_has_error = fold (OR) (drop i src) 0
     in (error_mask OR ucast (tail_has_error AND 0x80)) = 0)"

section \<open>Generation\<close>

definition UTF8_FIRST_CHAR :: bytes where
  "UTF8_FIRST_CHAR = [0x00, 0x80, 0xc0, 0xe0, 0xf0, 0xf8, 0xfc]"

text \<open>The first i with pdf[i - 1] < sample \<le> pdf[i], or zero.\<close>

fun pick_loop :: "nat \<Rightarrow> int list \<Rightarrow> int \<Rightarrow> nat" where
  "pick_loop i (a # b # pdf) s = (if a < s \<and> s \<le> b then i else pick_loop (Suc i) (b # pdf) s)"
| "pick_loop i pdf s = 0"

fun prefix_sums :: "int \<Rightarrow> int list \<Rightarrow> int list" where
  "prefix_sums a [] = [a]"
| "prefix_sums a (w # ws) = a # prefix_sums (a + w) ws"

text \<open>
  The random distributions are sequences of results: rand\_pdf has been asked j times and
  rand\_char k times.  The text up to p is given, it grows to n bytes.
\<close>

function gen_loop :: "(nat \<Rightarrow> int) \<Rightarrow> (nat \<Rightarrow> byte) \<Rightarrow> int list \<Rightarrow> nat \<Rightarrow> nat \<Rightarrow> nat \<Rightarrow> bytes \<Rightarrow> bytes" where
  "gen_loop rand_pdf rand_char pdf n j k text =
     (if length text < n
      then let char_bytes = min (pick_loop 1 pdf (rand_pdf j)) (n - length text)
        in if char_bytes = 1
           then gen_loop rand_pdf rand_char pdf n (Suc j) (k + 1) (text @ [rand_char k AND 0x7f])
           else gen_loop rand_pdf rand_char pdf n (Suc j) (k + max 1 char_bytes)
             (text @ (drop_bit (char_bytes + 1) (rand_char k) OR UTF8_FIRST_CHAR ! char_bytes)
               # map (\<lambda>i. drop_bit 2 (rand_char (k + i)) OR 0x80) [1..<char_bytes])
      else text)"
  by pat_completeness auto
termination by (relation "measure (\<lambda>(rp, rc, pdf, n, j, k, text). n - length text)") auto

declare gen_loop.simps [simp del]

definition gen_utf8 :: "(int \<Rightarrow> int \<Rightarrow> int) \<Rightarrow> (int \<Rightarrow> nat \<Rightarrow> int) \<Rightarrow> (nat \<Rightarrow> byte) \<Rightarrow> int list \<Rightarrow> int \<Rightarrow> int \<Rightarrow> bytes option" where
  "gen_utf8 rand_n rand_pdf rand_char weights n1 n2 = do {
     guard (length weights = 6);
     guard (0 \<le> n1 \<and> 0 \<le> n2 \<and> n1 \<le> n2);
     guard (list_all (\<lambda>i. 0 \<le> i) weights);
     guard (list_ex (\<lambda>i. 0 < i) weights);
     if n2 = 0 then Some []
     else do {
       guard (sum_list weights < 2 ^ 31);
       let pdf = prefix_sums 0 weights;
       Some (gen_loop (rand_pdf (last pdf)) rand_char pdf (nat (rand_n n1 n2)) 0 0 []) } }"

section \<open>Specification\<close>

definition continuation :: "byte \<Rightarrow> bool" where
  "continuation b \<longleftrightarrow> 128 \<le> unat b \<and> unat b < 192"

definition utf8_char :: "bytes \<Rightarrow> bool" where
  "utf8_char c \<longleftrightarrow> is_char c \<and> \<not> continuation (hd c) \<and> unat (hd c) < 248 \<and> list_all continuation (tl c)"

section \<open>Sizes\<close>

lemma unat_byte: "unat (b :: byte) < 256"
  using unsigned_less [of b, where 'a = nat] by simp

lemma char_size_val:
  "char_size b = (if unat b < 192 then 1 else if unat b < 224 then 2 else if unat b < 240 then 3 else if unat b < 248 then 4 else 1)"
  using unat_byte [of b] by (auto simp: char_size_def UTF8_BYTE_LENGTH_TABLE_def nth_append)

lemma char_size1_eq [simp]: "char_size1 b = char_size b"
  by (simp add: char_size1_def char_size_def UTF8_BYTE_LENGTH_TABLE1_def UTF8_BYTE_LENGTH_TABLE_def)

lemma char_size2_val:
  "char_size2 b = (if unat b < 192 then 1 else if unat b < 224 then 2 else if unat b < 240 then 3 else 4)"
proof -
  have "unat (drop_bit 3 b) = drop_bit 3 (unat b)"
    using unat_byte [of b] by (simp add: unsigned_drop_bit_eq take_bit_nat_eq_self)
  then have u: "unat (drop_bit 3 b) = unat b div 8" by (simp only: drop_bit_eq_div) simp
  have "unat b div 8 < 64" using unat_byte [of b] by simp
  moreover have "30 \<le> unat b div 8 \<longleftrightarrow> 240 \<le> unat b" "28 \<le> unat b div 8 \<longleftrightarrow> 224 \<le> unat b" "24 \<le> unat b div 8 \<longleftrightarrow> 192 \<le> unat b"
    by (simp_all add: le_div_geq less_eq_div_iff_mult_less_eq)
  ultimately show ?thesis by (simp add: char_size2_def create_utf8_length_table2_def u del: upt_Suc)
qed

lemma unat_not_byte: "unat (NOT b) = 255 - unat b" for b :: byte
proof -
  have "NOT b = - 1 - b" by (simp add: not_eq_complement)
  moreover have "unat (- 1 - b) = unat (- 1 :: byte) - unat b" by (rule unat_sub) simp
  moreover have "unat (- 1 :: byte) = 255" by (simp add: unsigned_minus_1_eq_mask mask_eq_exp_minus_1)
  ultimately show ?thesis by simp
qed

lemma clz_not_byte:
  assumes "unat b < 248"
  shows "builtin_clz (ucast (NOT b :: byte)) = Some (32 - bit_length (255 - unat b))"
proof -
  have n: "unat (ucast (NOT b) :: 32 word) = 255 - unat b"
    using unat_byte [of b] by (simp add: unsigned_ucast_eq take_bit_nat_eq_self unat_not_byte)
  then have "(ucast (NOT b) :: 32 word) \<noteq> 0" using assms by (intro notI) simp
  then show ?thesis by (simp add: builtin_clz_def n)
qed

lemma bit_length_not_byte:
  assumes "unat b < 248"
  shows "bit_length (255 - unat b) = (if unat b < 128 then 8 else 8 - (if unat b < 192 then 1 else char_size b))"
  using assms unat_byte [of b] bit_length_top [of 3 "255 - unat b"] bit_length_top [of 4 "255 - unat b"]
    bit_length_top [of 5 "255 - unat b"] bit_length_top [of 6 "255 - unat b"] bit_length_top [of 7 "255 - unat b"]
  by (cases "unat b < 128") (auto simp: char_size_val)

lemma char_size3_val:
  assumes "unat b < 248"
  shows "char_size3 b = Some (char_size b)"
  using assms by (auto simp: char_size3_def clz_not_byte bit_length_not_byte zeros_size_def char_size_val)

section \<open>Loops\<close>

text \<open>
  The contract of the ways to find the size of a character from its first byte: they agree with
  the table on every byte that can start a character.
\<close>

locale char_sizes =
  fixes cs :: "byte \<Rightarrow> nat option"
  assumes size_right: "unat b < 248 \<Longrightarrow> cs b = Some (char_size b)"
begin

lemma counts:
  "list_all utf8_char chars \<Longrightarrow> i + length (concat chars) < 2 ^ 31 \<Longrightarrow> length_loop cs (concat chars) i len = Some (len + length chars)"
proof (induction chars arbitrary: i len)
  case (Cons c chars)
  then obtain b bs where c: "c = b # bs" "unat b < 248" "char_size b = Suc (length bs)"
    by (cases c) (auto simp: utf8_char_def is_char_size)
  then show ?case using Cons.IH [of "i + Suc (length bs)" "Suc len"] Cons.prems by (simp add: size_right)
qed simp

end

interpretation table_sizes: char_sizes "\<lambda>b. Some (char_size1 b)"
  by unfold_locales simp

interpretation table2_sizes: char_sizes "\<lambda>b. Some (char_size2 b)"
  by unfold_locales (simp add: char_size2_val char_size_val)

interpretation zeros_sizes: char_sizes char_size3
  by unfold_locales (rule char_size3_val)

lemma popcount_movemask:
  assumes "length x \<le> 32"
  shows "builtin_popcount (movemask x) = length (filter (\<lambda>b. bit b 7) x)"
proof -
  have "[0..<32] = [0..<length x] @ [length x..<32]" using assms by (metis le_add_diff_inverse upt_add_eq_append zero_le)
  moreover have "filter (bit (movemask x)) [length x..<32] = []" using assms by (auto simp: bit_movemask filter_empty_conv)
  moreover have "filter (bit (movemask x)) [0..<length x] = filter (\<lambda>n. bit (x ! n) 7) [0..<length x]"
    using assms by (auto simp: bit_movemask intro!: filter_cong)
  moreover have "length (filter (\<lambda>n. bit (x ! n) 7) [0..<length x]) = length (filter (\<lambda>b. bit b 7) (map (\<lambda>n. x ! n) [0..<length x]))"
    by (simp add: filter_map comp_def)
  ultimately show ?thesis by (simp add: builtin_popcount_def map_nth)
qed

lemma above_threshold: "- 65 < sint b \<longleftrightarrow> \<not> continuation b"
proof -
  have "int (unat b) < 256" using unat_byte [of b] by (metis of_nat_less_iff of_nat_numeral)
  then show ?thesis
    unfolding continuation_def sint_byte [of b] by (cases "unat b < 128") (simp_all only: if_True if_False, linarith+)
qed

lemma popcount_block:
  assumes "length x = w" "w \<le> 32"
  shows "builtin_popcount (movemask (cmpgt x (replicate w 0xbf))) = length (filter (\<lambda>b. \<not> continuation b) x)"
proof -
  have "cmpgt x (replicate w 0xbf) = map (\<lambda>b. if \<not> continuation b then 0xff else 0) x"
    using assms(1) by (auto intro!: nth_equalityI simp: cmpgt_def above_threshold)
  then show ?thesis using assms by (simp add: popcount_movemask filter_map comp_def byte_negative)
qed

lemma simd_loop_counts:
  assumes "0 < w" "w \<le> 32" "e \<le> length s"
  shows "p \<le> e \<Longrightarrow> w dvd e - p \<Longrightarrow>
    simd_loop w s e p len = Some (e, len + length (filter (\<lambda>b. \<not> continuation b) (take (e - p) (drop p s))))"
proof (induction "e - p" arbitrary: p len rule: less_induct)
  case less
  show ?case
  proof (cases "p < e")
    case True
    then have w: "p + w \<le> e" using less.prems(2) by (auto dest: dvd_imp_le)
    then have "w dvd e - (p + w)" using less.prems(2) by (metis diff_diff_left dvd_diff_nat dvd_refl)
    moreover have "take (e - p) (drop p s) = take w (drop p s) @ take (e - (p + w)) (drop (p + w) s)"
      using w take_add [of w "e - (p + w)" "drop p s"] by (simp add: add.commute)
    ultimately show ?thesis
      using True w assms less.hyps [of "p + w" "len + length (filter (\<lambda>b. \<not> continuation b) (take w (drop p s)))"]
        popcount_block [of "take w (drop p s)" w]
      by (subst simd_loop.simps) simp
  qed (use less.prems in \<open>simp add: simd_loop.simps\<close>)
qed

lemma simd_length:
  assumes "0 < w" "w \<le> 32"
  shows "utf8_length_simd w s = Some (length (filter (\<lambda>b. \<not> continuation b) s))"
proof -
  let ?e = "length s - length s mod w"
  have "filter (\<lambda>b. \<not> continuation b) s = filter (\<lambda>b. \<not> continuation b) (take ?e s) @ filter (\<lambda>b. \<not> continuation b) (drop ?e s)"
    by (simp flip: filter_append)
  then have "length (filter (\<lambda>b. \<not> continuation b) s) = length (filter (\<lambda>b. \<not> continuation b) (take ?e s)) + length (filter (\<lambda>b. \<not> continuation b) (drop ?e s))"
    by (metis length_append)
  then show ?thesis
    using simd_loop_counts [OF assms, of ?e s 0 0] by (simp add: utf8_length_simd_def above_threshold minus_mod_eq_mult_div)
qed

lemma count_chars: "list_all utf8_char cs \<Longrightarrow> length (filter (\<lambda>b. \<not> continuation b) (concat cs)) = length cs"
proof (induction cs)
  case (Cons c cs)
  then obtain b bs where "c = b # bs" "\<not> continuation b" "list_all continuation bs"
    by (cases c) (auto simp: utf8_char_def is_char_size)
  moreover have "filter (\<lambda>b. \<not> continuation b) bs = []" if "list_all continuation bs" for bs
    using that by (simp add: filter_empty_conv list_all_iff)
  ultimately show ?case using Cons by simp
qed simp

lemma words_loop_none: "p_end \<le> p \<Longrightarrow> words_loop m p p_end k len = Some (k, len)"
  by (simp add: words_loop.simps)

lemma word_loop_past: "word_loop k oct len = Some (k', len') \<Longrightarrow> 8 \<le> k'"
proof (induction k oct len rule: word_loop.induct)
  case (1 k oct len)
  from 1(2) show ?case
    by (subst (asm) word_loop.simps) (auto simp: Let_def split: option.splits if_splits dest!: 1(1) [OF refl refl refl _ refl])
qed

lemma words_loop_past: "p < p_end \<Longrightarrow> words_loop m p p_end k len = Some (k', len') \<Longrightarrow> 8 \<le> k'"
proof (induction m p p_end k len rule: words_loop.induct)
  case (1 m p p_end k len)
  from 1(2,3) obtain oct k1 len1 where w: "load 8 m p = Some oct" "word_loop k (le_word oct) len = Some (k1, len1)"
    "words_loop m (p + 8) p_end k1 len1 = Some (k', len')"
    by (subst (asm) words_loop.simps) (auto simp: bind_eq_Some_conv)
  show ?case
  proof (cases "p + 8 < p_end")
    case True
    then show ?thesis using 1(1) [OF 1(2) w(1) w(2) refl] w(3) by blast
  next
    case False
    then show ?thesis using w(3) word_loop_past [OF w(2)] by (simp add: words_loop_none)
  qed
qed

section \<open>Validation\<close>

lemma errs_v_or: "length x = length y \<Longrightarrow> list_ex (\<lambda>b. bit b 7) (v_or x y) \<longleftrightarrow> list_ex (\<lambda>b. bit b 7) x \<or> list_ex (\<lambda>b. bit b 7) y"
  by (induction x y rule: list_induct2) (auto simp: v_or_def bit_or_iff)

lemma movemask_zero:
  assumes "length x \<le> 32"
  shows "movemask x = 0 \<longleftrightarrow> \<not> list_ex (\<lambda>b. bit b 7) x"
proof -
  have "movemask x = 0 \<longleftrightarrow> (\<forall>n. \<not> bit (movemask x) n)" by (metis bit_0_eq bit_eqI bot_apply bot_bool_def)
  also have "\<dots> \<longleftrightarrow> (\<forall>n < length x. \<not> bit (x ! n) 7)" using assms by (auto simp: bit_movemask)
  finally show ?thesis unfolding list_ex_iff by (metis in_set_conv_nth)
qed

lemma ascii_loop_errs:
  assumes "length acc = 32" "i \<le> length src"
  shows "\<exists>i' acc'. ascii_loop src i acc = (i', acc') \<and> i \<le> i' \<and> i' \<le> length src \<and> length acc' = 32 \<and>
    (list_ex (\<lambda>b. bit b 7) acc' \<longleftrightarrow> list_ex (\<lambda>b. bit b 7) acc \<or> list_ex (\<lambda>b. bit b 7) (take (i' - i) (drop i src)))"
  using assms
proof (induction src i acc rule: ascii_loop.induct)
  case (1 src i acc)
  show ?case
  proof (cases "i + 32 \<le> length src")
    case True
    let ?acc = "v_or acc (take 32 (drop i src))"
    have "length ?acc = 32" using True 1 by (simp add: v_or_def)
    then obtain i' acc' where IH: "ascii_loop src (i + 32) ?acc = (i', acc')" "i + 32 \<le> i'" "i' \<le> length src" "length acc' = 32"
      "list_ex (\<lambda>b. bit b 7) acc' \<longleftrightarrow> list_ex (\<lambda>b. bit b 7) ?acc \<or> list_ex (\<lambda>b. bit b 7) (take (i' - (i + 32)) (drop (i + 32) src))"
      using 1(1) [OF True] True by blast
    have "take (i' - i) (drop i src) = take 32 (drop i src) @ take (i' - (i + 32)) (drop (i + 32) src)"
      using IH(2) take_add [of 32 "i' - (i + 32)" "drop i src"] by (simp add: add.commute)
    then show ?thesis
      using IH True 1(2) errs_v_or [of acc "take 32 (drop i src)"] by (subst ascii_loop.simps) simp
  qed (use 1 in \<open>simp add: ascii_loop.simps\<close>)
qed

lemma bit_fold_or: "bit (fold (OR) xs a) 7 \<longleftrightarrow> bit a 7 \<or> list_ex (\<lambda>b. bit b 7) xs" for a :: byte
  by (induction xs arbitrary: a) (auto simp: bit_or_iff)

lemma and_exp: "b AND 2 ^ k = (if bit b k then 2 ^ k else 0)" for b :: byte
  by (rule bit_word_eqI) (auto simp: bit_and_iff bit_exp_iff)

lemma top_bit_zero: "(w OR ucast (b AND 0x80)) = 0 \<longleftrightarrow> w = 0 \<and> \<not> bit b 7" for w :: "32 word" and b :: byte
proof -
  have "b AND 0x80 = (if bit b 7 then 0x80 else 0)" using and_exp [of b 7] by simp
  then show ?thesis by (simp add: or_eq_0_iff)
qed

lemma validate_ascii_iff:
  "validate_ascii_fast src \<longleftrightarrow> list_all (\<lambda>b. unat b < 128) src"
proof -
  let ?r = "if 32 \<le> length src then ascii_loop src 0 (replicate 32 0) else (0, replicate 32 0)"
  have z: "\<not> list_ex (\<lambda>b. bit b 7) (replicate 32 (0 :: byte))" by (simp add: list_ex_iff)
  have "\<exists>i acc. ?r = (i, acc) \<and> length acc = 32 \<and> i \<le> length src \<and>
    (list_ex (\<lambda>b. bit b 7) acc \<longleftrightarrow> list_ex (\<lambda>b. bit b 7) (take i src))"
  proof (cases "32 \<le> length src")
    case True
    then show ?thesis using ascii_loop_errs [of "replicate 32 0" 0 src] z by auto
  qed (use z in simp)
  then obtain i acc where r: "?r = (i, acc)" "length acc = 32" "i \<le> length src"
    "list_ex (\<lambda>b. bit b 7) acc \<longleftrightarrow> list_ex (\<lambda>b. bit b 7) (take i src)" by blast
  have "validate_ascii_fast src \<longleftrightarrow> \<not> list_ex (\<lambda>b. bit b 7) acc \<and> \<not> list_ex (\<lambda>b. bit b 7) (drop i src)"
    using r(2) by (simp add: validate_ascii_fast_def r(1) top_bit_zero bit_fold_or movemask_zero)
  also have "\<dots> \<longleftrightarrow> \<not> list_ex (\<lambda>b. bit b 7) (take i src @ drop i src)" by (simp only: r(4) list_ex_append) blast
  finally show ?thesis by (simp add: byte_negative list_ex_iff list_all_iff not_le)
qed

section \<open>Generation\<close>

lemma pick_sizes:
  assumes "0 \<le> w1" "0 \<le> w2" "0 \<le> w3" "0 \<le> w4" "1 \<le> s" "s \<le> w1 + w2 + w3 + w4"
  shows "pick_loop 1 (prefix_sums 0 [w1, w2, w3, w4, 0, 0]) s \<in> {1, 2, 3, 4}"
  using assms by auto

lemma drop_or_push:
  fixes r y :: byte
  assumes "8 \<le> j + k"
  shows "drop_bit j r OR push_bit k y = drop_bit j r + push_bit k y"
proof -
  have "drop_bit j r AND push_bit k y = 0"
    using assms by (auto intro!: bit_word_eqI simp: bit_and_iff bit_drop_bit_eq bit_push_bit_iff dest!: bit_imp_le_length [of r])
  then show ?thesis by (simp add: disjunctive_add_eq_or)
qed

lemma unat_drop_byte: "unat (drop_bit j (r :: byte)) = unat r div 2 ^ j"
proof -
  have "unat (drop_bit j r) = drop_bit j (unat r)"
    using unat_byte [of r] by (simp add: unsigned_drop_bit_eq take_bit_nat_eq_self)
  then show ?thesis by (simp only: drop_bit_eq_div)
qed

lemma lead_byte:
  fixes r :: byte
  shows "unat (drop_bit 3 r OR 0xc0) \<in> {192..<224}" "unat (drop_bit 4 r OR 0xe0) \<in> {224..<240}" "unat (drop_bit 5 r OR 0xf0) \<in> {240..<248}"
    "unat (drop_bit 2 r OR 0x80) \<in> {128..<192}"
proof -
  have d: "unat r div 8 < 32" "unat r div 16 < 16" "unat r div 32 < 8" "unat r div 4 < 64" using unat_byte [of r] by simp_all
  show "unat (drop_bit 3 r OR 0xc0) \<in> {192..<224}"
    using drop_or_push [of 3 6 r 3] d(1) by (simp add: unat_drop_byte unat_plus_if_size word_size)
  show "unat (drop_bit 4 r OR 0xe0) \<in> {224..<240}"
    using drop_or_push [of 4 5 r 7] d(2) by (simp add: unat_drop_byte unat_plus_if_size word_size)
  show "unat (drop_bit 5 r OR 0xf0) \<in> {240..<248}"
    using drop_or_push [of 5 4 r 15] d(3) by (simp add: unat_drop_byte unat_plus_if_size word_size)
  show "unat (drop_bit 2 r OR 0x80) \<in> {128..<192}"
    using drop_or_push [of 2 7 r 1] d(4) by (simp add: unat_drop_byte unat_plus_if_size word_size)
qed

lemma ascii_byte: "unat (r AND 0x7f :: byte) < 128"
proof -
  have "r AND 0x7f \<le> 0x7f" by (rule word_and_le1)
  then show ?thesis by (simp add: word_le_nat_alt)
qed

lemma generated_char:
  assumes "n \<in> {2, 3, 4}"
  shows "utf8_char ((drop_bit (n + 1) r OR UTF8_FIRST_CHAR ! n) # map (\<lambda>i. drop_bit 2 (ch (k + i)) OR 0x80) [1..<n])"
proof -
  have c: "list_all continuation (map (\<lambda>i. drop_bit 2 (ch (k + i)) OR 0x80) [1..<n])"
    using lead_byte(4) by (auto simp: list_all_iff continuation_def)
  show ?thesis
    using assms c lead_byte(1-3) [of r]
    by (auto simp: utf8_char_def is_char_size char_size_val continuation_def UTF8_FIRST_CHAR_def)
qed

lemma gen_loop_valid:
  assumes pick: "\<And>j. pick_loop 1 pdf (rp j) \<in> {1, 2, 3, 4}"
    and "list_all utf8_char cs" "length (concat cs) \<le> n"
  shows "\<exists>ds. gen_loop rp rc pdf n j k (concat cs) = concat ds \<and> list_all utf8_char ds \<and> length (concat ds) = n"
  using assms(2,3)
proof (induction "n - length (concat cs)" arbitrary: cs j k rule: less_induct)
  case less
  show ?case
  proof (cases "length (concat cs) < n")
    case True
    let ?b = "min (pick_loop 1 pdf (rp j)) (n - length (concat cs))"
    let ?c = "if ?b = 1 then [rc k AND 0x7f]
      else (drop_bit (?b + 1) (rc k) OR UTF8_FIRST_CHAR ! ?b) # map (\<lambda>i. drop_bit 2 (rc (k + i)) OR 0x80) [1..<?b]"
    have b: "?b \<in> {1, 2, 3, 4}" using pick [of j] True by auto
    have "utf8_char [rc k AND 0x7f]"
      using ascii_byte [of "rc k"] by (simp add: utf8_char_def is_char_size char_size_val continuation_def)
    then have c: "utf8_char ?c" using generated_char [of ?b "rc k" rc k] b by auto
    have l: "length ?c = ?b" using b by auto
    have "gen_loop rp rc pdf n j k (concat cs) = gen_loop rp rc pdf n (Suc j) (k + ?b) (concat (cs @ [?c]))"
      using True b by (subst gen_loop.simps) (auto simp: Let_def)
    moreover have "list_all utf8_char (cs @ [?c])" using less.prems(1) c by simp
    moreover have "length (concat (cs @ [?c])) = length (concat cs) + ?b" using l by simp
    ultimately show ?thesis using less.hyps [of "cs @ [?c]" "Suc j" "k + ?b"] b True by auto
  qed (use less.prems in \<open>auto simp: gen_loop.simps\<close>)
qed

section \<open>Properties\<close>

text \<open>
  C36. On a string of well-formed UTF-8 characters the three loops over a table or the leading
  zeros and the two vector loops return the number of characters.
\<close>
theorem utf8_lengths_agree:
  assumes "list_all utf8_char cs" "length (concat cs) < 2 ^ 31"
  shows "utf8_length (concat cs) = Some (length cs) \<and> utf8_length2 (concat cs) = Some (length cs) \<and>
    utf8_length3 (concat cs) = Some (length cs) \<and> utf8_length_simd_avx2 (concat cs) = Some (length cs) \<and>
    utf8_length_simd_sse2 (concat cs) = Some (length cs)"
  using assms table_sizes.counts [of cs 0 0] table2_sizes.counts [of cs 0 0] zeros_sizes.counts [of cs 0 0]
    simd_length [of 32 "concat cs"] simd_length [of 16 "concat cs"] count_chars [OF assms(1)]
  by (simp add: utf8_length_def utf8_length2_def utf8_length3_def utf8_length_simd_avx2_def utf8_length_simd_sse2_def)

theorem utf8_lengths_agree_witness:
  "utf8_length (concat [[0x61], [0xe5, 0xa3, 0xb9], [0xc3, 0xa9]]) = Some 3 \<and>
   utf8_length_simd_avx2 (concat [[0x61], [0xe5, 0xa3, 0xb9], [0xc3, 0xa9]]) = Some 3"
  using utf8_lengths_agree [of "[[0x61], [0xe5, 0xa3, 0xb9], [0xc3, 0xa9]]"]
  by (simp add: utf8_char_def is_char_size char_size_val continuation_def)

text \<open>
  utf8\_length4 does not count: it returns zero for every string that ends before the next
  multiple of eight, however many characters it has, and for every longer one that does not
  end at such a multiple it shifts a word by 64 bits or more.
\<close>
theorem utf8_length4_broken:
  "(data mod 8 + n < 8 \<longrightarrow> utf8_length4 m data n = Some 0) \<and>
   (8 < data mod 8 + n \<and> (data + n) mod 8 \<noteq> 0 \<longrightarrow> utf8_length4 m data n = None)"
proof (intro conjI impI)
  assume a: "data mod 8 + n < 8"
  have "(data + n) mod 8 = data mod 8 + n" using a by (metis mod_add_left_eq mod_less)
  then have "(data + n) - (data + n) mod 8 = data - data mod 8" by simp
  then show "utf8_length4 m data n = Some 0" by (simp add: utf8_length4_def Let_def words_loop_none)
next
  assume a: "8 < data mod 8 + n \<and> (data + n) mod 8 \<noteq> 0"
  have "(data + n) mod 8 < 8" by simp
  then have p: "data - data mod 8 < (data + n) - (data + n) mod 8" using a by linarith
  show "utf8_length4 m data n = None"
  proof (cases "words_loop m (data - data mod 8) ((data + n) - (data + n) mod 8) (data mod 8) 0")
    case (Some r)
    then have "8 \<le> fst r" using words_loop_past [OF p] by (cases r) auto
    then show ?thesis using Some a p
      by (auto simp: utf8_length4_def Let_def last_word_loop.simps bind_eq_None_conv split: prod.splits)
  qed (simp add: utf8_length4_def Let_def)
qed

theorem utf8_length4_broken_witness:
  "utf8_length4 (put_bytes (\<lambda>_. None) 16 [0x61, 0x62, 0x63]) 16 3 = Some 0 \<and> utf8_length [0x61, 0x62, 0x63] = Some 3"
  using utf8_length4_broken [of 16 3] by (simp add: utf8_length_def char_size_val)

text \<open>C37. The vectorised validation accepts exactly the strings with no byte above 127.\<close>
theorem validate_ascii_exact:
  "validate_ascii_fast src \<longleftrightarrow> list_all (\<lambda>b. unat b < 128) src"
  by (rule validate_ascii_iff)

text \<open>
  The generator of test data returns a string of well-formed characters with the drawn
  number of bytes, for weights that exclude characters of five and six bytes and whatever the
  distributions return within their bounds.
\<close>
theorem gen_utf8_valid:
  assumes "0 \<le> w1" "0 \<le> w2" "0 \<le> w3" "0 \<le> w4" "0 < w1 + w2 + w3 + w4" "w1 + w2 + w3 + w4 < 2 ^ 31"
    and "0 \<le> n1" "n1 \<le> rand_n n1 n2" "rand_n n1 n2 \<le> n2" "0 < n2"
    and "\<And>top j. 0 < top \<Longrightarrow> 1 \<le> rand_pdf top j \<and> rand_pdf top j \<le> top"
  shows "\<exists>cs. gen_utf8 rand_n rand_pdf rand_char [w1, w2, w3, w4, 0, 0] n1 n2 = Some (concat cs) \<and>
    list_all utf8_char cs \<and> int (length (concat cs)) = rand_n n1 n2"
proof -
  let ?pdf = "prefix_sums 0 [w1, w2, w3, w4, 0, 0]"
  have "pick_loop 1 ?pdf (rand_pdf (w1 + w2 + w3 + w4) j) \<in> {1, 2, 3, 4}" for j
    using pick_sizes [OF assms(1-4)] assms(5,11) by blast
  from gen_loop_valid [where rp = "rand_pdf (w1 + w2 + w3 + w4)" and pdf = ?pdf and cs = "[]" and n = "nat (rand_n n1 n2)" and rc = rand_char and j = 0 and k = 0, OF this]
  obtain cs where
    "gen_loop (rand_pdf (w1 + w2 + w3 + w4)) rand_char ?pdf (nat (rand_n n1 n2)) 0 0 [] = concat cs"
    "list_all utf8_char cs" "length (concat cs) = nat (rand_n n1 n2)" by (auto simp del: prefix_sums.simps)
  moreover have "last ?pdf = w1 + w2 + w3 + w4" by simp
  moreover have "0 < w1 \<or> 0 < w2 \<or> 0 < w3 \<or> 0 < w4" using assms(1-5) by linarith
  ultimately show ?thesis using assms(1-10)
    by (auto simp: gen_utf8_def Let_def simp del: prefix_sums.simps)
qed

theorem gen_utf8_valid_witness:
  "\<exists>cs. gen_utf8 (\<lambda>a b. b) (\<lambda>top j. top) (\<lambda>k. 0xff) [10, 10, 4, 3, 0, 0] 5 9 = Some (concat cs) \<and>
     list_all utf8_char cs \<and> int (length (concat cs)) = 9"
  using gen_utf8_valid [of 10 10 4 3 5 "\<lambda>a b. b" 9 "\<lambda>top j. top" "\<lambda>k. 0xff"] by simp

end
