(* ===== verification/Substr.thy ===== *)
theory Substr
  imports StringCase Utf8Length
begin

unbundle bit_operations_syntax

text \<open>
  The substrings of columns in src/include/string\_functions.hh: by bytes, by characters from
  the left and from the right, the choice between them, and the older variants.  What a loop
  appends for one row is a function of the string of that row.  Numbers of type int are
  integers; their conversions to size\_t and back are written out, and overflow is a fault.
\<close>

section \<open>Conversions\<close>

definition to_size :: "int \<Rightarrow> nat" where
  "to_size n = nat (n mod 2 ^ 64)"

definition to_int :: "int \<Rightarrow> int" where
  "to_int n = signed_take_bit 31 n"

definition int_add :: "int \<Rightarrow> int \<Rightarrow> int option" where
  "int_add a b = (if - (2 ^ 31) \<le> a + b \<and> a + b < 2 ^ 31 then Some (a + b) else None)"

text \<open>The bytes between two pointers into a string.\<close>

definition slice_range :: "bytes \<Rightarrow> int \<Rightarrow> int \<Rightarrow> bytes option" where
  "slice_range s a b =
     (if 0 \<le> a \<and> a \<le> b \<and> b \<le> int (length s) then Some (take (nat (b - a)) (drop (nat a) s)) else None)"

definition vec_at :: "'a list \<Rightarrow> int \<Rightarrow> 'a option" where
  "vec_at xs i = (if 0 \<le> i \<and> i < int (length xs) then Some (xs ! nat i) else None)"

section \<open>By bytes\<close>

definition ascii_substr_row :: "bool \<Rightarrow> int \<Rightarrow> int \<Rightarrow> bytes \<Rightarrow> bytes option" where
  "ascii_substr_row negative_offset offset len s = (
     let sz = length s
     in if sz = 0 then Some []
        else let from_pos = (if negative_offset then to_int (offset + int sz) else offset)
          in if (if negative_offset then from_pos < 0 else sz < to_size from_pos) then Some []
             else do {
               to_pos \<leftarrow> int_add from_pos len;
               let to_pos = (if to_pos < from_pos \<or> sz < to_size to_pos then to_int (int sz) else to_pos);
               slice_range s from_pos to_pos })"

definition ascii_substr :: "bool \<Rightarrow> column \<Rightarrow> column \<Rightarrow> int \<Rightarrow> int \<Rightarrow> column option" where
  "ascii_substr negative_offset src dst offset len =
     append_rows (ascii_substr_row negative_offset offset len) src 0 (binary_column_size src) dst"

fun ref_rows :: "(bytes \<Rightarrow> bytes option) \<Rightarrow> column \<Rightarrow> nat \<Rightarrow> nat \<Rightarrow> bytes \<Rightarrow> int list \<Rightarrow> (bytes \<times> int list) option" where
  "ref_rows f src i 0 bs offsets = Some (bs, offsets)"
| "ref_rows f src i (Suc k) bs offsets = do {
     sl \<leftarrow> get_slice src (int i);
     s \<leftarrow> slice_string src sl;
     r \<leftarrow> f s;
     guard (i + 1 < length offsets);
     ref_rows f src (Suc i) k (bs @ r) (offsets[i + 1 := to_int (int (length (bs @ r)))]) }"

definition ascii_substr_by_ref :: "bool \<Rightarrow> column \<Rightarrow> bytes \<Rightarrow> int list \<Rightarrow> int \<Rightarrow> int \<Rightarrow> (bytes \<times> int list) option" where
  "ascii_substr_by_ref negative_offset src bs offsets off len =
     ref_rows (ascii_substr_row negative_offset off len) src 0 (binary_column_size src) bs offsets"

text \<open>The variant with pointers to the same objects.\<close>

definition ascii_substr_by_ptr :: "bool \<Rightarrow> column \<Rightarrow> bytes \<Rightarrow> int list \<Rightarrow> int \<Rightarrow> int \<Rightarrow> (bytes \<times> int list) option" where
  "ascii_substr_by_ptr negative_offset src bs offsets off len =
     ref_rows (ascii_substr_row negative_offset off len) src 0 (binary_column_size src) bs offsets"

section \<open>By characters\<close>

definition char_size_clz :: "byte \<Rightarrow> nat option" where
  "char_size_clz c = (
     let b = NOT c
     in if drop_bit 7 b = 1 then Some 1 else map_option (\<lambda>z. z - 24) (builtin_clz (ucast b)))"

definition char_size_of :: "bool \<Rightarrow> byte \<Rightarrow> nat option" where
  "char_size_of lookup_table b = (if lookup_table then Some (char_size1 b) else char_size_clz b)"

text \<open>The bytes from p to the end, the number of characters still to skip, and p.\<close>

fun skip_leading_utf8 :: "bool \<Rightarrow> bytes \<Rightarrow> nat \<Rightarrow> nat \<Rightarrow> nat option" where
  "skip_leading_utf8 lookup_table [] n p = Some p"
| "skip_leading_utf8 lookup_table (b # bs) 0 p = Some p"
| "skip_leading_utf8 lookup_table (b # bs) (Suc n) p = do {
     k \<leftarrow> char_size_of lookup_table b;
     skip_leading_utf8 lookup_table (drop k (b # bs)) n (p + k) }"

text \<open>
  From the right the pointer may go to the place before the first byte: p stands for the
  pointer to index p - 1.
\<close>

fun skip_continuation :: "bytes \<Rightarrow> nat \<Rightarrow> nat" where
  "skip_continuation s 0 = 0"
| "skip_continuation s (Suc p) = (if sint (s ! p) \<le> sint (0xbf :: byte) then skip_continuation s p else Suc p)"

fun skip_trailing_utf8 :: "bytes \<Rightarrow> nat \<Rightarrow> nat \<Rightarrow> nat" where
  "skip_trailing_utf8 s 0 p = p"
| "skip_trailing_utf8 s (Suc n) p = (if 1 \<le> p then skip_trailing_utf8 s n (skip_continuation s (p - 1)) else p)"

definition from_left_row :: "bool \<Rightarrow> bool \<Rightarrow> int \<Rightarrow> int \<Rightarrow> bytes \<Rightarrow> bytes option" where
  "from_left_row use_length lookup_table offset len s = do {
     from_ptr \<leftarrow> skip_leading_utf8 lookup_table s (to_size offset) 0;
     if use_length then
       (if length s \<le> from_ptr then Some []
        else do {
          to_ptr \<leftarrow> skip_leading_utf8 lookup_table (drop from_ptr s) (to_size len) from_ptr;
          slice_range s (int from_ptr) (int to_ptr) })
     else slice_range s (int from_ptr) (int (length s)) }"

definition utf8_substr_from_left :: "bool \<Rightarrow> bool \<Rightarrow> column \<Rightarrow> column \<Rightarrow> int \<Rightarrow> int \<Rightarrow> column option" where
  "utf8_substr_from_left use_length lookup_table src dst offset len =
     append_rows (from_left_row use_length lookup_table offset len) src 0 (binary_column_size src) dst"

text \<open>The index of the first bytes in an array of 32 entries of 8 bits.\<close>

function small_index_loop :: "bytes \<Rightarrow> nat \<Rightarrow> nat list \<Rightarrow> nat list option" where
  "small_index_loop [] i small_index = Some small_index"
| "small_index_loop (b # bs) i small_index = do {
     guard (length small_index < 32 \<and> i + char_size1 b < 256);
     small_index_loop (drop (char_size1 b - 1) bs) (i + char_size1 b) (small_index @ [i]) }"
  by pat_completeness auto
termination by (relation "measure (\<lambda>(bs, i, ix). length bs)") auto

definition get_utf8_small_index :: "bytes \<Rightarrow> nat list option" where
  "get_utf8_small_index s = small_index_loop s 0 []"

definition from_right_row :: "bool \<Rightarrow> bool \<Rightarrow> int \<Rightarrow> int \<Rightarrow> bytes \<Rightarrow> bytes option" where
  "from_right_row use_length lookup_table offset len s = (
     if length s < to_size offset then Some []
     else if length s \<le> 32 then do {
       small_index \<leftarrow> get_utf8_small_index s;
       if length small_index < to_size offset then Some []
       else do {
         let from_idx = int (length small_index - to_size offset);
         from_ptr \<leftarrow> vec_at small_index from_idx;
         to_ptr \<leftarrow> (if use_length \<and> len < offset then vec_at small_index (int (to_size (from_idx + len))) else Some (length s));
         slice_range s (int from_ptr) (int to_ptr) } }
     else (
       let p = skip_trailing_utf8 s (to_size offset) (length s + 1)
       in if p < 1 then Some []
          else if use_length then
            (if int (length s) - int (p - 1) < len then slice_range s (int (p - 1)) (int (length s))
             else do {
               to_ptr \<leftarrow> skip_leading_utf8 lookup_table (drop (p - 1) s) (to_size len) (p - 1);
               slice_range s (int (p - 1)) (int to_ptr) })
          else slice_range s (int (p - 1)) (int (length s))))"

definition utf8_substr_from_right :: "bool \<Rightarrow> bool \<Rightarrow> column \<Rightarrow> column \<Rightarrow> int \<Rightarrow> int \<Rightarrow> column option" where
  "utf8_substr_from_right use_length lookup_table src dst offset len =
     append_rows (from_right_row use_length lookup_table offset len) src 0 (binary_column_size src) dst"

definition substr :: "bool \<Rightarrow> bool \<Rightarrow> bool \<Rightarrow> column \<Rightarrow> column \<Rightarrow> int \<Rightarrow> int \<Rightarrow> column option" where
  "substr check_ascii use_length lookup_table src dst offset len = (
     if offset = 0 then Some dst
     else if check_ascii \<and> validate_ascii_fast (col_bytes src) then
       (if 0 < offset then ascii_substr False src dst (offset - 1) len else ascii_substr True src dst offset len)
     else if 0 < offset then utf8_substr_from_left use_length lookup_table src dst (offset - 1) len
     else do {
       guard (- (2 ^ 31) < offset);
       utf8_substr_from_right use_length lookup_table src dst (- offset) len })"

section \<open>The older variants\<close>

text \<open>The positions of the characters; the counter of bytes is an int.\<close>

function index_loop :: "bool \<Rightarrow> bytes \<Rightarrow> nat \<Rightarrow> nat list \<Rightarrow> nat list option" where
  "index_loop lookup_table [] i index = Some index"
| "index_loop lookup_table (b # bs) i index = do {
     k \<leftarrow> char_size_of lookup_table b;
     guard (0 < k \<and> i + k < 2 ^ 31);
     index_loop lookup_table (drop (k - 1) bs) (i + k) (index @ [i]) }"
  by pat_completeness auto
termination by (relation "measure (\<lambda>(lt, bs, i, ix). length bs)") auto

definition get_utf8_index :: "bytes \<Rightarrow> nat list option" where
  "get_utf8_index s = index_loop True s 0 []"

definition get_utf8_index2 :: "bytes \<Rightarrow> nat list option" where
  "get_utf8_index2 s = index_loop False s 0 []"

definition index_row :: "bool \<Rightarrow> (bytes \<Rightarrow> nat list option) \<Rightarrow> int \<Rightarrow> int \<Rightarrow> bytes \<Rightarrow> bytes option" where
  "index_row negative_offset get_index offset len s = (
     if length s = 0 then Some []
     else do {
       index \<leftarrow> get_index s;
       let pos = (if negative_offset \<and> offset < 0 then to_int (offset + int (length index)) else offset);
       if length index \<le> to_size pos \<or> pos < 0 then Some []
       else do {
         byte_pos \<leftarrow> vec_at index pos;
         to_pos \<leftarrow> int_add pos len;
         result_length \<leftarrow> (if to_size to_pos < length index
           then map_option (\<lambda>e. to_int (int e - int byte_pos)) (vec_at index to_pos)
           else Some (to_int (int (length s) - int byte_pos)));
         slice_range s (int byte_pos) (int byte_pos + result_length) } })"

definition dec_offset :: "int \<Rightarrow> int" where
  "dec_offset offset = (if 0 < offset then offset - 1 else offset)"

definition substr_new :: "bool \<Rightarrow> column \<Rightarrow> column \<Rightarrow> int \<Rightarrow> int \<Rightarrow> column option" where
  "substr_new negative_offset src dst offset len = (
     if validate_ascii_fast (col_bytes src) then ascii_substr True src dst offset len
     else append_rows (index_row negative_offset get_utf8_index2 (dec_offset offset) len) src 0 (binary_column_size src) dst)"

definition old_ascii_row :: "int \<Rightarrow> int \<Rightarrow> bytes \<Rightarrow> bytes option" where
  "old_ascii_row offset len s = (
     if length s = 0 \<or> length s < to_size offset then Some []
     else do {
       byte_pos \<leftarrow> int_add offset (- 1);
       to_pos \<leftarrow> int_add offset len;
       let result_length = (if length s < to_size to_pos then to_int (int (length s) - byte_pos) else len);
       slice_range s byte_pos (byte_pos + result_length) })"

definition substr_old :: "bool \<Rightarrow> column \<Rightarrow> column \<Rightarrow> int \<Rightarrow> int \<Rightarrow> column option" where
  "substr_old negative_offset src dst offset len = (
     if validate_ascii_fast (col_bytes src) then append_rows (old_ascii_row offset len) src 0 (binary_column_size src) dst
     else append_rows (index_row negative_offset get_utf8_index (dec_offset offset) len) src 0 (binary_column_size src) dst)"

section \<open>Specification\<close>

fun char_starts :: "nat \<Rightarrow> bytes list \<Rightarrow> nat list" where
  "char_starts i [] = []"
| "char_starts i (c # cs) = i # char_starts (i + length c) cs"

text \<open>The substring of a sequence of characters: counted from one, or from the right.\<close>

definition char_substr :: "int \<Rightarrow> int \<Rightarrow> 'a list \<Rightarrow> 'a list" where
  "char_substr offset len cs =
     (if 0 < offset then take (nat len) (drop (nat offset - 1) cs)
      else if int (length cs) < - offset then []
      else take (nat len) (drop (length cs - nat (- offset)) cs))"

section \<open>Conversions\<close>

lemma to_size_nat: "0 \<le> n \<Longrightarrow> n < 2 ^ 64 \<Longrightarrow> to_size n = nat n"
  by (simp add: to_size_def)

lemma to_int_id: "- (2 ^ 31) \<le> n \<Longrightarrow> n < 2 ^ 31 \<Longrightarrow> to_int n = n"
  unfolding to_int_def by (rule signed_take_bit_int_eq_self) simp_all

lemma int_add_some: "- (2 ^ 31) \<le> a + b \<Longrightarrow> a + b < 2 ^ 31 \<Longrightarrow> int_add a b = Some (a + b)"
  by (simp add: int_add_def)

lemma slice_range_nat: "a \<le> b \<Longrightarrow> b \<le> length s \<Longrightarrow> slice_range s (int a) (int b) = Some (take (b - a) (drop a s))"
  by (simp add: slice_range_def nat_diff_distrib)

lemma vec_at_nat: "i < length xs \<Longrightarrow> vec_at xs (int i) = Some (xs ! i)"
  by (simp add: vec_at_def)

section \<open>Characters\<close>

lemma top_bit_not: "drop_bit 7 (NOT c :: byte) = 1 \<longleftrightarrow> unat c < 128"
proof -
  have "unat (drop_bit 7 (NOT c)) = (if unat c < 128 then 1 else 0)"
    unfolding unat_drop_byte unat_not_byte using unat_byte [of c] by (auto intro: div_nat_eqI)
  then show ?thesis by (metis unsigned_1 unsigned_0 word_unat_eq_iff zero_neq_one)
qed

lemma size_clz: "unat c < 248 \<Longrightarrow> char_size_clz c = Some (char_size c)"
  by (auto simp: char_size_clz_def top_bit_not clz_not_byte bit_length_not_byte char_size_val)

lemma size_of_char: "unat c < 248 \<Longrightarrow> char_size_of lookup_table c = Some (char_size c)"
  by (simp add: char_size_of_def size_clz)

lemma utf8_charE:
  assumes "utf8_char c"
  obtains b bs where "c = b # bs" "char_size b = Suc (length bs)" "unat b < 248" "\<not> continuation b" "list_all continuation bs"
  using assms by (cases c) (auto simp: utf8_char_def is_char_size)

lemma skip_leading_chars:
  "list_all utf8_char cs \<Longrightarrow> skip_leading_utf8 lt (concat cs) n p = Some (p + length (concat (take n cs)))"
proof (induction cs arbitrary: n p)
  case (Cons c cs)
  from Cons.prems obtain b bs where c: "c = b # bs" "char_size b = Suc (length bs)" "unat b < 248" by (auto elim: utf8_charE)
  then show ?case using Cons by (cases n) (simp_all add: size_of_char)
qed simp

lemma length_char_starts [simp]: "length (char_starts i cs) = length cs"
  by (induction cs arbitrary: i) simp_all

lemma char_starts_nth: "k < length cs \<Longrightarrow> char_starts i cs ! k = i + length (concat (take k cs))"
  by (induction cs arbitrary: i k) (auto simp: nth_Cons' take_Cons')

lemma index_loop_chars:
  "list_all utf8_char cs \<Longrightarrow> i + length (concat cs) < 2 ^ 31 \<Longrightarrow> index_loop lt (concat cs) i ix = Some (ix @ char_starts i cs)"
proof (induction cs arbitrary: i ix)
  case (Cons c cs)
  from Cons.prems(1) obtain b bs where c: "c = b # bs" "char_size b = Suc (length bs)" "unat b < 248" by (auto elim: utf8_charE)
  then show ?case using Cons.IH [of "i + Suc (length bs)" "ix @ [i]"] Cons.prems by (simp add: size_of_char)
qed simp

lemma small_index_chars:
  "list_all utf8_char cs \<Longrightarrow> i + length (concat cs) < 256 \<Longrightarrow> length ix + length cs \<le> 32 \<Longrightarrow>
   small_index_loop (concat cs) i ix = Some (ix @ char_starts i cs)"
proof (induction cs arbitrary: i ix)
  case (Cons c cs)
  from Cons.prems(1) obtain b bs where c: "c = b # bs" "char_size b = Suc (length bs)" by (auto elim: utf8_charE)
  then show ?case using Cons.IH [of "i + Suc (length bs)" "ix @ [i]"] Cons.prems by simp
qed simp

lemma below_threshold: "sint b \<le> - 65 \<longleftrightarrow> continuation b"
  using above_threshold [of b] by linarith

lemma skip_continuation_char:
  assumes "utf8_char c"
  shows "skip_continuation (pre @ c @ post) (length pre + length c) = Suc (length pre)"
proof -
  obtain b bs where c: "c = b # bs" "\<not> continuation b" "list_all continuation bs" using assms by (rule utf8_charE)
  have "skip_continuation (pre @ c @ post) (Suc (length pre + j)) = Suc (length pre)" if "j \<le> length bs" for j
    using that
  proof (induction j)
    case (Suc j)
    then have "(pre @ c @ post) ! Suc (length pre + j) = bs ! j" "continuation (bs ! j)"
      using c(3) by (simp_all add: c(1) nth_append list_all_length)
    then show ?case using Suc by (simp add: below_threshold)
  qed (simp add: c below_threshold nth_append)
  from this [of "length bs"] show ?thesis by (simp add: c(1))
qed

lemma skip_trailing_0 [simp]: "skip_trailing_utf8 s n 0 = 0"
  by (cases n) simp_all

lemma skip_trailing_chars:
  assumes "list_all utf8_char cs"
  shows "k \<le> length cs \<Longrightarrow> skip_trailing_utf8 (concat cs) n (Suc (length (concat (take k cs)))) =
    (if n \<le> k then Suc (length (concat (take (k - n) cs))) else 0)"
proof (induction n arbitrary: k)
  case (Suc n)
  show ?case
  proof (cases k)
    case (Suc k')
    then have k': "k' < length cs" using \<open>k \<le> length cs\<close> by simp
    have "skip_continuation (concat cs) (length (concat (take k' cs)) + length (cs ! k')) = Suc (length (concat (take k' cs)))"
      by (subst take_row [OF k'], rule skip_continuation_char) (use assms k' in \<open>simp add: list_all_length\<close>)
    moreover have "length (concat (take k cs)) = length (concat (take k' cs)) + length (cs ! k')"
      unfolding Suc concat_take_Suc [OF k'] by simp
    ultimately show ?thesis using Suc.IH [of k'] k' Suc by simp
  qed simp
qed simp

lemma drop_chars: "drop (length (concat (take n cs))) (concat cs) = concat (drop n cs)"
  by (metis append_eq_conv_conj append_take_drop_id concat_append)

lemma take_chars: "take (length (concat (take n cs))) (concat cs) = concat (take n cs)"
  by (metis append_eq_conv_conj append_take_drop_id concat_append)

lemma slice_chars:
  "slice_range (concat cs) (int (length (concat (take n cs)))) (int (length (concat (take n cs)) + length (concat (take m (drop n cs)))))
     = Some (concat (take m (drop n cs)))"
proof -
  have "length (concat cs) = length (concat (take n cs)) + length (concat (drop n cs))"
    by (metis append_take_drop_id concat_append length_append)
  moreover have "length (concat (take m (drop n cs))) \<le> length (concat (drop n cs))"
    by (metis append_take_drop_id concat_append le_add1 length_append)
  ultimately have "slice_range (concat cs) (int (length (concat (take n cs)))) (int (length (concat (take n cs)) + length (concat (take m (drop n cs)))))
    = Some (take (length (concat (take m (drop n cs)))) (drop (length (concat (take n cs))) (concat cs)))"
    by (subst slice_range_nat) (simp_all)
  then show ?thesis by (simp only: drop_chars take_chars)
qed

lemma count_le: "list_all utf8_char cs \<Longrightarrow> length cs \<le> length (concat cs)"
  by (induction cs) (auto elim: utf8_charE)

lemma no_chars: "list_all utf8_char cs \<Longrightarrow> concat cs = [] \<longleftrightarrow> cs = []"
  using count_le [of cs] by (metis concat.simps(1) le_zero_eq length_0_conv)

section \<open>Rows\<close>

lemma from_left_chars:
  assumes "list_all utf8_char cs" "0 \<le> offset" "offset < 2 ^ 31" "0 \<le> len" "len < 2 ^ 31"
  shows "from_left_row True lt offset len (concat cs) = Some (concat (take (nat len) (drop (nat offset) cs)))"
proof -
  let ?n = "nat offset" and ?m = "nat len"
  have d: "list_all utf8_char (drop ?n cs)" using assms(1) by (auto simp: list_all_iff dest: in_set_dropD)
  have s: "to_size offset = ?n" "to_size len = ?m" using assms(2-5) by (simp_all add: to_size_nat)
  have "concat (drop ?n cs) = []" if "length (concat cs) \<le> length (concat (take ?n cs))"
    using that drop_chars [of ?n cs] by simp
  then have "drop ?n cs = []" if "length (concat cs) \<le> length (concat (take ?n cs))"
    using that no_chars [OF d] by blast
  then show ?thesis
    using skip_leading_chars [OF assms(1), of lt ?n 0] skip_leading_chars [OF d, of lt ?m "length (concat (take ?n cs))"] slice_chars [of cs ?n ?m]
    by (simp add: from_left_row_def s drop_chars del: concat_eq_Nil_conv)
qed

lemma from_right_small:
  assumes "list_all utf8_char cs" "length (concat cs) \<le> 32" "0 < k" "k \<le> length cs" "k < 2 ^ 31" "0 \<le> len" "len < 2 ^ 31"
  shows "from_right_row True lt (int k) len (concat cs) = Some (concat (take (nat len) (drop (length cs - k) cs)))"
proof -
  let ?n = "length cs - k" and ?m = "nat len"
  have l: "length cs \<le> length (concat cs)" by (rule count_le [OF assms(1)])
  have ix: "get_utf8_small_index (concat cs) = Some (char_starts 0 cs)"
    using small_index_chars [OF assms(1), of 0 "[]"] assms(2) l by (simp add: get_utf8_small_index_def)
  have from_ptr: "vec_at (char_starts 0 cs) (int ?n) = Some (length (concat (take ?n cs)))"
    using assms(3,4) vec_at_nat [of ?n "char_starts 0 cs"] char_starts_nth [of ?n cs 0] by simp
  have s: "to_size (int k) = k" "to_size (int ?n + len) = ?n + ?m" using assms(4-7) l assms(2) by (simp_all add: to_size_nat nat_add_distrib)
  show ?thesis
  proof (cases "len < int k")
    case True
    then have m: "?n + ?m < length cs" using assms(4,6) by linarith
    have "take (?n + ?m) cs = take ?n cs @ take ?m (drop ?n cs)" by (rule take_add)
    with m have "vec_at (char_starts 0 cs) (int (?n + ?m)) = Some (length (concat (take ?n cs)) + length (concat (take ?m (drop ?n cs))))"
      using vec_at_nat [of "?n + ?m" "char_starts 0 cs"] char_starts_nth [of "?n + ?m" cs 0] by (simp del: of_nat_add)
    then show ?thesis
      using True assms(2,4) l ix from_ptr slice_chars [of cs ?n ?m] s by (simp add: from_right_row_def Let_def)
  next
    case False
    then have m: "take ?m (drop ?n cs) = drop ?n cs" using assms(4,6) by simp
    have "length (concat cs) = length (concat (take ?n cs)) + length (concat (drop ?n cs))"
      by (metis append_take_drop_id concat_append length_append)
    then show ?thesis
      using False assms(2,4) l ix from_ptr slice_chars [of cs ?n ?m] s unfolding m by (simp add: from_right_row_def Let_def)
  qed
qed

lemma from_right_large:
  assumes "list_all utf8_char cs" "32 < length (concat cs)" "0 < k" "k \<le> length (concat cs)" "k < 2 ^ 31" "0 \<le> len" "len < 2 ^ 31"
  shows "from_right_row True lt (int k) len (concat cs) = Some (if length cs < k then [] else concat (take (nat len) (drop (length cs - k) cs)))"
proof -
  let ?n = "length cs - k" and ?m = "nat len"
  have s: "to_size (int k) = k" "to_size len = ?m" using assms(5-7) by (simp_all add: to_size_nat)
  have p: "skip_trailing_utf8 (concat cs) k (Suc (length (concat cs))) = (if k \<le> length cs then Suc (length (concat (take ?n cs))) else 0)"
    using skip_trailing_chars [OF assms(1), of "length cs" k] by simp
  have d: "list_all utf8_char (drop ?n cs)" using assms(1) by (auto simp: list_all_iff dest: in_set_dropD)
  have e: "length (concat cs) = length (concat (take ?n cs)) + length (concat (drop ?n cs))"
    by (metis append_take_drop_id concat_append length_append)
  have "length (drop ?n cs) \<le> length (concat (drop ?n cs))" by (rule count_le [OF d])
  then have m: "take ?m (drop ?n cs) = drop ?n cs" if "int (length (concat cs)) - int (length (concat (take ?n cs))) < len"
    using that e by (intro take_all) linarith
  consider "length cs < k" | "k \<le> length cs" "int (length (concat cs)) - int (length (concat (take ?n cs))) < len"
    | "k \<le> length cs" "\<not> int (length (concat cs)) - int (length (concat (take ?n cs))) < len" by linarith
  then show ?thesis
  proof cases
    case 1
    then show ?thesis using assms(2,4) by (simp add: from_right_row_def Let_def s p)
  next
    case 2
    then have "from_right_row True lt (int k) len (concat cs) = slice_range (concat cs) (int (length (concat (take ?n cs)))) (int (length (concat cs)))"
      using assms(2,4) by (simp add: from_right_row_def Let_def s p)
    then show ?thesis using slice_chars [of cs ?n ?m] 2(1) unfolding m [OF 2(2)] e by simp
  next
    case 3
    then show ?thesis
      using assms(2,4) skip_leading_chars [OF d, of lt ?m "length (concat (take ?n cs))"] slice_chars [of cs ?n ?m]
      by (simp add: from_right_row_def Let_def s p drop_chars)
  qed
qed

lemma from_right_chars:
  assumes "list_all utf8_char cs" "0 < k" "k < 2 ^ 31" "0 \<le> len" "len < 2 ^ 31"
  shows "from_right_row True lt (int k) len (concat cs) = Some (concat (char_substr (- int k) len cs))"
proof -
  have s: "to_size (int k) = k" using assms(3) by (simp add: to_size_nat)
  have l: "length cs \<le> length (concat cs)" by (rule count_le [OF assms(1)])
  consider "length (concat cs) < k" | "length (concat cs) \<le> 32" "k \<le> length cs" | "length (concat cs) \<le> 32" "length cs < k" "k \<le> length (concat cs)"
    | "32 < length (concat cs)" "k \<le> length (concat cs)" by linarith
  then show ?thesis
  proof cases
    case 1
    then show ?thesis using l by (simp add: from_right_row_def s char_substr_def)
  next
    case 2
    then show ?thesis using from_right_small [OF assms(1) 2(1) assms(2) 2(2) assms(3-5)] assms(2) by (simp add: char_substr_def)
  next
    case 3
    then have "get_utf8_small_index (concat cs) = Some (char_starts 0 cs)"
      using small_index_chars [OF assms(1), of 0 "[]"] l by (simp add: get_utf8_small_index_def)
    then show ?thesis using 3 by (simp add: from_right_row_def s char_substr_def)
  next
    case 4
    then show ?thesis using from_right_large [OF assms(1) 4(1) assms(2) 4(2) assms(3-5)] assms(2) by (simp add: char_substr_def)
  qed
qed

lemma ascii_row:
  assumes "0 \<le> from_pos" "from_pos \<le> int (length s)" "0 \<le> len" "int (length s) + len < 2 ^ 31"
  shows "Option.bind (int_add from_pos len) (\<lambda>to_pos.
      slice_range s from_pos (if to_pos < from_pos \<or> length s < to_size to_pos then to_int (int (length s)) else to_pos))
    = Some (take (nat len) (drop (nat from_pos) s))"
proof -
  have s: "to_size (from_pos + len) = nat (from_pos + len)" using assms by (intro to_size_nat) simp_all
  have i: "to_int (int (length s)) = int (length s)" using assms by (intro to_int_id) simp_all
  have "int_add from_pos len = Some (from_pos + len)" using assms by (intro int_add_some) simp_all
  then show ?thesis using assms(1-3) by (auto simp: s i slice_range_def)
qed

lemma ascii_row_left:
  assumes "0 \<le> offset" "offset < 2 ^ 31" "0 \<le> len" "int (length s) + len < 2 ^ 31"
  shows "ascii_substr_row False offset len s = Some (take (nat len) (drop (nat offset) s))"
proof -
  have "to_size offset = nat offset" using assms by (intro to_size_nat) simp_all
  then show ?thesis using assms ascii_row [OF assms(1) _ assms(3,4)]
    by (cases "offset \<le> int (length s)") (auto simp: ascii_substr_row_def Let_def)
qed

lemma ascii_row_right:
  assumes "0 < k" "k < 2 ^ 31" "0 \<le> len" "int (length s) + len < 2 ^ 31"
  shows "ascii_substr_row True (- int k) len s = Some (char_substr (- int k) len s)"
proof -
  have "to_int (int (length s) - int k) = int (length s) - int k" using assms by (intro to_int_id) simp_all
  then show ?thesis using assms(1) ascii_row [of "int (length s) - int k" s len] assms(3,4)
    by (auto simp: ascii_substr_row_def Let_def char_substr_def nat_diff_distrib)
qed

lemma old_ascii_row_eq:
  assumes "1 \<le> offset" "offset < 2 ^ 31" "0 \<le> len" "int (length s) + len < 2 ^ 31"
  shows "old_ascii_row offset len s = Some (char_substr offset len s)"
proof (cases "offset \<le> int (length s)")
  case True
  then have "int_add offset len = Some (offset + len)" "int_add offset (- 1) = Some (offset - 1)"
    "to_size (offset + len) = nat (offset + len)" "to_size offset = nat offset"
    "to_int (int (length s) - (offset - 1)) = int (length s) - (offset - 1)"
    using assms by (simp_all add: int_add_def to_size_nat to_int_id)
  then show ?thesis using True assms
    by (auto simp: old_ascii_row_def Let_def char_substr_def slice_range_def nat_diff_distrib)
next
  case False
  then have "length s < nat offset" by simp
  moreover have "to_size offset = nat offset" using assms by (simp add: to_size_nat)
  ultimately show ?thesis using assms by (simp add: old_ascii_row_def char_substr_def)
qed

lemma index_row_chars:
  assumes "list_all utf8_char cs" "0 \<le> offset" "offset < 2 ^ 31" "0 \<le> len" "int (length (concat cs)) + len < 2 ^ 31"
    and ix: "get_index (concat cs) = Some (char_starts 0 cs)"
  shows "index_row neg get_index offset len (concat cs) = Some (concat (take (nat len) (drop (nat offset) cs)))"
proof (cases "offset < int (length cs)")
  case True
  let ?n = "nat offset" and ?m = "nat len"
  have l: "length cs \<le> length (concat cs)" by (rule count_le [OF assms(1)])
  have s: "to_size offset = ?n" "to_size (offset + len) = ?n + ?m" "int_add offset len = Some (offset + len)"
    using assms True l by (simp_all add: to_size_nat int_add_def nat_add_distrib)
  have b: "vec_at (char_starts 0 cs) offset = Some (length (concat (take ?n cs)))"
    using True assms(2) char_starts_nth [of ?n cs 0] by (simp add: vec_at_def)
  have e: "length (concat cs) = length (concat (take ?n cs)) + length (concat (drop ?n cs))"
    by (metis append_take_drop_id concat_append length_append)
  have "length (concat (take ?m (drop ?n cs))) \<le> length (concat (drop ?n cs))"
    by (metis append_take_drop_id concat_append le_add1 length_append)
  then have i: "to_int (int (length (concat (take ?m (drop ?n cs))))) = int (length (concat (take ?m (drop ?n cs))))"
    using assms(4,5) e by (intro to_int_id) simp_all
  have "(if ?n + ?m < length cs
      then map_option (\<lambda>e. to_int (int e - int (length (concat (take ?n cs))))) (vec_at (char_starts 0 cs) (offset + len))
      else Some (to_int (int (length (concat cs)) - int (length (concat (take ?n cs))))))
    = Some (int (length (concat (take ?m (drop ?n cs)))))"
  proof (cases "?n + ?m < length cs")
    case True
    then have "vec_at (char_starts 0 cs) (offset + len) = Some (length (concat (take (?n + ?m) cs)))"
      using assms(2,4) char_starts_nth [of "?n + ?m" cs 0] by (simp add: vec_at_def nat_add_distrib)
    then show ?thesis using True i by (simp add: take_add)
  next
    case False
    then have "take ?m (drop ?n cs) = drop ?n cs" by simp
    then show ?thesis using False i e by simp
  qed
  moreover have "concat cs \<noteq> []" using True assms(2) no_chars [OF assms(1)] by auto
  ultimately show ?thesis
    using True assms(2) slice_chars [of cs ?n ?m]
    by (simp add: index_row_def Let_def ix s b del: concat_eq_Nil_conv)
next
  case False
  then have "length cs \<le> nat offset" by simp
  moreover have "to_size offset = nat offset" using assms by (simp add: to_size_nat)
  ultimately show ?thesis using assms by (simp add: index_row_def ix)
qed

section \<open>Columns\<close>

lemma ascii_chars:
  assumes "list_all utf8_char cs" "list_all (\<lambda>b. unat b < 128) (concat cs)"
  shows "cs = map (\<lambda>b. [b]) (concat cs)"
  using assms
proof (induction cs)
  case (Cons c cs)
  from Cons.prems obtain b bs where "c = b # bs" "char_size b = Suc (length bs)" "unat b < 128" by (auto elim: utf8_charE)
  then show ?case using Cons by (simp add: char_size_val)
qed simp

lemma char_substr_map: "char_substr offset len (map f cs) = map f (char_substr offset len cs)"
  by (simp add: char_substr_def take_map drop_map)

lemma ascii_char_substr:
  assumes "list_all utf8_char cs" "list_all (\<lambda>b. unat b < 128) (concat cs)"
  shows "concat (char_substr offset len cs) = char_substr offset len (concat cs)"
  by (subst ascii_chars [OF assms]) (simp add: char_substr_map)

lemma append_rows_chars:
  assumes "fits (map concat css)" "\<And>cs. cs \<in> set css \<Longrightarrow> f (concat cs) = Some (concat (g cs))"
  shows "append_rows f (columnar (map concat css)) 0 (length css) (columnar ds) = Some (columnar (ds @ map (\<lambda>cs. concat (g cs)) css))"
proof -
  have "list_all2 (\<lambda>s u. f s = Some u) (map concat css) (map (\<lambda>cs. concat (g cs)) css)"
    using assms(2) by (simp add: list_all2_conv_all_nth)
  from append_rows_columnar [OF assms(1) this, of 0 "length css" ds] show ?thesis by simp
qed

lemma append_rows_none:
  assumes "fits ss"
  shows "i + k = length ss \<Longrightarrow> i \<le> j \<Longrightarrow> j < length ss \<Longrightarrow> f (ss ! j) = None \<Longrightarrow> append_rows f (columnar ss) i k (columnar ds) = None"
proof (induction k arbitrary: i ds)
  case (Suc k)
  then have i: "i < length ss" by simp
  show ?case
  proof (cases "f (ss ! i)")
    case (Some u)
    then have "Suc i \<le> j" using Suc.prems by (metis Suc_leI le_neq_implies_less option.distinct(1))
    then show ?thesis
      using Suc.IH [of "Suc i" "ds @ [u]"] Suc.prems Some columnar_get_slice [OF assms i] columnar_slice [OF assms i]
      by (simp add: columnar_append)
  qed (use columnar_get_slice [OF assms i] columnar_slice [OF assms i] in simp)
qed simp

lemma all_rows: "list_all P (concat (map concat css)) \<Longrightarrow> cs \<in> set css \<Longrightarrow> list_all P (concat cs)"
  by (auto simp: list_all_iff)

lemma row_room: "cs \<in> set css \<Longrightarrow> int (length (concat (map concat css))) + len < n \<Longrightarrow> int (length (concat cs)) + len < n"
  using row_length [of "concat cs" "map concat css"] by simp

section \<open>Properties\<close>

text \<open>
  C16. substr with a length appends to dst, for every row of well-formed UTF-8, the characters
  from the given position on, counted from one or backwards from the last, as many as there
  are up to the length, and nothing for a position outside; with the check for ASCII or
  without it, with the table or the count of leading zeros, for short and for long strings.
\<close>
theorem substr_exact:
  assumes "list_all (list_all utf8_char) css" "length css < 2 ^ 31" "0 \<le> len"
    and "int (length (concat (map concat css))) + len < 2 ^ 31" "offset \<noteq> 0" "- (2 ^ 31) < offset" "offset < 2 ^ 31"
  shows "substr check_ascii True lookup_table (columnar (map concat css)) (columnar ds) offset len =
    Some (columnar (ds @ map (\<lambda>cs. concat (char_substr offset len cs)) css))"
proof -
  have f: "fits (map concat css)" using assms(2-4) by (simp add: fits_def)
  have u: "list_all utf8_char cs" if "cs \<in> set css" for cs using that assms(1) by (simp add: list_all_iff)
  have len: "len < 2 ^ 31" using assms(4) by linarith
  have ascii: "validate_ascii_fast (col_bytes (columnar (map concat css))) \<longleftrightarrow> list_all (\<lambda>b. unat b < 128) (concat (map concat css))"
    by (simp add: validate_ascii_iff columnar_def)
  have sub: "char_substr offset len (concat cs) = concat (char_substr offset len cs)"
    if "cs \<in> set css" "list_all (\<lambda>b. unat b < 128) (concat (map concat css))" for cs
    using ascii_char_substr [OF u [OF that(1)] all_rows [OF that(2,1)]] by simp
  show ?thesis
  proof (cases "0 < offset")
    case True
    then have n: "0 \<le> offset - 1" "offset - 1 < 2 ^ 31" "nat offset - 1 = nat (offset - 1)" using assms(7) by simp_all
    have "ascii_substr_row False (offset - 1) len (concat cs) = Some (char_substr offset len (concat cs))" if "cs \<in> set css" for cs
      using ascii_row_left [OF n(1,2) assms(3) row_room [OF that assms(4)]] True n(3) by (simp add: char_substr_def)
    moreover have "from_left_row True lookup_table (offset - 1) len (concat cs) = Some (concat (char_substr offset len cs))" if "cs \<in> set css" for cs
      using from_left_chars [OF u [OF that] n(1,2) assms(3) len] True n(3) by (simp add: char_substr_def)
    ultimately show ?thesis
      using True sub append_rows_chars [OF f, where g = "char_substr offset len" and ds = ds]
      by (simp add: substr_def ascii ascii_substr_def utf8_substr_from_left_def)
  next
    case False
    define k where "k = nat (- offset)"
    have k: "offset = - int k" "0 < k" "k < 2 ^ 31" using False assms(5,6) by (simp_all add: k_def)
    have "ascii_substr_row True offset len (concat cs) = Some (char_substr offset len (concat cs))" if "cs \<in> set css" for cs
      using ascii_row_right [OF k(2,3) assms(3) row_room [OF that assms(4)]] by (simp add: k(1))
    moreover have "from_right_row True lookup_table (- offset) len (concat cs) = Some (concat (char_substr offset len cs))" if "cs \<in> set css" for cs
      using from_right_chars [OF u [OF that] k(2,3) assms(3) len] by (simp add: k(1))
    ultimately show ?thesis
      using False assms(5,6) sub append_rows_chars [OF f, where g = "char_substr offset len" and ds = ds]
      by (simp add: substr_def ascii ascii_substr_def utf8_substr_from_right_def)
  qed
qed

theorem substr_exact_witness:
  "substr True True False (columnar (map concat [[[0x61], [0xc3, 0xa9], [0x62]]])) (columnar []) (- 2) 1 = Some (columnar [[0xc3, 0xa9]])"
  using substr_exact [of "[[[0x61], [0xc3, 0xa9], [0x62]]]" 1 "- 2" True False "[]"]
  by (simp add: utf8_char_def is_char_size char_size_val continuation_def char_substr_def)

text \<open>
  C39. substr\_old agrees with substr on positions from one on, and substr\_new does so on a
  column with a byte above 127.
\<close>
theorem substr_old_agrees:
  assumes "list_all (list_all utf8_char) css" "length css < 2 ^ 31" "0 \<le> len"
    and "int (length (concat (map concat css))) + len < 2 ^ 31" "1 \<le> offset" "offset < 2 ^ 31"
  shows "substr_old negative_offset (columnar (map concat css)) (columnar ds) offset len =
      Some (columnar (ds @ map (\<lambda>cs. concat (char_substr offset len cs)) css)) \<and>
    (\<not> list_all (\<lambda>b. unat b < 128) (concat (map concat css)) \<longrightarrow>
      substr_new negative_offset (columnar (map concat css)) (columnar ds) offset len =
      Some (columnar (ds @ map (\<lambda>cs. concat (char_substr offset len cs)) css)))"
proof -
  have f: "fits (map concat css)" using assms(2-4) by (simp add: fits_def)
  have u: "list_all utf8_char cs" if "cs \<in> set css" for cs using that assms(1) by (simp add: list_all_iff)
  have d: "dec_offset offset = offset - 1" "0 \<le> offset - 1" "offset - 1 < 2 ^ 31" "nat offset - 1 = nat (offset - 1)"
    using assms(5,6) by (simp_all add: dec_offset_def)
  have ascii: "validate_ascii_fast (col_bytes (columnar (map concat css))) \<longleftrightarrow> list_all (\<lambda>b. unat b < 128) (concat (map concat css))"
    by (simp add: validate_ascii_iff columnar_def)
  have sub: "char_substr offset len (concat cs) = concat (char_substr offset len cs)"
    if "cs \<in> set css" "list_all (\<lambda>b. unat b < 128) (concat (map concat css))" for cs
    using ascii_char_substr [OF u [OF that(1)] all_rows [OF that(2,1)]] by simp
  have "get_utf8_index (concat cs) = Some (char_starts 0 cs)" "get_utf8_index2 (concat cs) = Some (char_starts 0 cs)" if "cs \<in> set css" for cs
    using index_loop_chars [OF u [OF that], of 0 _ "[]"] row_room [OF that assms(4)] assms(3)
    by (simp_all add: get_utf8_index_def get_utf8_index2_def)
  then have "index_row negative_offset get_utf8_index (dec_offset offset) len (concat cs) = Some (concat (char_substr offset len cs))"
    "index_row negative_offset get_utf8_index2 (dec_offset offset) len (concat cs) = Some (concat (char_substr offset len cs))" if "cs \<in> set css" for cs
    using index_row_chars [OF u [OF that] d(2,3) assms(3) row_room [OF that assms(4)]] that assms(5) d(4) by (simp_all add: char_substr_def d(1))
  moreover have "old_ascii_row offset len (concat cs) = Some (char_substr offset len (concat cs))" if "cs \<in> set css" for cs
    using old_ascii_row_eq [OF assms(5,6,3) row_room [OF that assms(4)]] .
  ultimately show ?thesis
    using sub append_rows_chars [OF f, where g = "char_substr offset len" and ds = ds]
    by (simp add: substr_old_def substr_new_def ascii)
qed

theorem substr_old_agrees_witness:
  "substr_old False (columnar (map concat [[[0x61], [0xc3, 0xa9], [0x62]]])) (columnar []) 2 5 = Some (columnar [[0xc3, 0xa9, 0x62]])"
  using substr_old_agrees [of "[[[0x61], [0xc3, 0xa9], [0x62]]]" 5 2 False "[]"]
  by (simp add: utf8_char_def is_char_size char_size_val continuation_def char_substr_def)

text \<open>
  C40. substr\_new on ASCII takes every offset for a negative one: with a positive offset, a len
  that is not negative and a row that is not empty it appends from a pointer behind the end of
  the row, as long as the size of the row, the offset and len add up to an int.
\<close>
theorem substr_new_ascii_faults:
  assumes "fits ss" "list_all (\<lambda>b. unat b < 128) (concat ss)" "s \<in> set ss" "s \<noteq> []"
    and "1 \<le> offset" "0 \<le> len" "int (length s) + offset + len < 2 ^ 31"
  shows "substr_new negative_offset (columnar ss) (columnar ds) offset len = None"
proof -
  have "to_int (offset + int (length s)) = offset + int (length s)" using assms(5-7) by (intro to_int_id) simp_all
  moreover have "int_add (offset + int (length s)) len = Some (offset + int (length s) + len)" using assms(5-7) by (intro int_add_some) simp_all
  moreover have "to_size (offset + int (length s) + len) = nat (offset + int (length s) + len)" using assms(5-7) by (intro to_size_nat) simp_all
  moreover have "to_int (int (length s)) = int (length s)" using assms(5-7) by (intro to_int_id) simp_all
  ultimately have "ascii_substr_row True offset len s = None"
    using assms(4-7) by (auto simp: ascii_substr_row_def Let_def slice_range_def)
  then obtain j where "j < length ss" "ascii_substr_row True offset len (ss ! j) = None" using assms(3) by (metis in_set_conv_nth)
  then show ?thesis
    using append_rows_none [OF assms(1), of 0 "length ss" j] assms(2)
    by (simp add: substr_new_def validate_ascii_iff columnar_def [of ss] ascii_substr_def binary_column_size_def)
qed

theorem substr_new_ascii_faults_witness:
  "substr_new False (columnar [[0x61, 0x62, 0x63]]) (columnar []) 1 2 = None"
  using substr_new_ascii_faults [of "[[0x61, 0x62, 0x63]]" "[0x61, 0x62, 0x63]" 1 2 False "[]"] by (simp add: fits_def)

end
