(* ===== verification/Spec2Isabelle.thy ===== *)
theory Spec2Isabelle
  imports CacheManager FastMemcpyAvx Interpreters Vectors HexDigit Trim Reverse MemEqual Repeat HashMix Spooky ByteOrder GermanString BinaryColumn StringCase Utf8Length Substr CacheClient
begin

text \<open>
  Verification of cpp\_etudes, a C++ repository of data structures and vectorised string and
  memory kernels (src/include, src/src/modules).

  \<^bold>\<open>Fault model.\<close>  Operations that can go wrong return an option: None is an access outside an
  object, a null or dangling pointer, a failed assertion, an arithmetic operation the language
  leaves undefined, or a loop that does not end.  Unsigned integers are words of their width,
  Prelude names them; an int is an integer with the overflow written out, or a word where only
  its bits matter.  A theorem that an operation returns Some therefore says that it is safe and
  that it ends.  Prelude holds this vocabulary, memcmp and the three-way order of byte strings;
  RawMemory a byte-addressed memory with loads, stores and block copies; Vectors the vector and
  bit-scan operations of the compiler; ByteOrder integers as bytes.

  \<^bold>\<open>The LRU cache\<close> (src/src/modules/lru\_cache).  Slice: slice.hh and the keys of lru\_cache.cc.
  LruHandle: the heap cells and the circular list.  HandleTable: the hash table with its
  pointer-to-pointer search and resize.  LruCache: one shard, its operations in the order of
  the source; LruOps: its invariant (list, table, reference counts and usage agree) and what
  every operation does to it.  ShardedCache: the array of shards on one heap.  CacheClient: any
  sequence of calls of a client, as an inductive relation, with the abstract map it refines;
  the safety, coherence, ownership, accounting and eviction theorems are there.  CacheManager:
  the query cache composed from them.  A mutex makes each operation one step, so interleavings
  are sequences of operations.

  \<^bold>\<open>Memory copies.\<close>  FastMemcpy and FastMemcpyAvx: src/include/clickhouse, with the jump
  tables case by case; both are the copy of the source range, for all sizes and alignments.
  Repeat: src/include/repeat.hh, doubling over any copy routine; all variants agree.

  \<^bold>\<open>Interpreters\<close>: src/include/interpreters and src/src/modules/interpreters, three dispatch
  styles of one stack machine, shown equal by simulation of each against one step function.
  The switch pops two operands in one unsequenced expression: that is a fault, unless the
  parameter for the order of the pops says that the compiler pops the left one first.

  \<^bold>\<open>Strings.\<close>  HexDigit (hexdigit.hh), Trim (trim.hh), Reverse (reverse.hh) and MemEqual
  (memequal.hh, util/bits\_op.hh): each vectorised routine equals its scalar reference.  The
  characters of a UTF-8 string are defined by the leading bits of bytes, apart from the tables
  of the code.
  GermanString: german\_string.h, the sixteen bytes of the object with the union read as bytes,
  and the page allocator.  BinaryColumn: binary\_column.hh and concat.hh.  Utf8Length,
  StringCase and Substr: string\_functions.hh.

  \<^bold>\<open>Hashes.\<close>  HashMix: folly/hash/Hash.h, the mixers with their inverses, FNV, Hsieh and the
  combiners.  Spooky: the mixing functions of SpookyHashV1.h and SpookyHashV2.h, shown
  to be unrolled rounds, equal in both versions but for End, and permutations.

  \<^bold>\<open>Contracts.\<close>  three\_way (compare methods), entry\_table (the hash table under the shard),
  framed\_shards (shards on one heap), block\_copy and mover (the loops and jump tables of the
  copies), copier and doubling (repetition), invertible (mixers) and char\_sizes (sizes of UTF-8
  characters) are locales; each is interpreted on the definitions of the code.

  \<^bold>\<open>Loops, bounds and fuel.\<close>  No fuel is used.  Loops over pointers and the loops that could
  run forever are partial functions into option and are shown to return on well-formed
  states; the others end by a measure.  Sizes are bounded where the code
  needs it: 32-bit offsets of columns, int counters below 2 ^ 31, rows below 2 ^ 20 bytes in the
  vertical concatenation; the theorems carry these bounds as hypotheses.  Pointers are compared
  and moved within one object and to its ends; the loops that step back to the position before
  the begin of a string (trim.hh, the substr functions) compute it as an integer and do not read
  there.  Of code chosen by the
  preprocessor the branch of a build with SSE2 and AVX2 is modelled.

  \<^bold>\<open>Parameters.\<close>  What malloc and operator new return, the contents of fresh memory, random
  distributions, deleters (as a log of calls) and Hash128 of SpookyHash are arguments.

  \<^bold>\<open>Not modelled.\<close>  HyperLogLog (hll.hh) computes with floating point; the decimal variants are
  inline assembly; the lock-free list and hash table, queues and futures need a weak memory
  model; phmap, most of folly, the flex and bison output and the third-party directory are
  vendored or generated; guards, delegates and meta macros act at compile time; the demos,
  benchmarks, tests, Perl and shell scripts print or drive other programs.  In
  string\_functions.hh stat\_utf8, the readers of environment variables and the benchmark data are
  left out, in Hash.h the hashers of floats, tuples and pointers.
\<close>

end
